(* ===== verification/Go_Prelude.thy ===== *)
theory Go_Prelude
  imports Main "HOL-Library.Word" "HOL-Library.Multiset" "HOL-Library.Signed_Division"
begin

text \<open>
  Shared ground of the development: names for Go's data types, the collections of hints the
  component theories add to, and the generic facts on lists, maps and multisets that more than
  one component uses.

  Conventions. A Go \<open>string\<close> and a \<open>[]byte\<close> holding text is an Isabelle \<open>string\<close>: a
  \<open>char\<close> is exactly one byte. A \<open>[]byte\<close> holding binary data is a list of \<open>8 word\<close>.
  A Go \<open>int\<close> is an \<open>int\<close>; where its width matters the bound is stated. A Go map is a partial
  function, and code that ranges over a map gets the (unspecified) iteration order as an argument.
  Reads that panic in Go when out of range are either guarded by the code's own test or proved to
  be in range by the component's invariant.
\<close>

section \<open>Names of types and hint collections\<close>

type_synonym byte = "8 word"
type_synonym bytes = "byte list"

text \<open>
  A call that can hit a Go runtime panic (a nil pointer, an index out of range) returns an
  \<open>outcome\<close>: \<open>Panic\<close> stops the whole process, \<open>Ok v\<close> is a normal return.
\<close>

datatype 'a outcome = Ok 'a | Panic

text \<open>The rest of a function after a call that may panic.\<close>

definition and_then :: "'a outcome \<Rightarrow> ('a \<Rightarrow> 'b outcome) \<Rightarrow> 'b outcome" where
  "and_then r k = (case r of Ok v \<Rightarrow> k v | Panic \<Rightarrow> Panic)"

lemma and_then_simps [simp]: "and_then (Ok v) k = k v" "and_then Panic k = Panic"
  by (simp_all add: and_then_def)

text \<open>
  \<open>go_defs\<close>: definitions of straight-line operations a proof unfolds together;
  \<open>inv_intros\<close>: one preservation lemma per operation of a component's invariant;
  \<open>mset_simps\<close>: what an operation does to the multiset of stored items.
\<close>

named_theorems go_defs "definitions of the operations of a component"
named_theorems inv_intros "preservation of a component's invariant"
named_theorems mset_simps "effect of an operation on the multiset of items"

section \<open>Exchanging two elements of a slice\<close>

definition exchange :: "'a list \<Rightarrow> nat \<Rightarrow> nat \<Rightarrow> 'a list" where
  "exchange xs i j = xs[i := xs ! j, j := xs ! i]"

lemma length_exchange [simp]: "length (exchange xs i j) = length xs"
  by (simp add: exchange_def)

lemma nth_exchange:
  "i < length xs \<Longrightarrow> j < length xs \<Longrightarrow> k < length xs \<Longrightarrow>
   exchange xs i j ! k = (if k = i then xs ! j else if k = j then xs ! i else xs ! k)"
  by (auto simp: exchange_def nth_list_update)

lemma mset_exchange [mset_simps]:
  "i < length xs \<Longrightarrow> j < length xs \<Longrightarrow> mset (exchange xs i j) = mset xs"
  unfolding exchange_def by (rule mset_swap)

lemma mset_last_removed:
  "xs \<noteq> [] \<Longrightarrow> mset (butlast xs) = mset xs - {#last xs#}"
  by (cases xs rule: rev_cases) auto

lemma mset_update_value:
  "i < length xs \<Longrightarrow> mset (xs[i := x]) = add_mset x (mset xs - {#xs ! i#})"
  by (rule mset_update)

lemma length_filter_strict:
  assumes "\<And>x. Q x \<Longrightarrow> P x" "y \<in> set xs" "P y" "\<not> Q y"
  shows "length (filter Q xs) < length (filter P xs)"
  using assms(2)
proof (induction xs)
  case (Cons x xs)
  have le: "length (filter Q zs) \<le> length (filter P zs)" for zs
    using assms(1) by (induction zs) (auto simp: le_SucI)
  from Cons show ?case using assms le[of xs] by (auto simp: less_Suc_eq_le)
qed simp

section \<open>Searching a slice: the first index that satisfies a test\<close>

primrec find_index :: "('a \<Rightarrow> bool) \<Rightarrow> 'a list \<Rightarrow> nat option" where
  "find_index p [] = None"
| "find_index p (x # xs) = (if p x then Some 0 else map_option Suc (find_index p xs))"

lemma find_index_None: "find_index p xs = None \<longleftrightarrow> (\<forall>x\<in>set xs. \<not> p x)"
  by (induction xs) auto

lemma find_index_Some:
  "find_index p xs = Some i \<Longrightarrow> i < length xs \<and> p (xs ! i) \<and> (\<forall>j<i. \<not> p (xs ! j))"
proof (induction xs arbitrary: i)
  case Nil
  then show ?case by simp
next
  case (Cons x xs)
  then show ?case
    by (auto split: if_splits simp: less_Suc_eq_0_disj)
qed

lemma find_index_Some_ex: "find_index p xs = Some i \<Longrightarrow> \<exists>x\<in>set xs. p x"
  using find_index_Some nth_mem by metis

lemma find_index_append:
  "find_index p (xs @ ys) =
   (case find_index p xs of
      Some i \<Rightarrow> Some i
    | None \<Rightarrow> map_option (\<lambda>i. length xs + i) (find_index p ys))"
proof (induction xs)
  case Nil
  then show ?case by (cases "find_index p ys") auto
next
  case (Cons x xs)
  then show ?case
    by (cases "find_index p xs"; cases "find_index p ys") auto
qed

end
