(* ===== verification/Max_Heap.thy ===== *)
theory Max_Heap
  imports Go_Prelude
begin

text \<open>
  \<open>internal/jobcenter/maxheap.go\<close>: the array-backed binary max-heap behind every job queue.

  The slice \<open>data\<close> is a list; the two closures \<open>greaterThan\<close> and \<open>identify\<close> are fields of the
  record, as in the struct. Every exported method takes the mutex for its whole body, so one
  method is one atomic function of the record; slice capacity has no effect on results and is not
  part of the model (\<open>Compact\<close> is therefore the identity on contents). Indices of the internal
  operations are \<open>int\<close> where the code tests for negative values, and \<open>nat\<close> inside the loops,
  which run only after that test.
\<close>

section \<open>The data structure and its operations\<close>

record ('t, 'i) MaxHeap =
  mh_data :: "'t list"
  mh_greaterThan :: "'t \<Rightarrow> 't \<Rightarrow> bool"
  mh_identify :: "'i \<Rightarrow> 't \<Rightarrow> bool"

definition NewMaxHeap :: "('t \<Rightarrow> 't \<Rightarrow> bool) \<Rightarrow> ('i \<Rightarrow> 't \<Rightarrow> bool) \<Rightarrow> ('t, 'i) MaxHeap" where
  "NewMaxHeap gt idf = \<lparr>mh_data = [], mh_greaterThan = gt, mh_identify = idf\<rparr>"

text \<open>The internal operations, on the slice and the comparator.\<close>

definition lastIndex :: "'t list \<Rightarrow> int" where
  "lastIndex d = (if length d = 0 then -1 else int (length d) - 1)"

definition swap :: "'t list \<Rightarrow> int \<Rightarrow> int \<Rightarrow> 't list" where
  "swap d i j =
     (let size = int (length d)
      in if i < 0 \<or> i \<ge> size \<or> j < 0 \<or> j \<ge> size then d
         else exchange d (nat i) (nat j))"

fun siftUp_loop :: "('t \<Rightarrow> 't \<Rightarrow> bool) \<Rightarrow> 't list \<Rightarrow> nat \<Rightarrow> 't list" where
  "siftUp_loop gt d index =
     (if index > 0 then
        let parentIndex = (index - 1) div 2
        in if gt (d ! parentIndex) (d ! index) then d
           else siftUp_loop gt (swap d (int index) (int parentIndex)) parentIndex
      else d)"

declare siftUp_loop.simps [simp del]

definition siftUp :: "('t \<Rightarrow> 't \<Rightarrow> bool) \<Rightarrow> 't list \<Rightarrow> int \<Rightarrow> 't list" where
  "siftUp gt d index =
     (if index < 0 \<or> index \<ge> int (length d) then d else siftUp_loop gt d (nat index))"

definition largestOf :: "('t \<Rightarrow> 't \<Rightarrow> bool) \<Rightarrow> 't list \<Rightarrow> nat \<Rightarrow> nat" where
  "largestOf gt d index =
     (let leftChildIndex = 2 * index + 1;
          rightChildIndex = 2 * index + 2;
          largest = (if int leftChildIndex \<le> lastIndex d \<and> gt (d ! leftChildIndex) (d ! index)
                     then leftChildIndex else index)
      in if int rightChildIndex \<le> lastIndex d \<and> gt (d ! rightChildIndex) (d ! largest)
         then rightChildIndex else largest)"

lemma length_swap [simp]: "length (swap d i j) = length d"
  by (simp add: swap_def Let_def)

lemma largestOf_cases: "largestOf gt d i \<in> {i, 2 * i + 1, 2 * i + 2}"
  by (simp add: largestOf_def Let_def)

lemma largestOf_bound: "largestOf gt d i \<noteq> i \<Longrightarrow> i < largestOf gt d i \<and> largestOf gt d i < length d"
  by (auto simp: largestOf_def Let_def lastIndex_def split: if_splits)

function siftDown_loop :: "('t \<Rightarrow> 't \<Rightarrow> bool) \<Rightarrow> 't list \<Rightarrow> nat \<Rightarrow> 't list" where
  "siftDown_loop gt d index =
     (let largestIndex = largestOf gt d index
      in if largestIndex = index then d
         else siftDown_loop gt (swap d (int index) (int largestIndex)) largestIndex)"
  by pat_completeness auto
termination
proof (relation "measure (\<lambda>(gt, d, index). length d - index)", goal_cases)
  case 1
  show ?case by simp
next
  case (2 gt d index x)
  then show ?case using largestOf_bound[of gt d index] by auto
qed

declare siftDown_loop.simps [simp del]

definition siftDown :: "('t \<Rightarrow> 't \<Rightarrow> bool) \<Rightarrow> 't list \<Rightarrow> int \<Rightarrow> 't list" where
  "siftDown gt d index =
     (if lastIndex d < 0 then d
      else if index < 0 \<or> index > lastIndex d then d
      else siftDown_loop gt d (nat index))"

text \<open>The descending loop of \<open>Heapify\<close>: \<open>for i := (mh.Size() - 2) / 2; i >= 0; i--\<close>.\<close>

function heapify_loop :: "('t \<Rightarrow> 't \<Rightarrow> bool) \<Rightarrow> 't list \<Rightarrow> int \<Rightarrow> 't list" where
  "heapify_loop gt d i = (if i \<ge> 0 then heapify_loop gt (siftDown gt d i) (i - 1) else d)"
  by pat_completeness auto
termination
  by (relation "measure (\<lambda>(gt, d, i). nat (i + 1))") auto

declare heapify_loop.simps [simp del]

definition Heapify ::
  "'t list \<Rightarrow> ('t \<Rightarrow> 't \<Rightarrow> bool) \<Rightarrow> ('i \<Rightarrow> 't \<Rightarrow> bool) \<Rightarrow> ('t, 'i) MaxHeap" where
  "Heapify d gt idf =
     (NewMaxHeap gt idf)\<lparr>mh_data := heapify_loop gt d ((int (length d) - 2) sdiv 2)\<rparr>"

definition IsEmpty :: "('t, 'i) MaxHeap \<Rightarrow> bool" where
  "IsEmpty mh = (length (mh_data mh) = 0)"

definition Size :: "('t, 'i) MaxHeap \<Rightarrow> nat" where
  "Size mh = length (mh_data mh)"

definition Peek :: "('t, 'i) MaxHeap \<Rightarrow> 't option" where
  "Peek mh = (if length (mh_data mh) = 0 then None else Some (mh_data mh ! 0))"

definition Push :: "('t, 'i) MaxHeap \<Rightarrow> 't \<Rightarrow> ('t, 'i) MaxHeap" where
  "Push mh item =
     (let d = mh_data mh @ [item]
      in mh\<lparr>mh_data := siftUp (mh_greaterThan mh) d (int (length d) - 1)\<rparr>)"

definition Pop :: "('t, 'i) MaxHeap \<Rightarrow> 't option \<times> ('t, 'i) MaxHeap" where
  "Pop mh =
     (if length (mh_data mh) = 0 then (None, mh)
      else let lastIndex = length (mh_data mh) - 1;
               d = swap (mh_data mh) 0 (int lastIndex);
               item = d ! lastIndex;
               d = take lastIndex d;
               d = (if length d > 0 then siftDown (mh_greaterThan mh) d 0 else d)
           in (Some item, mh\<lparr>mh_data := d\<rparr>))"

definition Clear :: "('t, 'i) MaxHeap \<Rightarrow> ('t, 'i) MaxHeap" where
  "Clear mh = mh\<lparr>mh_data := []\<rparr>"

definition Compact :: "('t, 'i) MaxHeap \<Rightarrow> ('t, 'i) MaxHeap" where
  "Compact mh =
     (if length (mh_data mh) = 0 then mh\<lparr>mh_data := []\<rparr>
      else mh\<lparr>mh_data := mh_data mh\<rparr>)"

definition deleteAt :: "('t \<Rightarrow> 't \<Rightarrow> bool) \<Rightarrow> 't list \<Rightarrow> nat \<Rightarrow> 't list" where
  "deleteAt gt d foundIndex =
     (let last = lastIndex d
      in if int foundIndex = last then take (nat last) d
         else let d = take (nat last) (swap d (int foundIndex) last);
                  parentIndex = (foundIndex - 1) div 2
              in if foundIndex > 0 \<and> gt (d ! foundIndex) (d ! parentIndex)
                 then siftUp gt d (int foundIndex)
                 else siftDown gt d (int foundIndex))"

definition Delete_mh :: "('t, 'i) MaxHeap \<Rightarrow> 'i \<Rightarrow> bool \<times> ('t, 'i) MaxHeap" where
  "Delete_mh mh value =
     (if length (mh_data mh) = 0 then (False, mh)
      else case find_index (mh_identify mh value) (mh_data mh) of
          None \<Rightarrow> (False, mh)
        | Some foundIndex \<Rightarrow>
            (True, mh\<lparr>mh_data := deleteAt (mh_greaterThan mh) (mh_data mh) foundIndex\<rparr>))"

definition Contains :: "('t, 'i) MaxHeap \<Rightarrow> 'i \<Rightarrow> bool" where
  "Contains mh value =
     (if length (mh_data mh) = 0 then False
      else find_index (mh_identify mh value) (mh_data mh) \<noteq> None)"

definition updateAt :: "('t \<Rightarrow> 't \<Rightarrow> bool) \<Rightarrow> 't list \<Rightarrow> nat \<Rightarrow> 't \<Rightarrow> 't list" where
  "updateAt gt d index newValue =
     (let oldValue = d ! index;
          d = d[index := newValue];
          parentIndex = (index - 1) div 2
      in if index > 0 \<and> gt (d ! index) (d ! parentIndex) then siftUp gt d (int index)
         else if gt oldValue newValue then siftDown gt d (int index)
         else d)"

definition Update :: "('t, 'i) MaxHeap \<Rightarrow> 'i \<Rightarrow> 't \<Rightarrow> bool \<times> ('t, 'i) MaxHeap" where
  "Update mh ident newValue =
     (if length (mh_data mh) = 0 then (False, mh)
      else case find_index (mh_identify mh ident) (mh_data mh) of
          None \<Rightarrow> (False, mh)
        | Some index \<Rightarrow>
            (True, mh\<lparr>mh_data := updateAt (mh_greaterThan mh) (mh_data mh) index newValue\<rparr>))"

definition UpdateOrPush :: "('t, 'i) MaxHeap \<Rightarrow> 'i \<Rightarrow> 't \<Rightarrow> bool \<times> ('t, 'i) MaxHeap" where
  "UpdateOrPush mh ident value =
     (let (updated, mh') = Update mh ident value
      in if updated then (True, mh') else (False, Push mh' value))"

section \<open>The heap property\<close>

definition parent :: "nat \<Rightarrow> nat" where
  "parent j = (j - 1) div 2"

lemma parent_eq: "(j - 1) div 2 = parent j" "(j - Suc 0) div 2 = parent j"
  by (simp_all add: parent_def)

lemma parent_iff: "0 < j \<Longrightarrow> parent j = i \<longleftrightarrow> j = 2 * i + 1 \<or> j = 2 * i + 2"
  unfolding parent_def by arith

lemma parent_less: "0 < j \<Longrightarrow> parent j < j"
  unfolding parent_def by arith

lemma parent_length: "j < length d \<Longrightarrow> parent j < length d"
  unfolding parent_def by arith

lemma parent_child [simp]: "parent (Suc (2 * i)) = i" "parent (Suc (Suc (2 * i))) = i"
  by (simp_all add: parent_def)

text \<open>
  \<open>heap_from k\<close>: no element exceeds its parent, for the parents at index \<open>k\<close> and beyond;
  \<open>heap_from 0\<close> is the heap property. \<open>up_hole\<close> and \<open>down_hole\<close> are the loop invariants: the
  property may fail only between the element at \<open>i\<close> and its parent (its children).
\<close>

definition heap_from :: "('t \<Rightarrow> 't \<Rightarrow> bool) \<Rightarrow> nat \<Rightarrow> 't list \<Rightarrow> bool" where
  "heap_from gt k d \<longleftrightarrow>
     (\<forall>j<length d. 0 < j \<longrightarrow> k \<le> parent j \<longrightarrow> \<not> gt (d ! j) (d ! parent j))"

definition up_hole :: "('t \<Rightarrow> 't \<Rightarrow> bool) \<Rightarrow> 't list \<Rightarrow> nat \<Rightarrow> bool" where
  "up_hole gt d i \<longleftrightarrow>
     (\<forall>j<length d. 0 < j \<longrightarrow> j \<noteq> i \<longrightarrow> \<not> gt (d ! j) (d ! parent j)) \<and>
     (\<forall>j<length d. 0 < j \<longrightarrow> parent j = i \<longrightarrow> 0 < i \<longrightarrow> \<not> gt (d ! j) (d ! parent i))"

definition down_hole :: "('t \<Rightarrow> 't \<Rightarrow> bool) \<Rightarrow> nat \<Rightarrow> 't list \<Rightarrow> nat \<Rightarrow> bool" where
  "down_hole gt k d i \<longleftrightarrow>
     (\<forall>j<length d. 0 < j \<longrightarrow> k \<le> parent j \<longrightarrow> parent j \<noteq> i \<longrightarrow> \<not> gt (d ! j) (d ! parent j)) \<and>
     (\<forall>j<length d. 0 < j \<longrightarrow> parent j = i \<longrightarrow> 0 < i \<longrightarrow> k \<le> parent i \<longrightarrow>
        \<not> gt (d ! j) (d ! parent i))"

text \<open>
  What the code relies on: \<open>greaterThan\<close> is a strict weak order. \<open>ge_trans\<close> is the form the
  proofs use: "not exceeded by" is transitive.
\<close>

locale comparator =
  fixes gt :: "'t \<Rightarrow> 't \<Rightarrow> bool"
  assumes gt_asym: "gt a b \<Longrightarrow> \<not> gt b a"
    and gt_split: "gt a c \<Longrightarrow> gt a b \<or> gt b c"
begin

lemma ge_trans: "\<not> gt a b \<Longrightarrow> \<not> gt b c \<Longrightarrow> \<not> gt a c"
  using gt_split by blast

lemma gt_irrefl [simp]: "\<not> gt a a"
  using gt_asym by blast

end

lemma swap_in_range:
  "i < length d \<Longrightarrow> j < length d \<Longrightarrow> swap d (int i) (int j) = exchange d i j"
  by (simp add: swap_def Let_def)

lemma up_hole_step:
  assumes i: "0 < i" "i < length d" and c: "comparator gt" and hole: "up_hole gt d i"
    and le: "\<not> gt (d ! parent i) (d ! i)"
  shows "up_hole gt (exchange d i (parent i)) (parent i)"
proof -
  define p where "p = parent i"
  have p: "p < i" "p < length d" using i parent_less[of i] by (auto simp: p_def)
  have nth: "\<And>k. k < length d \<Longrightarrow>
      exchange d i p ! k = (if k = i then d ! p else if k = p then d ! i else d ! k)"
    using i p by (simp add: nth_exchange)
  have ok: "\<And>j. j < length d \<Longrightarrow> 0 < j \<Longrightarrow> j \<noteq> i \<Longrightarrow> \<not> gt (d ! j) (d ! parent j)"
    and ch: "\<And>j. j < length d \<Longrightarrow> 0 < j \<Longrightarrow> parent j = i \<Longrightarrow> \<not> gt (d ! j) (d ! p)"
    using hole i unfolding up_hole_def p_def by blast+
  have le: "\<not> gt (d ! p) (d ! i)" using le by (simp add: p_def)
  have sib: "\<not> gt (d ! j) (d ! i)" if "j < length d" "0 < j" "j \<noteq> i" "parent j = p" for j
    using comparator.ge_trans[OF c ok[OF that(1-3)]] le that(4) by simp
  have "\<not> gt (exchange d i p ! j) (exchange d i p ! parent j)"
    if j: "j < length d" "0 < j" "j \<noteq> p" for j
  proof (cases "j = i")
    case True
    then show ?thesis using nth[OF j(1)] nth[OF p(2)] p(1) le p_def by simp
  next
    case False
    then have e: "exchange d i p ! j = d ! j" using nth[OF j(1)] j(3) by simp
    note e' = nth[OF parent_length[OF j(1)]]
    consider "parent j = i" | "parent j \<noteq> i" "parent j = p" | "parent j \<noteq> i" "parent j \<noteq> p" by blast
    then show ?thesis
    proof cases
      case 1
      with e e' ch[OF j(1,2) 1] show ?thesis by simp
    next
      case 2
      with e e' sib[OF j(1,2) False 2(2)] show ?thesis by simp
    next
      case 3
      with e e' ok[OF j(1,2) False] show ?thesis by simp
    qed
  qed
  moreover have "\<not> gt (exchange d i p ! j) (exchange d i p ! parent p)"
    if j: "j < length d" "0 < j" "parent j = p" "0 < p" for j
  proof -
    have pp: "parent p < p" "parent p < length d" using parent_less[OF j(4)] p by auto
    have top: "\<not> gt (d ! p) (d ! parent p)" using ok[of p] p j(4) by simp
    have jp: "j \<noteq> p" using parent_less[OF j(2)] j(3) by simp
    have e: "exchange d i p ! parent p = d ! parent p" using nth[OF pp(2)] pp p by simp
    show ?thesis
    proof (cases "j = i")
      case True
      with e nth[OF j(1)] top show ?thesis by simp
    next
      case False
      have "\<not> gt (d ! j) (d ! parent p)"
        using comparator.ge_trans[OF c ok[OF j(1,2) False], of "d ! parent p"] j(3) top by simp
      with e nth[OF j(1)] jp False show ?thesis by simp
    qed
  qed
  ultimately show ?thesis by (simp add: up_hole_def p_def)
qed

lemma siftUp_loop_heap:
  "comparator gt \<Longrightarrow> i < length d \<Longrightarrow> up_hole gt d i \<Longrightarrow> heap_from gt 0 (siftUp_loop gt d i)"
proof (induction gt d i rule: siftUp_loop.induct)
  case (1 gt d i)
  show ?case
  proof (cases "0 < i \<and> \<not> gt (d ! parent i) (d ! i)")
    case True
    then have p: "parent i < length d" and i: "0 < i" using "1.prems" parent_length by auto
    have "up_hole gt (exchange d i (parent i)) (parent i)"
      using up_hole_step[OF i "1.prems"(2,1,3)] True by simp
    then show ?thesis
      using "1.IH"[OF i refl, unfolded parent_eq] True "1.prems" p
      by (simp add: siftUp_loop.simps[of gt d i] swap_in_range Let_def parent_eq)
  next
    case False
    then have "\<not> gt (d ! i) (d ! parent i)" if "0 < i"
      using that comparator.gt_asym[OF "1.prems"(1)] by blast
    then have "heap_from gt 0 d"
      using "1.prems"(3) unfolding up_hole_def heap_from_def by metis
    with False show ?thesis by (auto simp: siftUp_loop.simps[of gt d i] Let_def parent_eq)
  qed
qed

lemma lastIndex_iff: "int k \<le> lastIndex d \<longleftrightarrow> k < length d"
  by (auto simp: lastIndex_def)

lemma largestOf_max:
  assumes c: "comparator gt" and j: "j < length d" "0 < j" "parent j = i"
  shows "\<not> gt (d ! j) (d ! largestOf gt d i)"
proof -
  define l r where "l = 2 * i + 1" and "r = 2 * i + 2"
  define m where "m = (if l < length d \<and> gt (d ! l) (d ! i) then l else i)"
  have largest: "largestOf gt d i = (if r < length d \<and> gt (d ! r) (d ! m) then r else m)"
    unfolding largestOf_def Let_def lastIndex_iff m_def l_def r_def by (rule refl)
  note asym = comparator.gt_asym[OF c] and irrefl = comparator.gt_irrefl[OF c]
  have left: "\<not> gt (d ! l) (d ! m)" if "l < length d"
    using that irrefl by (simp add: m_def)
  have left': "\<not> gt (d ! l) (d ! r)" if "l < length d" "gt (d ! r) (d ! m)"
    using comparator.gt_split[OF c, of "d ! l" "d ! r" "d ! m"] left[OF that(1)] asym[OF that(2)] by blast
  have "j = l \<or> j = r" using j parent_iff unfolding l_def r_def by blast
  then show ?thesis
    using j(1) left left' irrefl by (cases "gt (d ! r) (d ! m)"; cases "r < length d") (auto simp: largest)
qed

lemma largestOf_greater:
  assumes "largestOf gt d i \<noteq> i" and c: "comparator gt"
  shows "gt (d ! largestOf gt d i) (d ! i)"
proof -
  define l r where "l = 2 * i + 1" and "r = 2 * i + 2"
  define m where "m = (if l < length d \<and> gt (d ! l) (d ! i) then l else i)"
  have largest: "largestOf gt d i = (if r < length d \<and> gt (d ! r) (d ! m) then r else m)"
    unfolding largestOf_def Let_def lastIndex_iff m_def l_def r_def by (rule refl)
  have m: "m = i \<or> gt (d ! m) (d ! i)" by (simp add: m_def)
  show ?thesis
  proof (cases "r < length d \<and> gt (d ! r) (d ! m)")
    case True
    with m comparator.gt_split[OF c, of "d ! r" "d ! m" "d ! i"] comparator.gt_asym[OF c] 
    show ?thesis by (simp add: largest) blast
  next
    case False
    with m assms(1) show ?thesis by (auto simp: largest)
  qed
qed

lemma largestOf_parent: "largestOf gt d i \<noteq> i \<Longrightarrow> parent (largestOf gt d i) = i"
  using largestOf_cases[of gt d i] by auto

lemma down_hole_step:
  assumes c: "comparator gt" and i: "i < length d" "k \<le> i" and hole: "down_hole gt k d i"
    and l: "l = largestOf gt d i" "l \<noteq> i"
  shows "down_hole gt k (exchange d i l) l"
proof -
  have ll: "i < l" "l < length d" "parent l = i" "gt (d ! l) (d ! i)" 
    using largestOf_bound[of gt d i] largestOf_parent[of gt d i] largestOf_greater[OF _ c, of d i] l by auto
  have nth: "\<And>j. j < length d \<Longrightarrow>
      exchange d i l ! j = (if j = i then d ! l else if j = l then d ! i else d ! j)"
    using i ll by (simp add: nth_exchange)
  have ok: "\<And>j. j < length d \<Longrightarrow> 0 < j \<Longrightarrow> k \<le> parent j \<Longrightarrow> parent j \<noteq> i \<Longrightarrow> \<not> gt (d ! j) (d ! parent j)"
    and up: "\<And>j. j < length d \<Longrightarrow> 0 < j \<Longrightarrow> parent j = i \<Longrightarrow> 0 < i \<Longrightarrow> k \<le> parent i \<Longrightarrow>
        \<not> gt (d ! j) (d ! parent i)"
    using hole unfolding down_hole_def by blast+
  have top: "\<not> gt (d ! j) (d ! l)" if "j < length d" "0 < j" "parent j = i" for j
    using largestOf_max[OF c that] l by simp
  have "\<not> gt (exchange d i l ! j) (exchange d i l ! parent j)"
    if j: "j < length d" "0 < j" "k \<le> parent j" "parent j \<noteq> l" for j
  proof -
    note e = nth[OF j(1)] and e' = nth[OF parent_length[OF j(1)]]
    have ji: "j = i \<Longrightarrow> parent j \<noteq> i" using parent_less[OF j(2)] by simp
    consider "j = l" | "j \<noteq> l" "parent j = i" | "j = i" | "j \<noteq> l" "j \<noteq> i" "parent j \<noteq> i" by blast
    then show ?thesis
    proof cases
      case 1
      with e e' ll comparator.gt_asym[OF c ll(4)] show ?thesis by simp
    next
      case 2
      with ji have "j \<noteq> i" by blast
      with 2 e e' top[OF j(1,2)] show ?thesis by simp
    next
      case 3
      with e e' j ll ji up[of l] show ?thesis by simp
    next
      case 4
      with e e' j ok[OF j(1-3)] show ?thesis by simp
    qed
  qed
  moreover have "\<not> gt (exchange d i l ! j) (exchange d i l ! parent l)"
    if j: "j < length d" "0 < j" "parent j = l" for j
  proof -
    have "j \<noteq> l" "j \<noteq> i" using parent_less[OF j(2)] j(3) ll(1) by auto
    with nth[OF j(1)] nth[OF i(1)] ok[OF j(1,2)] j ll i show ?thesis by simp
  qed
  ultimately show ?thesis by (simp add: down_hole_def)
qed

lemma siftDown_loop_heap:
  "comparator gt \<Longrightarrow> i < length d \<Longrightarrow> k \<le> i \<Longrightarrow> down_hole gt k d i \<Longrightarrow> heap_from gt k (siftDown_loop gt d i)"
proof (induction gt d i rule: siftDown_loop.induct)
  case (1 gt d i)
  show ?case
  proof (cases "largestOf gt d i = i")
    case True
    have "\<not> gt (d ! j) (d ! parent j)" if "j < length d" "0 < j" "k \<le> parent j" for j
      using largestOf_max[OF "1.prems"(1) that(1,2)] "1.prems"(4) that True
      unfolding down_hole_def by metis
    with True show ?thesis by (simp add: siftDown_loop.simps[of gt d i] heap_from_def)
  next
    case False
    note b = largestOf_bound[OF False]
    have "down_hole gt k (exchange d i (largestOf gt d i)) (largestOf gt d i)"
      by (rule down_hole_step[OF "1.prems"(1-4) refl False])
    with "1.IH"[OF refl False] "1.prems" b False show ?thesis
      by (simp add: siftDown_loop.simps[of gt d i] swap_in_range Let_def)
  qed
qed

subsection \<open>Lengths and multisets\<close>

lemma mset_swap_int [mset_simps]: "mset (swap d i j) = mset d"
  by (auto simp: swap_def Let_def mset_exchange)

lemma mset_siftUp_loop: "mset (siftUp_loop gt d i) = mset d"
  by (induction gt d i rule: siftUp_loop.induct)
    (subst siftUp_loop.simps, auto simp: Let_def mset_simps)

lemma mset_siftDown_loop: "mset (siftDown_loop gt d i) = mset d"
  by (induction gt d i rule: siftDown_loop.induct)
    (subst siftDown_loop.simps, auto simp: Let_def mset_simps)

lemma mset_siftUp [mset_simps]: "mset (siftUp gt d i) = mset d"
  by (simp add: siftUp_def mset_siftUp_loop)

lemma mset_siftDown [mset_simps]: "mset (siftDown gt d i) = mset d"
  by (simp add: siftDown_def mset_siftDown_loop)

lemma mset_heapify_loop [mset_simps]: "mset (heapify_loop gt d i) = mset d"
  by (induction gt d i rule: heapify_loop.induct)
    (subst heapify_loop.simps, auto simp: mset_simps)

lemma length_siftDown [simp]: "length (siftDown gt d i) = length d"
  by (metis mset_eq_length mset_siftDown)

lemma length_siftUp [simp]: "length (siftUp gt d i) = length d"
  by (metis mset_eq_length mset_siftUp)

section \<open>What the exported methods guarantee\<close>

text \<open>
  \<open>heap_ok gt idf\<close> is the invariant of a heap made with the closures \<open>gt\<close> and \<open>idf\<close>;
  \<open>heap_items\<close> abstracts a heap to the multiset of the elements it holds.
\<close>

definition heap_ok :: "('t \<Rightarrow> 't \<Rightarrow> bool) \<Rightarrow> ('i \<Rightarrow> 't \<Rightarrow> bool) \<Rightarrow> ('t, 'i) MaxHeap \<Rightarrow> bool" where
  "heap_ok gt idf mh \<longleftrightarrow>
     mh_greaterThan mh = gt \<and> mh_identify mh = idf \<and> heap_from gt 0 (mh_data mh)"

definition heap_items :: "('t, 'i) MaxHeap \<Rightarrow> 't multiset" where
  "heap_items mh = mset (mh_data mh)"

lemma heap_root_max:
  assumes c: "comparator gt" and h: "heap_from gt 0 d"
  shows "i < length d \<Longrightarrow> \<not> gt (d ! i) (d ! 0)"
proof (induction i rule: less_induct)
  case (less i)
  show ?case
  proof (cases "i = 0")
    case True
    then show ?thesis using comparator.gt_irrefl[OF c] by simp
  next
    case False
    then have "\<not> gt (d ! parent i) (d ! 0)"
      using less parent_less[of i] parent_length by simp
    moreover have "\<not> gt (d ! i) (d ! parent i)" using h less.prems False by (simp add: heap_from_def)
    ultimately show ?thesis using comparator.ge_trans[OF c] by blast
  qed
qed

lemma heap_from_short [simp]: "length d \<le> 1 \<Longrightarrow> heap_from gt k d"
  by (auto simp: heap_from_def)

lemma heap_from_nth:
  "heap_from gt 0 d \<Longrightarrow> j < length d \<Longrightarrow> 0 < j \<Longrightarrow> \<not> gt (d ! j) (d ! parent j)"
  by (simp add: heap_from_def)

lemma heap_from_take:
  assumes "heap_from gt 0 d" shows "heap_from gt 0 (take n d)"
  unfolding heap_from_def
proof (intro allI impI)
  fix j assume j: "j < length (take n d)" "0 < j" "0 \<le> parent j"
  then have "parent j < n" using parent_less[of j] by simp
  with j heap_from_nth[OF assms, of j] show "\<not> gt (take n d ! j) (take n d ! parent j)" by simp
qed

text \<open>
  Overwriting one element of a heap leaves a hole in both directions; which of the two repairs
  it is decided by comparing the new element with its parent.
\<close>

lemma overwrite_up_hole:
  assumes c: "comparator gt" and h: "heap_from gt 0 d" and i: "i < length d" "0 < i"
    and g: "gt x (d ! parent i)"
  shows "up_hole gt (d[i := x]) i"
proof -
  have p: "parent i \<noteq> i" using parent_less[OF i(2)] by simp
  have up: "\<not> gt (d ! j) (d ! parent i)" if "j < length d" "0 < j" "parent j = i" for j
    using comparator.ge_trans[OF c heap_from_nth[OF h that(1,2)], of "d ! parent i"]
      heap_from_nth[OF h i] that(3) by simp
  have ch: "\<not> gt (d ! j) x" if "j < length d" "0 < j" "parent j = i" for j
    using comparator.gt_split[OF c, of "d ! j" x "d ! parent i"] comparator.gt_asym[OF c g] up[OF that]
      comparator.gt_split[OF c, of "d ! j" "d ! parent i" x] by blast
  have "\<not> gt (d[i := x] ! j) (d[i := x] ! parent j)" if j: "j < length d" "0 < j" "j \<noteq> i" for j
    using ch[OF j(1,2)] heap_from_nth[OF h j(1,2)] j i by (cases "parent j = i") auto
  moreover have "\<not> gt (d[i := x] ! j) (d[i := x] ! parent i)"
    if j: "j < length d" "0 < j" "parent j = i" for j
  proof -
    have "j \<noteq> i" using parent_less[OF j(2)] j(3) by simp
    with up[OF j] p show ?thesis by simp
  qed
  ultimately show ?thesis by (simp add: up_hole_def)
qed

lemma overwrite_down_hole:
  assumes c: "comparator gt" and h: "heap_from gt 0 d" and i: "i < length d"
    and g: "0 < i \<Longrightarrow> \<not> gt x (d ! parent i)"
  shows "down_hole gt 0 (d[i := x]) i"
proof -
  have "\<not> gt (d[i := x] ! j) (d[i := x] ! parent j)" if j: "j < length d" "0 < j" "parent j \<noteq> i" for j
    using g heap_from_nth[OF h j(1,2)] j i by (cases "j = i") auto
  moreover have "\<not> gt (d[i := x] ! j) (d[i := x] ! parent i)"
    if j: "j < length d" "0 < j" "parent j = i" "0 < i" for j
  proof -
    have "j \<noteq> i" "parent i \<noteq> i" using parent_less[OF j(2)] parent_less[OF j(4)] j(3) by auto
    moreover have "\<not> gt (d ! j) (d ! parent i)"
      using comparator.ge_trans[OF c heap_from_nth[OF h j(1,2)], of "d ! parent i"]
        heap_from_nth[OF h i j(4)] j(3) by simp
    ultimately show ?thesis by simp
  qed
  ultimately show ?thesis by (simp add: down_hole_def)
qed

lemma siftUp_heap:
  "comparator gt \<Longrightarrow> i < length d \<Longrightarrow> up_hole gt d i \<Longrightarrow> heap_from gt 0 (siftUp gt d (int i))"
  by (simp add: siftUp_def siftUp_loop_heap)

lemma siftDown_heap:
  "comparator gt \<Longrightarrow> i < length d \<Longrightarrow> k \<le> i \<Longrightarrow> down_hole gt k d i \<Longrightarrow>
   heap_from gt k (siftDown gt d (int i))"
  by (auto simp: siftDown_def lastIndex_def siftDown_loop_heap)

lemma push_heap:
  assumes c: "comparator gt" and h: "heap_from gt 0 d"
  shows "heap_from gt 0 (siftUp gt (d @ [x]) (int (length d)))"
proof (rule siftUp_heap[OF c])
  have "\<not> gt ((d @ [x]) ! j) ((d @ [x]) ! parent j)" if "j < length d" "0 < j" for j
    using heap_from_nth[OF h that] that parent_length[OF that(1)] by (simp add: nth_append)
  moreover have "parent j \<noteq> length d" if "j < Suc (length d)" "0 < j" for j
    using parent_less[OF that(2)] that by simp
  ultimately show "up_hole gt (d @ [x]) (length d)"
    by (auto simp: up_hole_def less_Suc_eq)
qed simp

text \<open>\<open>Delete\<close>: the last element replaces the deleted one, or is itself the deleted one.\<close>

lemma lastIndex_snoc: "lastIndex (b @ [x]) = int (length b)"
  by (simp add: lastIndex_def)

lemma take_swap_snoc:
  assumes "i < length b"
  shows "take (length b) (swap (b @ [x]) (int i) (int (length b))) = b[i := x]"
proof -
  have "swap (b @ [x]) (int i) (int (length b)) = exchange (b @ [x]) i (length b)"
    using assms by (intro swap_in_range) auto
  then show ?thesis using assms by (simp add: exchange_def list_update_append)
qed

lemma deleteAt_last: "deleteAt gt (b @ [x]) (length b) = b"
  by (simp add: deleteAt_def lastIndex_snoc)

lemma deleteAt_inner:
  assumes "i < length b"
  shows "deleteAt gt (b @ [x]) i =
    (if i > 0 \<and> gt x (b ! parent i) then siftUp gt (b[i := x]) (int i)
     else siftDown gt (b[i := x]) (int i))"
  using assms parent_less[of i]
  by (auto simp: deleteAt_def lastIndex_snoc take_swap_snoc Let_def parent_eq)

lemma deleteAt_mset:
  assumes "i < length d"
  shows "mset (deleteAt gt d i) = mset d - {#d ! i#}"
proof (cases d rule: rev_cases)
  case (snoc b x)
  show ?thesis
  proof (cases "i = length b")
    case True
    then show ?thesis by (simp add: snoc deleteAt_last)
  next
    case False
    with assms snoc have i: "i < length b" by simp
    then have "mset (deleteAt gt d i) = add_mset x (mset b - {#b ! i#})"
      by (simp add: snoc deleteAt_inner mset_simps mset_update)
    with i show ?thesis by (simp add: snoc nth_append)
  qed
qed (use assms in simp)

lemma deleteAt_heap:
  assumes c: "comparator gt" and h: "heap_from gt 0 d" and i: "i < length d"
  shows "heap_from gt 0 (deleteAt gt d i)"
proof (cases d rule: rev_cases)
  case (snoc b x)
  have hb: "heap_from gt 0 b" using heap_from_take[OF h, of "length b"] by (simp add: snoc)
  show ?thesis
  proof (cases "i = length b")
    case True
    with hb show ?thesis by (simp add: snoc deleteAt_last)
  next
    case False
    with i snoc have i: "i < length b" by simp
    show ?thesis
    proof (cases "0 < i \<and> gt x (b ! parent i)")
      case True
      with siftUp_heap[OF c _ overwrite_up_hole[OF c hb i]] i show ?thesis
        by (simp add: snoc deleteAt_inner[OF i])
    next
      case False
      then have "down_hole gt 0 (b[i := x]) i" using overwrite_down_hole[OF c hb i] by blast
      with False siftDown_heap[OF c, of i "b[i := x]" 0] i show ?thesis
        by (auto simp: snoc deleteAt_inner[OF i])
    qed
  qed
qed (use i in simp)

lemma updateAt_mset:
  "i < length d \<Longrightarrow> mset (updateAt gt d i x) = add_mset x (mset d - {#d ! i#})"
  using mset_update[of i d x] by (auto simp: updateAt_def Let_def mset_simps)

lemma updateAt_heap:
  assumes c: "comparator gt" and h: "heap_from gt 0 d" and i: "i < length d"
  shows "heap_from gt 0 (updateAt gt d i x)"
proof -
  let ?e = "d[i := x]"
  have e: "?e ! i = x" "0 < i \<Longrightarrow> ?e ! parent i = d ! parent i" using i parent_less[of i] by auto
  have u: "updateAt gt d i x = (if 0 < i \<and> gt x (d ! parent i) then siftUp gt ?e (int i)
      else if gt (d ! i) x then siftDown gt ?e (int i) else ?e)"
    using e by (auto simp: updateAt_def Let_def parent_eq)
  show ?thesis
  proof (cases "0 < i \<and> gt x (d ! parent i)")
    case True
    with siftUp_heap[OF c _ overwrite_up_hole[OF c h i]] i show ?thesis by (simp add: u)
  next
    case False
    then have hole: "down_hole gt 0 ?e i" using overwrite_down_hole[OF c h i] by blast
    show ?thesis
    proof (cases "gt (d ! i) x")
      case True
      with False siftDown_heap[OF c _ _ hole] i show ?thesis by (auto simp: u)
    next
      case same: False
      have "\<not> gt (?e ! j) (?e ! parent j)" if j: "j < length d" "0 < j" for j
      proof (cases "parent j = i")
        case True
        then have "j \<noteq> i" using parent_less[OF j(2)] by simp
        moreover have "\<not> gt (d ! j) x"
          using comparator.ge_trans[OF c heap_from_nth[OF h j]] same True by simp
        ultimately show ?thesis using True i by simp
      next
        case False
        then show ?thesis using hole j by (simp add: down_hole_def)
      qed
      with False same show ?thesis by (auto simp: u heap_from_def)
    qed
  qed
qed

lemma heap_from_Suc_hole:
  assumes "heap_from gt (Suc n) d" shows "down_hole gt n d n"
proof -
  have "Suc n \<le> parent j" if "n \<le> parent j" "parent j \<noteq> n" for j
    using that by simp
  moreover have "\<not> n \<le> parent n" if "0 < n" using parent_less[OF that] by simp
  ultimately show ?thesis using assms unfolding down_hole_def heap_from_def by blast
qed

lemma heapify_loop_heap:
  "comparator gt \<Longrightarrow> i < int (length d) \<or> d = [] \<Longrightarrow> heap_from gt (nat (i + 1)) d \<Longrightarrow>
   heap_from gt 0 (heapify_loop gt d i)"
proof (induction gt d i rule: heapify_loop.induct)
  case (1 gt d i)
  show ?case
  proof (cases "0 \<le> i")
    case True
    then obtain n where n: "i = int n" by (metis nonneg_int_cases)
    show ?thesis
    proof (cases "d = []")
      case True
      with "1.IH" "1.prems" \<open>0 \<le> i\<close> show ?thesis
        by (simp add: heapify_loop.simps[of gt "[]" i] siftDown_def lastIndex_def)
    next
      case False
      then have len: "n < length d" using "1.prems" n by simp
      have "heap_from gt (Suc n) d" using "1.prems"(3) n by (simp add: nat_add_distrib)
      then have "down_hole gt n d n" by (rule heap_from_Suc_hole)
      then have "heap_from gt n (siftDown gt d (int n))"
        using siftDown_heap "1.prems"(1) len by blast
      then show ?thesis using "1.IH" "1.prems" True False n len
        by (simp add: heapify_loop.simps[of gt d "int n"])
    qed
  next
    case False
    with "1.prems" show ?thesis by (simp add: heapify_loop.simps[of gt d i])
  qed
qed

subsection \<open>The methods, one contract each\<close>

lemma NewMaxHeap_ok [inv_intros]: "heap_ok gt idf (NewMaxHeap gt idf)"
  by (simp add: heap_ok_def NewMaxHeap_def)

lemma NewMaxHeap_items [mset_simps]: "heap_items (NewMaxHeap gt idf) = {#}"
  by (simp add: heap_items_def NewMaxHeap_def)

lemma Push_ok [inv_intros]: "comparator gt \<Longrightarrow> heap_ok gt idf mh \<Longrightarrow> heap_ok gt idf (Push mh x)"
  using push_heap[of gt "mh_data mh" x] by (simp add: heap_ok_def Push_def Let_def)

lemma Push_items [mset_simps]: "heap_items (Push mh x) = add_mset x (heap_items mh)"
  by (simp add: heap_items_def Push_def Let_def mset_simps)

lemma Peek_Some:
  "comparator gt \<Longrightarrow> heap_ok gt idf mh \<Longrightarrow> Peek mh = Some x \<Longrightarrow>
   x \<in># heap_items mh \<and> (\<forall>y \<in># heap_items mh. \<not> gt y x)"
  using heap_root_max[of gt "mh_data mh"]
  by (auto simp: Peek_def heap_ok_def heap_items_def in_set_conv_nth split: if_splits)

lemma Peek_None: "Peek mh = None \<longleftrightarrow> heap_items mh = {#}"
  by (auto simp: Peek_def heap_items_def)

text \<open>\<open>Pop\<close> is deletion of the root: the same swap, shrink and sift as \<open>Delete\<close> at index 0.\<close>

lemma Pop_eq:
  "Pop mh = (case Peek mh of None \<Rightarrow> (None, mh)
     | Some x \<Rightarrow> (Some x, mh\<lparr>mh_data := deleteAt (mh_greaterThan mh) (mh_data mh) 0\<rparr>))"
proof (cases "mh_data mh" rule: rev_cases)
  case Nil
  then show ?thesis by (simp add: Pop_def Peek_def)
next
  case (snoc b x)
  have last: "swap (b @ [x]) 0 (int (length b)) ! length b = (b @ [x]) ! 0"
    using swap_in_range[of 0 "b @ [x]" "length b"] by (simp add: nth_exchange)
  show ?thesis
  proof (cases b)
    case Nil
    then show ?thesis using last snoc deleteAt_last[of "mh_greaterThan mh" "[]" x]
      by (simp add: Pop_def Peek_def Let_def)
  next
    case (Cons a b')
    then have "0 < length b" by simp
    moreover have "swap (b @ [x]) 0 (int (length b)) \<noteq> []"
      by (metis append_is_Nil_conv length_0_conv length_swap list.discI)
    ultimately show ?thesis
      using take_swap_snoc[of 0 b x] deleteAt_inner[of 0 b "mh_greaterThan mh" x] last snoc
      by (simp add: Pop_def Peek_def Let_def)
  qed
qed

lemma Pop_ok [inv_intros]: "comparator gt \<Longrightarrow> heap_ok gt idf mh \<Longrightarrow> heap_ok gt idf (snd (Pop mh))"
  using deleteAt_heap[of gt "mh_data mh" 0]
  by (auto simp: Pop_eq heap_ok_def Peek_def split: option.splits if_splits)

lemma fst_Pop: "fst (Pop mh) = Peek mh"
  by (simp add: Pop_eq split: option.splits)

lemma Pop_items [mset_simps]:
  "heap_items (snd (Pop mh)) = (case Peek mh of None \<Rightarrow> heap_items mh | Some x \<Rightarrow> heap_items mh - {#x#})"
  using deleteAt_mset[of 0 "mh_data mh"]
  by (auto simp: Pop_eq heap_items_def Peek_def split: option.splits if_splits)

lemma Delete_mh_ok [inv_intros]:
  "comparator gt \<Longrightarrow> heap_ok gt idf mh \<Longrightarrow> heap_ok gt idf (snd (Delete_mh mh v))"
  using deleteAt_heap[of gt "mh_data mh"] find_index_Some[of "idf v" "mh_data mh"]
  by (auto simp: Delete_mh_def heap_ok_def split: option.splits)

lemma Delete_mh_False:
  "heap_ok gt idf mh \<Longrightarrow>
   \<not> fst (Delete_mh mh v) \<longleftrightarrow> (\<forall>x \<in># heap_items mh. \<not> idf v x)"
  by (auto simp: Delete_mh_def heap_ok_def heap_items_def find_index_None split: option.splits
      dest: find_index_Some_ex)

lemma Delete_mh_unchanged: "\<not> fst (Delete_mh mh v) \<Longrightarrow> snd (Delete_mh mh v) = mh"
  by (auto simp: Delete_mh_def split: option.splits if_splits)

lemma Delete_mh_items:
  assumes "heap_ok gt idf mh" "fst (Delete_mh mh v)"
  shows "\<exists>x \<in># heap_items mh. idf v x \<and> heap_items (snd (Delete_mh mh v)) = heap_items mh - {#x#}"
proof -
  obtain i where i: "find_index (idf v) (mh_data mh) = Some i"
    and d: "snd (Delete_mh mh v) = mh\<lparr>mh_data := deleteAt (mh_greaterThan mh) (mh_data mh) i\<rparr>"
    using assms by (auto simp: Delete_mh_def heap_ok_def split: if_splits option.splits)
  from find_index_Some[OF i] deleteAt_mset[of i "mh_data mh"] d show ?thesis
    by (auto simp: heap_items_def intro!: bexI[of _ "mh_data mh ! i"])
qed

lemma Contains_iff:
  "heap_ok gt idf mh \<Longrightarrow> Contains mh v \<longleftrightarrow> (\<exists>x \<in># heap_items mh. idf v x)"
  by (auto simp: Contains_def heap_ok_def heap_items_def find_index_None)

lemma Update_ok [inv_intros]:
  "comparator gt \<Longrightarrow> heap_ok gt idf mh \<Longrightarrow> heap_ok gt idf (snd (Update mh v x))"
  using updateAt_heap[of gt "mh_data mh"] find_index_Some[of "idf v" "mh_data mh"]
  by (auto simp: Update_def heap_ok_def split: option.splits)

lemma Update_items:
  assumes "heap_ok gt idf mh" "fst (Update mh v x)"
  shows "\<exists>y \<in># heap_items mh. idf v y \<and>
           heap_items (snd (Update mh v x)) = add_mset x (heap_items mh - {#y#})"
proof -
  obtain i where i: "find_index (idf v) (mh_data mh) = Some i"
    and d: "snd (Update mh v x) = mh\<lparr>mh_data := updateAt (mh_greaterThan mh) (mh_data mh) i x\<rparr>"
    using assms by (auto simp: Update_def heap_ok_def split: if_splits option.splits)
  from find_index_Some[OF i] updateAt_mset[of i "mh_data mh"] d show ?thesis
    by (auto simp: heap_items_def intro!: bexI[of _ "mh_data mh ! i"])
qed

lemma UpdateOrPush_ok [inv_intros]:
  "comparator gt \<Longrightarrow> heap_ok gt idf mh \<Longrightarrow> heap_ok gt idf (snd (UpdateOrPush mh v x))"
  using Update_ok[of gt idf mh v x] Push_ok[of gt idf "snd (Update mh v x)" x]
  by (auto simp: UpdateOrPush_def Let_def split: prod.splits)

lemma sdiv_2_nonneg: "0 \<le> a \<Longrightarrow> a sdiv 2 = a div (2::int)"
  by (simp add: signed_divide_int_def sgn_if)

lemma Heapify_ok [inv_intros]:
  assumes "comparator gt" shows "heap_ok gt idf (Heapify d gt idf)"
proof -
  let ?i = "(int (length d) - 2) sdiv 2"
  have i: "?i < int (length d) \<or> d = []" and k: "length d \<le> 2 * nat (?i + 1) + 1"
  proof -
    consider "length d = 0" | "length d = 1" | m where "length d = Suc (Suc m)"
      by (metis One_nat_def not0_implies_Suc)
    then have "(?i < int (length d) \<or> d = []) \<and> length d \<le> 2 * nat (?i + 1) + 1"
    proof cases
      case 3
      then show ?thesis by (auto simp: sdiv_2_nonneg)
    qed (auto simp: signed_divide_int_def)
    then show "?i < int (length d) \<or> d = []" "length d \<le> 2 * nat (?i + 1) + 1" by auto
  qed
  have "heap_from gt (nat (?i + 1)) d"
    unfolding heap_from_def
  proof (intro allI impI)
    fix j assume j: "j < length d" "0 < j" "nat (?i + 1) \<le> parent j"
    have "2 * parent j < j" using j(2) unfolding parent_def by arith
    with j k show "\<not> gt (d ! j) (d ! parent j)" by linarith
  qed
  from heapify_loop_heap[OF assms i this] show ?thesis
    by (simp add: heap_ok_def Heapify_def NewMaxHeap_def)
qed

lemma Heapify_items [mset_simps]: "heap_items (Heapify d gt idf) = mset d"
  by (simp add: heap_items_def Heapify_def mset_simps)

section \<open>The interface: a priority queue with deletion by key\<close>

text \<open>
  \<open>priority_queue\<close> is the contract the queue manager relies on: \<open>peek\<close> returns an element no
  other element beats, \<open>pop\<close> removes exactly the peeked element, \<open>remove\<close> takes out exactly one
  element that matches the key if there is one and reports whether it did. \<open>items\<close> is what the
  queue holds, duplicates included.
\<close>

locale priority_queue =
  fixes better :: "'a \<Rightarrow> 'a \<Rightarrow> bool"
    and matches :: "'i \<Rightarrow> 'a \<Rightarrow> bool"
    and inv :: "'q \<Rightarrow> bool"
    and items :: "'q \<Rightarrow> 'a multiset"
    and empty :: 'q
    and peek :: "'q \<Rightarrow> 'a option"
    and push :: "'q \<Rightarrow> 'a \<Rightarrow> 'q"
    and pop :: "'q \<Rightarrow> 'a option \<times> 'q"
    and remove :: "'q \<Rightarrow> 'i \<Rightarrow> bool \<times> 'q"
  assumes inv_empty: "inv empty"
    and items_empty: "items empty = {#}"
    and peek_none: "inv q \<Longrightarrow> peek q = None \<longleftrightarrow> items q = {#}"
    and peek_best: "inv q \<Longrightarrow> peek q = Some x \<Longrightarrow> x \<in># items q \<and> (\<forall>y \<in># items q. \<not> better y x)"
    and inv_push: "inv q \<Longrightarrow> inv (push q x)"
    and items_push: "inv q \<Longrightarrow> items (push q x) = add_mset x (items q)"
    and pop_peek: "inv q \<Longrightarrow> fst (pop q) = peek q"
    and inv_pop: "inv q \<Longrightarrow> inv (snd (pop q))"
    and items_pop: "inv q \<Longrightarrow> peek q = Some x \<Longrightarrow> items (snd (pop q)) = items q - {#x#}"
    and inv_remove: "inv q \<Longrightarrow> inv (snd (remove q i))"
    and remove_none: "inv q \<Longrightarrow> \<not> fst (remove q i) \<longleftrightarrow> (\<forall>x \<in># items q. \<not> matches i x)"
    and remove_same: "inv q \<Longrightarrow> \<not> fst (remove q i) \<Longrightarrow> snd (remove q i) = q"
    and remove_one: "inv q \<Longrightarrow> fst (remove q i) \<Longrightarrow>
      \<exists>x \<in># items q. matches i x \<and> items (snd (remove q i)) = items q - {#x#}"

text \<open>Popping \<open>n\<close> times, until the queue is empty.\<close>

fun drain :: "('q \<Rightarrow> 'a option \<times> 'q) \<Rightarrow> nat \<Rightarrow> 'q \<Rightarrow> 'a list" where
  "drain pop 0 q = []"
| "drain pop (Suc n) q = (case pop q of (None, _) \<Rightarrow> [] | (Some x, q') \<Rightarrow> x # drain pop n q')"

context priority_queue begin

lemma peek_exists: "inv q \<Longrightarrow> items q \<noteq> {#} \<Longrightarrow> \<exists>x. peek q = Some x"
  using peek_none by blast

lemma items_pop_add: "inv q \<Longrightarrow> peek q = Some x \<Longrightarrow> items q = add_mset x (items (snd (pop q)))"
  using peek_best items_pop by simp

lemma drain_items: "inv q \<Longrightarrow> size (items q) \<le> n \<Longrightarrow> mset (drain pop n q) = items q"
proof (induction n arbitrary: q)
  case 0
  then show ?case by simp
next
  case (Suc n)
  show ?case
  proof (cases "peek q")
    case None
    with Suc.prems(1) show ?thesis using pop_peek[of q] peek_none[of q] by (cases "pop q") simp
  next
    case (Some x)
    note e = items_pop_add[OF Suc.prems(1) Some]
    with Suc.prems have "size (items (snd (pop q))) \<le> n" by simp
    from Suc.IH[OF inv_pop[OF Suc.prems(1)] this] e Some show ?thesis
      using pop_peek[OF Suc.prems(1)] by (cases "pop q") simp
  qed
qed

lemma drain_sorted:
  "inv q \<Longrightarrow> size (items q) \<le> n \<Longrightarrow> sorted_wrt (\<lambda>a b. \<not> better b a) (drain pop n q)"
proof (induction n arbitrary: q)
  case 0
  then show ?case by simp
next
  case (Suc n)
  show ?case
  proof (cases "peek q")
    case None
    then show ?thesis using pop_peek[OF Suc.prems(1)] by (cases "pop q") simp
  next
    case (Some x)
    note e = items_pop_add[OF Suc.prems(1) Some]
    have n: "size (items (snd (pop q))) \<le> n" using e Suc.prems by simp
    have "set (drain pop n (snd (pop q))) = set_mset (items (snd (pop q)))"
      using drain_items[OF inv_pop[OF Suc.prems(1)] n] by (metis set_mset_mset)
    then have "\<forall>y \<in> set (drain pop n (snd (pop q))). \<not> better y x"
      using peek_best[OF Suc.prems(1) Some] e by auto
    with Suc.IH[OF inv_pop[OF Suc.prems(1)] n] Some show ?thesis
      using pop_peek[OF Suc.prems(1)] by (cases "pop q") simp
  qed
qed

end

text \<open>The heap meets the contract, for every strict weak order.\<close>

lemma maxheap_priority_queue:
  assumes "comparator gt"
  shows "priority_queue gt idf (heap_ok gt idf) heap_items (NewMaxHeap gt idf) Peek Push Pop Delete_mh"
  using assms
  by unfold_locales
    (auto simp: mset_simps Peek_None fst_Pop Delete_mh_False Delete_mh_unchanged intro: inv_intros
      dest: Peek_Some Delete_mh_items)

section \<open>Properties of the heap\<close>

lemma int_comparator: "comparator (\<lambda>a b::int. a > b)"
  by unfold_locales auto

text \<open>C6: Every exported method that changes the heap keeps the max-heap property (no element
  exceeds its parent), and \<open>Heapify\<close> establishes it on any slice, for every comparator that is a
  strict weak order.\<close>

theorem maxheap_invariant:
  assumes "comparator gt" and "heap_ok gt idf mh"
  shows "heap_ok gt idf (Push mh x) \<and> heap_ok gt idf (snd (Pop mh)) \<and>
    heap_ok gt idf (snd (Delete_mh mh v)) \<and> heap_ok gt idf (snd (Update mh v x)) \<and>
    heap_ok gt idf (snd (UpdateOrPush mh v x)) \<and> heap_ok gt idf (Clear mh) \<and>
    heap_ok gt idf (Compact mh) \<and> heap_ok gt idf (Heapify d gt idf)"
  using assms by (auto simp: Clear_def Compact_def heap_ok_def[of _ _ "mh\<lparr>mh_data := []\<rparr>"]
      heap_ok_def[of _ _ mh] intro: inv_intros)

theorem maxheap_invariant_witness:
  "heap_ok (\<lambda>a b::int. a > b) (=) (snd (Pop (Heapify [2, 7, 5] (\<lambda>a b. a > b) (=))))"
  using maxheap_invariant[OF int_comparator Heapify_ok[OF int_comparator], of "(=)" "[2, 7, 5]"]
  by blast

text \<open>C7: Popping a heap built by \<open>Heapify\<close> until it is empty returns the elements of the slice, each
  exactly as often as it occurs there, from the greatest to the least (heapsort).\<close>

theorem heapify_drain_sorts:
  assumes "comparator gt"
  shows "mset (drain Pop (length d) (Heapify d gt idf)) = mset d \<and>
    sorted_wrt (\<lambda>a b. \<not> gt b a) (drain Pop (length d) (Heapify d gt idf))"
  using priority_queue.drain_items[OF maxheap_priority_queue[OF assms]]
    priority_queue.drain_sorted[OF maxheap_priority_queue[OF assms]]
    Heapify_ok[OF assms] Heapify_items[of d gt idf] by (metis order_refl size_mset)

theorem heapify_drain_sorts_witness:
  "mset (drain Pop (length [3, 9, 9, 1::int]) (Heapify [3, 9, 9, 1] (\<lambda>a b::int. a > b) (=))) = mset [3, 9, 9, 1]"
  by (rule conjunct1[OF heapify_drain_sorts[OF int_comparator]])

text \<open>\<open>Delete\<close> reports success exactly when some element matches the key; it then removes exactly
  one matching element and nothing else, and otherwise leaves the heap as it was.\<close>

theorem maxheap_delete_exact:
  assumes "comparator gt" and "heap_ok gt idf mh"
  shows "if fst (Delete_mh mh v)
    then \<exists>x \<in># heap_items mh. idf v x \<and> heap_items (snd (Delete_mh mh v)) = heap_items mh - {#x#}
    else (\<forall>x \<in># heap_items mh. \<not> idf v x) \<and> snd (Delete_mh mh v) = mh"
  using Delete_mh_items[OF assms(2)] Delete_mh_False[OF assms(2)] Delete_mh_unchanged[of mh v] by auto

theorem maxheap_delete_exact_witness:
  "fst (Delete_mh (Heapify [4, 8, 6] (\<lambda>a b::int. a > b) (=)) 8) \<and>
   (\<exists>x \<in># {#4, 8, 6#}. 8 = x \<and>
      heap_items (snd (Delete_mh (Heapify [4, 8, 6] (\<lambda>a b::int. a > b) (=)) 8)) = {#4, 8, 6#} - {#x#})"
proof -
  let ?h = "Heapify [4, 8, 6] (\<lambda>a b::int. a > b) (=)"
  have ok: "heap_ok (\<lambda>a b. a > b) (=) ?h" by (rule Heapify_ok[OF int_comparator])
  have "fst (Delete_mh ?h 8)" using Delete_mh_False[OF ok, of 8] by (simp add: mset_simps)
  with maxheap_delete_exact[OF int_comparator ok, of 8] show ?thesis by (simp add: mset_simps)
qed

end
