(* ===== verification/Queue_Manager.thy ===== *)
theory Queue_Manager
  imports Max_Heap
begin

text \<open>
  \<open>internal/jobcenter/queuemanager.go\<close>: the named priority queues shared by all clients, with the
  index from job ids to queue names, and the \<open>Job\<close> struct of \<open>request.go\<close>.

  Each method holds the mutex for its whole body and is one atomic function of the state. The job
  content (\<open>interface{}\<close>) is an arbitrary JSON value the server stores and returns, so it is a type
  parameter. \<open>GetPriorityJob\<close> and \<open>DeleteJob\<close> call a method on a map entry, which panics when
  the entry is missing (a nil \<open>*MaxHeap\<close>): their result is an \<open>outcome\<close>, and the invariant
  \<open>qm_ok\<close> shows that they never panic.
\<close>

section \<open>State and operations\<close>

record 'c Job =
  job_Priority :: int
  job_Id :: int
  job_Content :: 'c
  job_Queue :: string

record 'c QueueManager =
  qm_Queues :: "string \<rightharpoonup> ('c Job, int) MaxHeap"
  qm_JobLocations :: "int \<rightharpoonup> string"
  qm_CurrentId :: int

text \<open>The two closures \<open>PutJob\<close> passes to \<open>NewMaxHeap\<close>.\<close>

definition jobGreater :: "'c Job \<Rightarrow> 'c Job \<Rightarrow> bool" where
  "jobGreater a b \<longleftrightarrow> job_Priority a > job_Priority b"

definition jobIdent :: "int \<Rightarrow> 'c Job \<Rightarrow> bool" where
  "jobIdent ident job \<longleftrightarrow> ident = job_Id job"

definition NewQueueManager :: "'c QueueManager" where
  "NewQueueManager = \<lparr>qm_Queues = Map.empty, qm_JobLocations = Map.empty, qm_CurrentId = 0\<rparr>"

definition GetNextId :: "'c QueueManager \<Rightarrow> int \<times> 'c QueueManager" where
  "GetNextId qm =
     (let qm' = qm\<lparr>qm_CurrentId := qm_CurrentId qm + 1\<rparr> in (qm_CurrentId qm', qm'))"

definition JobExists :: "'c QueueManager \<Rightarrow> int \<Rightarrow> bool" where
  "JobExists qm jobId \<longleftrightarrow> qm_JobLocations qm jobId \<noteq> None"

definition PutJob :: "'c QueueManager \<Rightarrow> string \<Rightarrow> 'c Job \<Rightarrow> 'c QueueManager" where
  "PutJob qm queueName job =
     (let heap = (case qm_Queues qm queueName of
                    None \<Rightarrow> NewMaxHeap jobGreater jobIdent
                  | Some heap \<Rightarrow> heap)
      in qm\<lparr>qm_Queues := (qm_Queues qm)(queueName \<mapsto> Push heap job),
            qm_JobLocations := (qm_JobLocations qm)(job_Id job \<mapsto> queueName)\<rparr>)"

text \<open>The loop of \<open>GetPriorityJob\<close> over the requested queue names.\<close>

fun bestCandidate :: "'c QueueManager \<Rightarrow> 'c Job option \<Rightarrow> string list \<Rightarrow> 'c Job option" where
  "bestCandidate qm candidate [] = candidate"
| "bestCandidate qm candidate (queue # queues) =
     (case qm_Queues qm queue of
        None \<Rightarrow> bestCandidate qm candidate queues
      | Some heap \<Rightarrow>
          (case Peek heap of
             None \<Rightarrow> bestCandidate qm candidate queues
           | Some job \<Rightarrow>
               (case candidate of
                  None \<Rightarrow> bestCandidate qm (Some job) queues
                | Some best \<Rightarrow>
                    if job_Priority job > job_Priority best
                    then bestCandidate qm (Some job) queues
                    else bestCandidate qm candidate queues)))"

definition GetPriorityJob ::
  "'c QueueManager \<Rightarrow> string list \<Rightarrow> ('c Job option \<times> 'c QueueManager) outcome" where
  "GetPriorityJob qm queues =
     (if length queues = 0 then Ok (None, qm)
      else case bestCandidate qm None queues of
          None \<Rightarrow> Ok (None, qm)
        | Some candidate \<Rightarrow>
            (case qm_Queues qm (job_Queue candidate) of
               None \<Rightarrow> Panic
             | Some heap \<Rightarrow>
                 Ok (Some candidate,
                     qm\<lparr>qm_JobLocations := (qm_JobLocations qm)(job_Id candidate := None),
                        qm_Queues := (qm_Queues qm)(job_Queue candidate \<mapsto> snd (Pop heap))\<rparr>)))"

definition DeleteJob :: "'c QueueManager \<Rightarrow> int \<Rightarrow> (bool \<times> 'c QueueManager) outcome" where
  "DeleteJob qm jobId =
     (case qm_JobLocations qm jobId of
        None \<Rightarrow> Ok (False, qm)
      | Some queueName \<Rightarrow>
          (case qm_Queues qm queueName of
             None \<Rightarrow> Panic
           | Some heap \<Rightarrow>
               (let (removed, heap') = Delete_mh heap jobId
                in if \<not> removed then Ok (False, qm\<lparr>qm_Queues := (qm_Queues qm)(queueName \<mapsto> heap')\<rparr>)
                   else Ok (True, qm\<lparr>qm_JobLocations := (qm_JobLocations qm)(jobId := None),
                        qm_Queues := (if Size heap' = 0 then (qm_Queues qm)(queueName := None)
                                      else (qm_Queues qm)(queueName \<mapsto> heap'))\<rparr>))))"

section \<open>The job order, and the heap as a priority queue of jobs\<close>

interpretation job_order: comparator "jobGreater :: 'c Job \<Rightarrow> 'c Job \<Rightarrow> bool"
  by unfold_locales (auto simp: jobGreater_def)

interpretation jobs: priority_queue "jobGreater :: 'c Job \<Rightarrow> 'c Job \<Rightarrow> bool" jobIdent
  "heap_ok jobGreater jobIdent" heap_items "NewMaxHeap jobGreater jobIdent" Peek Push Pop Delete_mh
  by (rule maxheap_priority_queue[OF job_order.comparator_axioms])

section \<open>Abstraction and invariant\<close>

text \<open>
  \<open>unique_ids M\<close>: no two jobs of \<open>M\<close> carry the same id. The manager abstracts to the set of jobs
  that wait in some queue.
\<close>

definition unique_ids :: "'c Job multiset \<Rightarrow> bool" where
  "unique_ids M \<longleftrightarrow> (\<forall>i. count (image_mset job_Id M) i \<le> 1)"

definition queued :: "'c QueueManager \<Rightarrow> 'c Job set" where
  "queued qm = {j. \<exists>q h. qm_Queues qm q = Some h \<and> j \<in># heap_items h}"

definition queue_ok :: "string \<Rightarrow> ('c Job, int) MaxHeap \<Rightarrow> bool" where
  "queue_ok q h \<longleftrightarrow>
     heap_ok jobGreater jobIdent h \<and> unique_ids (heap_items h) \<and> (\<forall>j \<in># heap_items h. job_Queue j = q)"

definition qm_ok :: "'c QueueManager \<Rightarrow> bool" where
  "qm_ok qm \<longleftrightarrow>
     (\<forall>q h. qm_Queues qm q = Some h \<longrightarrow> queue_ok q h) \<and>
     (\<forall>i q. qm_JobLocations qm i = Some q \<longleftrightarrow> (\<exists>j \<in> queued qm. job_Id j = i \<and> job_Queue j = q))"

lemma unique_ids_empty [simp]: "unique_ids {#}"
  by (simp add: unique_ids_def)

lemma unique_ids_add:
  "unique_ids (add_mset j M) \<longleftrightarrow> unique_ids M \<and> (\<forall>k \<in># M. job_Id k \<noteq> job_Id j)" (is "?l \<longleftrightarrow> ?r")
proof -
  have c: "count (image_mset job_Id (add_mset j M)) i =
      count (image_mset job_Id M) i + (if i = job_Id j then 1 else 0)" for i
    by simp
  have z: "count (image_mset job_Id M) i = 0 \<longleftrightarrow> (\<forall>k \<in># M. job_Id k \<noteq> i)" for i
    unfolding count_eq_zero_iff by auto
  show ?thesis
  proof
    assume l: ?l
    have s: "count (image_mset job_Id M) i + (if i = job_Id j then 1 else 0) \<le> 1" for i
      using l unfolding unique_ids_def c by blast
    have "count (image_mset job_Id M) i \<le> 1" for i
      using s[of i] by simp
    moreover have "count (image_mset job_Id M) (job_Id j) = 0" using s[of "job_Id j"] by simp
    ultimately show ?r using z by (simp add: unique_ids_def)
  next
    assume ?r
    then show ?l using z[of "job_Id j"] unfolding unique_ids_def c by simp
  qed
qed

lemma unique_ids_remove:
  assumes "unique_ids M" "j \<in># M"
  shows "unique_ids (M - {#j#})" "set_mset (M - {#j#}) = {k \<in> set_mset M. job_Id k \<noteq> job_Id j}"
proof -
  obtain N where N: "M = add_mset j N" using assms(2) by (metis insert_DiffM)
  with assms(1) show "unique_ids (M - {#j#})" by (simp add: unique_ids_add)
  from N assms(1) show "set_mset (M - {#j#}) = {k \<in> set_mset M. job_Id k \<noteq> job_Id j}"
    by (auto simp: unique_ids_add)
qed

lemma unique_ids_inj: "j \<in># M \<Longrightarrow> unique_ids M \<Longrightarrow> k \<in># M \<Longrightarrow> job_Id j = job_Id k \<Longrightarrow> j = k"
  by (drule multi_member_split) (auto simp: unique_ids_add)

section \<open>The set of queued jobs under each update\<close>

lemma qm_ok_queue: "qm_ok qm \<Longrightarrow> qm_Queues qm q = Some h \<Longrightarrow> queue_ok q h"
  by (simp add: qm_ok_def)

lemma queue_ok_heap: "queue_ok q h \<Longrightarrow> heap_ok jobGreater jobIdent h"
  by (simp add: queue_ok_def)

lemma queued_iff:
  "qm_ok qm \<Longrightarrow> j \<in> queued qm \<longleftrightarrow> (\<exists>h. qm_Queues qm (job_Queue j) = Some h \<and> j \<in># heap_items h)"
  using qm_ok_queue[of qm] by (fastforce simp: queued_def queue_ok_def)

lemma queued_heap: "queued qm = (\<Union>h \<in> ran (qm_Queues qm). set_mset (heap_items h))"
  by (auto simp: queued_def ran_def)

lemma qm_ok_location:
  "qm_ok qm \<Longrightarrow> qm_JobLocations qm i = Some q \<longleftrightarrow> (\<exists>j \<in> queued qm. job_Id j = i \<and> job_Queue j = q)"
  by (simp add: qm_ok_def)

lemma qm_ok_no_location: "qm_ok qm \<Longrightarrow> qm_JobLocations qm i = None \<longleftrightarrow> (\<forall>j \<in> queued qm. job_Id j \<noteq> i)"
  using qm_ok_location[of qm i] by (cases "qm_JobLocations qm i") auto

lemma queued_unique:
  assumes ok: "qm_ok qm" and jk: "j \<in> queued qm" "k \<in> queued qm" "job_Id j = job_Id k"
  shows "j = k"
proof -
  have "qm_JobLocations qm (job_Id j) = Some (job_Queue j)"
    and "qm_JobLocations qm (job_Id j) = Some (job_Queue k)"
    using jk qm_ok_location[OF ok] by auto
  then have q: "job_Queue k = job_Queue j" by simp
  with jk queued_iff[OF ok] obtain h
    where "qm_Queues qm (job_Queue j) = Some h" "j \<in># heap_items h" "k \<in># heap_items h" by auto
  with unique_ids_inj[of j "heap_items h" k] qm_ok_queue[OF ok] jk(3) show ?thesis
    by (auto simp: queue_ok_def)
qed

lemma queued_update:
  assumes "qm_ok qm" and "queue_ok q h" and "qm_Queues qm' = (qm_Queues qm)(q \<mapsto> h)"
  shows "queued qm' = {j \<in> queued qm. job_Queue j \<noteq> q} \<union> set_mset (heap_items h)"
proof (rule set_eqI)
  fix j
  have "j \<in> queued qm' \<longleftrightarrow> j \<in># heap_items h \<or> (\<exists>p h'. p \<noteq> q \<and> qm_Queues qm p = Some h' \<and> j \<in># heap_items h')"
    by (auto simp: queued_def assms(3) split: if_splits)
  moreover have "job_Queue j = p" if "qm_Queues qm p = Some h'" "j \<in># heap_items h'" for p h'
    using qm_ok_queue[OF assms(1) that(1)] that(2) by (simp add: queue_ok_def)
  ultimately show "j \<in> queued qm' \<longleftrightarrow> j \<in> {j \<in> queued qm. job_Queue j \<noteq> q} \<union> set_mset (heap_items h)"
    unfolding queued_def by blast
qed

lemma queued_delete:
  assumes "qm_ok qm" and "qm_Queues qm' = (qm_Queues qm)(q := None)"
  shows "queued qm' = {j \<in> queued qm. job_Queue j \<noteq> q}"
  using assms qm_ok_queue[OF assms(1)] by (fastforce simp: queued_def queue_ok_def split: if_splits)

text \<open>A changed manager is well-formed when its queues are and its index follows the jobs.\<close>

lemma qm_okI:
  assumes "\<And>q h. qm_Queues qm q = Some h \<Longrightarrow> queue_ok q h"
    and "\<And>i q. qm_JobLocations qm i = Some q \<longleftrightarrow> (\<exists>j \<in> queued qm. job_Id j = i \<and> job_Queue j = q)"
  shows "qm_ok qm"
  using assms by (simp add: qm_ok_def)

section \<open>Each operation on the set of queued jobs\<close>

lemma NewQueueManager_ok [inv_intros]: "qm_ok NewQueueManager"
  by (simp add: qm_ok_def NewQueueManager_def queued_def)

lemma queued_New [simp]: "queued NewQueueManager = {}"
  by (simp add: NewQueueManager_def queued_def)

lemma GetNextId_queued [simp]: "queued (snd (GetNextId qm)) = queued qm"
  by (simp add: GetNextId_def queued_def)

lemma GetNextId_ok [inv_intros]: "qm_ok qm \<Longrightarrow> qm_ok (snd (GetNextId qm))"
  by (simp add: GetNextId_def qm_ok_def queued_def)

lemma JobExists_iff: "qm_ok qm \<Longrightarrow> JobExists qm i \<longleftrightarrow> (\<exists>j \<in> queued qm. job_Id j = i)"
  using qm_ok_no_location[of qm i] by (auto simp: JobExists_def)

lemma PutJob_spec:
  assumes ok: "qm_ok qm" and new: "\<forall>k \<in> queued qm. job_Id k \<noteq> job_Id job"
  shows "qm_ok (PutJob qm (job_Queue job) job)"
    and "queued (PutJob qm (job_Queue job) job) = insert job (queued qm)"
proof -
  let ?q = "job_Queue job" and ?qm = "PutJob qm (job_Queue job) job"
  define h where "h = (case qm_Queues qm ?q of None \<Rightarrow> NewMaxHeap jobGreater jobIdent | Some heap \<Rightarrow> heap)"
  have items: "set_mset (heap_items h) = {j \<in> queued qm. job_Queue j = ?q}"
    using queued_iff[OF ok] qm_ok_queue[OF ok]
    by (fastforce simp: h_def mset_simps queue_ok_def split: option.splits)
  have "queue_ok ?q h"
    using qm_ok_queue[OF ok] by (auto simp: h_def queue_ok_def jobs.inv_empty mset_simps split: option.splits)
  then have qok: "queue_ok ?q (Push h job)"
    using items new by (auto simp: queue_ok_def jobs.inv_push jobs.items_push unique_ids_add)
  have upd: "qm_Queues ?qm = (qm_Queues qm)(?q \<mapsto> Push h job)"
    by (simp add: PutJob_def Let_def h_def)
  show q: "queued ?qm = insert job (queued qm)"
    using queued_update[OF ok qok upd] items by (auto simp: mset_simps)
  show "qm_ok ?qm"
  proof (rule qm_okI)
    fix q h' assume "qm_Queues ?qm q = Some h'"
    then show "queue_ok q h'" using upd qok qm_ok_queue[OF ok] by (auto split: if_splits)
  next
    fix i q
    show "qm_JobLocations ?qm i = Some q \<longleftrightarrow> (\<exists>j \<in> queued ?qm. job_Id j = i \<and> job_Queue j = q)"
      using qm_ok_location[OF ok, of i q] new unfolding q
      by (auto simp: PutJob_def Let_def)
  qed
qed

lemma bestCandidate_max:
  assumes ok: "qm_ok qm"
  shows "case bestCandidate qm candidate queues of
     None \<Rightarrow> candidate = None \<and> (\<forall>j \<in> queued qm. job_Queue j \<notin> set queues)
   | Some c \<Rightarrow>
       (candidate = Some c \<or> job_Queue c \<in> set queues \<and>
          (\<exists>h. qm_Queues qm (job_Queue c) = Some h \<and> Peek h = Some c)) \<and>
       (\<forall>b. candidate = Some b \<longrightarrow> job_Priority b \<le> job_Priority c) \<and>
       (\<forall>j \<in> queued qm. job_Queue j \<in> set queues \<longrightarrow> job_Priority j \<le> job_Priority c)"
proof (induction queues arbitrary: candidate)
  case Nil
  then show ?case by (auto split: option.splits)
next
  case (Cons queue queues)
  show ?case
  proof (cases "qm_Queues qm queue")
    case None
    then have "\<forall>j \<in> queued qm. job_Queue j \<noteq> queue" using queued_iff[OF ok] by auto
    with Cons.IH[of candidate] None show ?thesis by (auto split: option.splits)
  next
    case (Some h)
    note qok = qm_ok_queue[OF ok Some]
    have mem: "\<forall>j \<in> queued qm. job_Queue j = queue \<longrightarrow> j \<in># heap_items h"
      using queued_iff[OF ok] Some by auto
    show ?thesis
    proof (cases "Peek h")
      case None
      with mem have "\<forall>j \<in> queued qm. job_Queue j \<noteq> queue" by (auto simp: Peek_None)
      with Cons.IH[of candidate] None Some show ?thesis by (auto split: option.splits)
    next
      case peek: (Some job)
      with jobs.peek_best[OF queue_ok_heap[OF qok] peek] qok mem
      have jq: "job_Queue job = queue"
        and best: "\<forall>j \<in> queued qm. job_Queue j = queue \<longrightarrow> job_Priority j \<le> job_Priority job"
        by (auto simp: queue_ok_def jobGreater_def not_less)
      from Cons.IH[of candidate] Cons.IH[of "Some job"] peek Some jq best show ?thesis
        by (fastforce split: option.splits)
    qed
  qed
qed

text \<open>Taking one job out of a queue, and then out of the manager.\<close>

lemma queue_ok_removed:
  assumes "queue_ok q h" "x \<in># heap_items h" "heap_ok jobGreater jobIdent h'"
    and "heap_items h' = heap_items h - {#x#}"
  shows "queue_ok q h'" "set_mset (heap_items h') = {j \<in> set_mset (heap_items h). job_Id j \<noteq> job_Id x}"
  using assms unique_ids_remove[of "heap_items h" x] by (auto simp: queue_ok_def)

lemma qm_ok_removed:
  assumes ok: "qm_ok qm" and x: "x \<in> queued qm"
    and q: "queued qm' = queued qm - {x}"
    and qs: "\<And>q h. qm_Queues qm' q = Some h \<Longrightarrow> queue_ok q h"
    and loc: "qm_JobLocations qm' = (qm_JobLocations qm)(job_Id x := None)"
  shows "qm_ok qm'"
proof (rule qm_okI[OF qs])
  fix i p
  have "j = x" if "j \<in> queued qm" "job_Id j = job_Id x" for j
    using queued_unique[OF ok that(1) x] that(2) by simp
  then show "qm_JobLocations qm' i = Some p \<longleftrightarrow> (\<exists>j \<in> queued qm'. job_Id j = i \<and> job_Queue j = p)"
    using qm_ok_location[OF ok, of i p] unfolding q loc by auto
qed

text \<open>
  \<open>GetPriorityJob\<close>: never panics; returns nothing exactly when none of the named queues holds a
  job, and otherwise takes out one job of maximal priority among all of them.
\<close>

lemma GetPriorityJob_spec:
  assumes ok: "qm_ok qm"
  obtains (none) "GetPriorityJob qm queues = Ok (None, qm)" "\<forall>j \<in> queued qm. job_Queue j \<notin> set queues"
    | (some) c qm' where "GetPriorityJob qm queues = Ok (Some c, qm')" "qm_ok qm'"
        "qm_CurrentId qm' = qm_CurrentId qm" "c \<in> queued qm" "job_Queue c \<in> set queues"
        "\<forall>j \<in> queued qm. job_Queue j \<in> set queues \<longrightarrow> job_Priority j \<le> job_Priority c"
        "queued qm' = queued qm - {c}"
proof (cases "bestCandidate qm None queues")
  case None
  with bestCandidate_max[OF ok, of None queues] none show ?thesis by (simp add: GetPriorityJob_def)
next
  case (Some c)
  with bestCandidate_max[OF ok, of None queues] obtain h
    where c: "job_Queue c \<in> set queues" "qm_Queues qm (job_Queue c) = Some h" "Peek h = Some c"
      "\<forall>j \<in> queued qm. job_Queue j \<in> set queues \<longrightarrow> job_Priority j \<le> job_Priority c" by auto
  note qok = qm_ok_queue[OF ok c(2)] and hok = queue_ok_heap[OF qm_ok_queue[OF ok c(2)]]
  have ch: "c \<in># heap_items h" using jobs.peek_best[OF hok c(3)] by blast
  then have cq: "c \<in> queued qm" using queued_iff[OF ok] c(2) by blast
  note rem = queue_ok_removed[OF qok ch jobs.inv_pop[OF hok] jobs.items_pop[OF hok c(3)]]
  define qm' where "qm' = qm\<lparr>qm_JobLocations := (qm_JobLocations qm)(job_Id c := None),
      qm_Queues := (qm_Queues qm)(job_Queue c \<mapsto> snd (Pop h))\<rparr>"
  have e: "qm_Queues qm' = (qm_Queues qm)(job_Queue c \<mapsto> snd (Pop h))" by (simp add: qm'_def)
  have "{j \<in> set_mset (heap_items h). job_Id j \<noteq> job_Id c} = {j \<in> queued qm. job_Queue j = job_Queue c} - {c}"
    using queued_unique[OF ok _ cq] queued_iff[OF ok] c(2) qok by (auto simp: queue_ok_def)
  then have q: "queued qm' = queued qm - {c}"
    using queued_update[OF ok rem(1) e] rem(2) by auto
  have "qm_ok qm'"
    by (rule qm_ok_removed[OF ok cq q])
      (use e rem(1) qm_ok_queue[OF ok] in \<open>auto simp: qm'_def split: if_splits\<close>)
  moreover have "GetPriorityJob qm queues = Ok (Some c, qm')"
    using c Some by (auto simp: GetPriorityJob_def qm'_def)
  ultimately show ?thesis using some[of c qm'] c cq q by (simp add: qm'_def)
qed

text \<open>\<open>DeleteJob\<close>: never panics, and removes the queued job with that id if there is one.\<close>

lemma DeleteJob_spec:
  assumes ok: "qm_ok qm"
  obtains (none) "DeleteJob qm i = Ok (False, qm)" "\<forall>j \<in> queued qm. job_Id j \<noteq> i"
    | (some) c qm' where "DeleteJob qm i = Ok (True, qm')" "qm_ok qm'"
        "qm_CurrentId qm' = qm_CurrentId qm" "c \<in> queued qm" "job_Id c = i"
        "queued qm' = queued qm - {c}"
proof (cases "qm_JobLocations qm i")
  case None
  with qm_ok_no_location[OF ok] none show ?thesis by (simp add: DeleteJob_def)
next
  case (Some q)
  with qm_ok_location[OF ok] obtain c where c: "c \<in> queued qm" "job_Id c = i" "job_Queue c = q" by auto
  with queued_iff[OF ok] obtain h where h: "qm_Queues qm q = Some h" "c \<in># heap_items h" by auto
  note qok = qm_ok_queue[OF ok h(1)] and hok = queue_ok_heap[OF qm_ok_queue[OF ok h(1)]]
  have removed: "fst (Delete_mh h i)" using jobs.remove_none[OF hok, of i] h(2) c(2) by (auto simp: jobIdent_def)
  then obtain x where x: "x \<in># heap_items h" "job_Id x = i"
      "heap_items (snd (Delete_mh h i)) = heap_items h - {#x#}"
    using jobs.remove_one[OF hok removed] by (auto simp: jobIdent_def)
  with c h unique_ids_inj[of x "heap_items h" c] qok have "x = c" by (auto simp: queue_ok_def)
  with x have x: "heap_items (snd (Delete_mh h i)) = heap_items h - {#c#}" by simp
  note rem = queue_ok_removed[OF qok h(2) jobs.inv_remove[OF hok] x]
  have items: "{j \<in> set_mset (heap_items h). job_Id j \<noteq> i} = {j \<in> queued qm. job_Queue j = q} - {c}"
    using queued_unique[OF ok _ c(1)] queued_iff[OF ok] c h qok by (auto simp: queue_ok_def)
  define h' where "h' = snd (Delete_mh h i)"
  define qm' where "qm' = qm\<lparr>qm_JobLocations := (qm_JobLocations qm)(i := None),
      qm_Queues := (if Size h' = 0 then (qm_Queues qm)(q := None) else (qm_Queues qm)(q \<mapsto> h'))\<rparr>"
  have q: "queued qm' = queued qm - {c}"
  proof (cases "Size h' = 0")
    case True
    then have "set_mset (heap_items h') = {}" by (simp add: Size_def heap_items_def)
    with rem items c have "{j \<in> queued qm. job_Queue j = q} - {c} = {}" by (simp add: h'_def)
    with queued_delete[OF ok, of qm' q] True c show ?thesis by (auto simp: qm'_def)
  next
    case False
    with queued_update[OF ok rem(1), of qm'] rem items c show ?thesis by (auto simp: qm'_def h'_def)
  qed
  have "qm_ok qm'"
    by (rule qm_ok_removed[OF ok c(1) q])
      (use rem(1) qm_ok_queue[OF ok] c in \<open>auto simp: qm'_def h'_def split: if_splits\<close>)
  moreover have "DeleteJob qm i = Ok (True, qm')"
    using Some h removed by (auto simp: DeleteJob_def qm'_def h'_def split: prod.splits)
  ultimately show ?thesis using some[of qm' c] c q by (simp add: qm'_def)
qed

section \<open>Properties of the queue manager\<close>

text \<open>A manager with two jobs in two queues, for the witnesses.\<close>

definition demo_qm :: "nat QueueManager" where
  "demo_qm = PutJob (PutJob NewQueueManager ''a'' \<lparr>job_Priority = 5, job_Id = 1, job_Content = 0, job_Queue = ''a''\<rparr>)
     ''b'' \<lparr>job_Priority = 9, job_Id = 2, job_Content = 0, job_Queue = ''b''\<rparr>"

lemma demo_qm_ok: "qm_ok demo_qm"
  and demo_queued: "queued demo_qm = {\<lparr>job_Priority = 5, job_Id = 1, job_Content = 0, job_Queue = ''a''\<rparr>,
      \<lparr>job_Priority = 9, job_Id = 2, job_Content = 0, job_Queue = ''b''\<rparr>}"
proof -
  let ?a = "\<lparr>job_Priority = 5, job_Id = 1, job_Content = 0::nat, job_Queue = ''a''\<rparr>"
  let ?b = "\<lparr>job_Priority = 9, job_Id = 2, job_Content = 0::nat, job_Queue = ''b''\<rparr>"
  have a: "qm_ok (PutJob NewQueueManager ''a'' ?a)" "queued (PutJob NewQueueManager ''a'' ?a) = {?a}"
    using PutJob_spec[OF NewQueueManager_ok, of ?a] by simp_all
  then show "qm_ok demo_qm" "queued demo_qm = {?a, ?b}"
    using PutJob_spec[OF a(1), of ?b] by (auto simp: demo_qm_def)
qed

text \<open>C4: \<open>GetPriorityJob\<close> on a well-formed manager never panics. It returns nothing, and changes
  nothing, exactly when no named queue holds a job; otherwise it returns a queued job of maximal
  priority among all jobs of the named queues, and that job and only that job leaves the manager.\<close>

theorem GetPriorityJob_takes_best:
  assumes "qm_ok qm"
  shows "case GetPriorityJob qm queues of
      Panic \<Rightarrow> False
    | Ok (None, qm') \<Rightarrow> qm' = qm \<and> (\<forall>j \<in> queued qm. job_Queue j \<notin> set queues)
    | Ok (Some c, qm') \<Rightarrow> qm_ok qm' \<and> c \<in> queued qm \<and> job_Queue c \<in> set queues \<and>
        (\<forall>j \<in> queued qm. job_Queue j \<in> set queues \<longrightarrow> job_Priority j \<le> job_Priority c) \<and>
        queued qm' = queued qm - {c}"
proof (cases rule: GetPriorityJob_spec[OF assms, of queues])
  case 1
  then show ?thesis by simp
next
  case (2 c qm')
  then show ?thesis by simp
qed

theorem GetPriorityJob_takes_best_witness:
  "\<exists>c qm'. GetPriorityJob demo_qm [''a'', ''b''] = Ok (Some c, qm') \<and> job_Id c = 2"
proof -
  note best = GetPriorityJob_takes_best[OF demo_qm_ok, of "[''a'', ''b'']"]
  obtain r qm' where r: "GetPriorityJob demo_qm [''a'', ''b''] = Ok (r, qm')"
    using best by (cases "GetPriorityJob demo_qm [''a'', ''b'']") auto
  with best obtain c where c: "r = Some c" by (cases r) (auto simp: demo_queued)
  with best r have "c \<in> queued demo_qm" "\<forall>j \<in> queued demo_qm. job_Queue j \<in> set [''a'', ''b''] \<longrightarrow>
      job_Priority j \<le> job_Priority c" by simp_all
  then have "job_Id c = 2" by (auto simp: demo_queued)
  with r c show ?thesis by simp
qed

text \<open>C5: \<open>DeleteJob\<close> on a well-formed manager never panics. It reports success exactly when a job with
  that id is queued, and then the manager is left with every other job; \<open>JobExists\<close> answers the
  same question without changing anything.\<close>

theorem DeleteJob_exact:
  assumes "qm_ok qm"
  shows "case DeleteJob qm i of
      Panic \<Rightarrow> False
    | Ok (deleted, qm') \<Rightarrow> qm_ok qm' \<and> deleted = JobExists qm i \<and>
        JobExists qm i = (\<exists>j \<in> queued qm. job_Id j = i) \<and>
        queued qm' = {j \<in> queued qm. job_Id j \<noteq> i}"
proof (cases rule: DeleteJob_spec[OF assms, of i])
  case 1
  have "{j \<in> queued qm. job_Id j \<noteq> i} = queued qm" using 1(2) by blast
  moreover have "\<not> JobExists qm i" using 1(2) JobExists_iff[OF assms] by blast
  ultimately show ?thesis using assms 1(1) JobExists_iff[OF assms, of i] by simp
next
  case (2 c qm')
  have "j = c" if "j \<in> queued qm" "job_Id j = i" for j
    using queued_unique[OF assms that(1) 2(4)] that(2) 2(5) by simp
  then have "queued qm - {c} = {j \<in> queued qm. job_Id j \<noteq> i}" using 2(5) by blast
  moreover have "JobExists qm i" using 2(4,5) JobExists_iff[OF assms] by blast
  ultimately show ?thesis using 2 JobExists_iff[OF assms, of i] by simp
qed

theorem DeleteJob_exact_witness:
  "\<exists>qm'. DeleteJob demo_qm 1 = Ok (True, qm') \<and> \<not> (\<exists>j \<in> queued qm'. job_Id j = 1)"
proof -
  have e: "\<exists>j \<in> queued demo_qm. job_Id j = 1" by (simp add: demo_queued)
  with DeleteJob_exact[OF demo_qm_ok, of 1] show ?thesis
    by (cases "DeleteJob demo_qm 1") auto
qed

end
