(* ===== verification/Go_Strings.thy ===== *)
theory Go_Strings
  imports Go_Prelude
begin

text \<open>
  What the servers use of Go's \<open>strings\<close>, \<open>bytes\<close>, \<open>strconv\<close> and \<open>fmt\<close> packages, on strings
  as lists of bytes: decimal numbers (\<open>strconv.Itoa\<close>, the verb \<open>%d\<close>, \<open>strconv.Atoi\<close>),
  splitting at a separator byte and joining.
\<close>

section \<open>Decimal numbers\<close>

definition byte_of :: "char \<Rightarrow> nat" where
  "byte_of c = of_char c"

definition isDigit :: "char \<Rightarrow> bool" where
  "isDigit c \<longleftrightarrow> 48 \<le> byte_of c \<and> byte_of c \<le> 57"

definition digitChar :: "nat \<Rightarrow> char" where
  "digitChar d = char_of (48 + d)"

fun natDigits :: "nat \<Rightarrow> string" where
  "natDigits n = (if n < 10 then [digitChar n] else natDigits (n div 10) @ [digitChar (n mod 10)])"

declare natDigits.simps [simp del]

text \<open>\<open>strconv.Itoa\<close> and \<open>fmt.Sprintf("%d", n)\<close>.\<close>

definition itoa :: "int \<Rightarrow> string" where
  "itoa n = (if n < 0 then CHR ''-'' # natDigits (nat (- n)) else natDigits (nat n))"

fun digitsVal :: "nat \<Rightarrow> string \<Rightarrow> nat option" where
  "digitsVal acc [] = Some acc"
| "digitsVal acc (c # cs) = (if isDigit c then digitsVal (acc * 10 + (byte_of c - 48)) cs else None)"

definition parseDigits :: "string \<Rightarrow> nat option" where
  "parseDigits s = (if s = [] then None else digitsVal 0 s)"

text \<open>
  \<open>strconv.Atoi\<close> (and \<open>strconv.ParseInt(s, 10, 64)\<close>): an optional sign, at least one digit,
  nothing else, and a value that fits in 64 bits; \<open>None\<close> is the error.
\<close>

definition atoi :: "string \<Rightarrow> int option" where
  "atoi s =
     (let (neg, ds) = (case s of
              [] \<Rightarrow> (False, [])
            | c # cs \<Rightarrow> if c = CHR ''-'' then (True, cs) else if c = CHR ''+'' then (False, cs) else (False, s))
      in case parseDigits ds of
           None \<Rightarrow> None
         | Some n \<Rightarrow>
             if neg then (if n \<le> 2 ^ 63 then Some (- int n) else None)
             else (if n < 2 ^ 63 then Some (int n) else None))"

text \<open>For evaluation, the bounds as binary numerals.\<close>

lemma atoi_code [code]:
  "atoi s =
     (let (neg, ds) = (case s of
              [] \<Rightarrow> (False, [])
            | c # cs \<Rightarrow> if c = CHR ''-'' then (True, cs) else if c = CHR ''+'' then (False, cs) else (False, s))
      in case parseDigits ds of
           None \<Rightarrow> None
         | Some n \<Rightarrow>
             if neg then (if int n \<le> 9223372036854775808 then Some (- int n) else None)
             else (if int n < 9223372036854775808 then Some (int n) else None))"
proof -
  have "n \<le> 2 ^ 63 \<longleftrightarrow> int n \<le> 9223372036854775808" "n < 2 ^ 63 \<longleftrightarrow> int n < 9223372036854775808" for n by auto
  then show ?thesis by (simp only: atoi_def)
qed

lemma byte_of_digitChar [simp]: "d < 10 \<Longrightarrow> byte_of (digitChar d) = 48 + d"
  by (simp add: byte_of_def digitChar_def)

lemma isDigit_digitChar [simp]: "d < 10 \<Longrightarrow> isDigit (digitChar d)"
  by (simp add: isDigit_def)

lemma digitsVal_append:
  "digitsVal a (xs @ ys) = (case digitsVal a xs of None \<Rightarrow> None | Some b \<Rightarrow> digitsVal b ys)"
  by (induction xs arbitrary: a) auto

lemma natDigits_ne [simp]: "natDigits n \<noteq> []"
  by (subst natDigits.simps) auto

lemma natDigits_isDigit: "c \<in> set (natDigits n) \<Longrightarrow> isDigit c"
  by (induction n rule: natDigits.induct) (subst (asm) (2) natDigits.simps, auto split: if_splits)

lemma digitsVal_natDigits: "digitsVal 0 (natDigits n) = Some n"
proof (induction n rule: natDigits.induct)
  case (1 n)
  then show ?case
    by (subst natDigits.simps) (auto simp: digitsVal_append)
qed

lemma parseDigits_natDigits [simp]: "parseDigits (natDigits n) = Some n"
  by (simp add: parseDigits_def digitsVal_natDigits)

lemma natDigits_hd: "natDigits n = c # cs \<Longrightarrow> c \<noteq> CHR ''-'' \<and> c \<noteq> CHR ''+''"
  using natDigits_isDigit[of c n] by (auto simp: isDigit_def byte_of_def)

lemma atoi_itoa: "- (2 ^ 63) \<le> n \<Longrightarrow> n < 2 ^ 63 \<Longrightarrow> atoi (itoa n) = Some n"
proof (cases "n < 0")
  case True
  assume "- (2 ^ 63) \<le> n"
  with True have "nat (- n) \<le> 2 ^ 63" by simp
  with True show ?thesis by (simp add: atoi_def itoa_def)
next
  case False
  assume "n < 2 ^ 63"
  with False have "nat n < 2 ^ 63" by simp
  with False show ?thesis
    using natDigits_hd[of "nat n"] parseDigits_natDigits[of "nat n"]
    by (cases "natDigits (nat n)") (auto simp: atoi_def itoa_def simp del: parseDigits_natDigits)
qed

lemma length_natDigits: "n < 10 ^ k \<Longrightarrow> 0 < k \<Longrightarrow> length (natDigits n) \<le> k"
proof (induction n arbitrary: k rule: natDigits.induct)
  case (1 n)
  show ?case
  proof (cases "n < 10")
    case True
    with "1.prems" show ?thesis by (subst natDigits.simps) simp
  next
    case False
    with "1.prems" obtain m where m: "k = Suc m" "0 < m" 
      by (cases k; cases "k - 1") auto
    then have "n div 10 < 10 ^ m" using "1.prems" by (simp add: less_mult_imp_div_less mult.commute)
    from "1.IH"[OF False this m(2)] False m show ?thesis by (subst natDigits.simps) simp
  qed
qed

section \<open>Splitting and joining\<close>

text \<open>\<open>strings.Split(s, sep)\<close> for a separator of one byte: \<open>n\<close> separators give \<open>n + 1\<close> parts.\<close>

fun splitOn :: "'a \<Rightarrow> 'a list \<Rightarrow> 'a list list" where
  "splitOn sep [] = [[]]"
| "splitOn sep (c # cs) =
     (if c = sep then [] # splitOn sep cs
      else case splitOn sep cs of [] \<Rightarrow> [[c]] | p # ps \<Rightarrow> (c # p) # ps)"

text \<open>\<open>strings.Join(parts, sep)\<close> for such a separator.\<close>

fun joinWith :: "'a \<Rightarrow> 'a list list \<Rightarrow> 'a list" where
  "joinWith sep [] = []"
| "joinWith sep [p] = p"
| "joinWith sep (p # q # ps) = p @ sep # joinWith sep (q # ps)"

lemma splitOn_ne [simp]: "splitOn sep s \<noteq> []"
  by (induction s) (auto split: list.splits)

lemma join_split [simp]: "joinWith sep (splitOn sep s) = s"
proof (induction s)
  case Nil
  then show ?case by simp
next
  case (Cons c s)
  obtain p ps where p: "splitOn sep s = p # ps" by (cases "splitOn sep s") auto
  with Cons show ?case by (cases ps) auto
qed

lemma splitOn_parts: "p \<in> set (splitOn sep s) \<Longrightarrow> sep \<notin> set p"
  by (induction s arbitrary: p) (auto split: list.splits if_splits)

lemma splitOn_no_sep: "sep \<notin> set s \<Longrightarrow> splitOn sep s = [s]"
  by (induction s) auto

lemma splitOn_cons: "sep \<notin> set p \<Longrightarrow> splitOn sep (p @ sep # s) = p # splitOn sep s"
  by (induction p) auto

lemma split_join: "ps \<noteq> [] \<Longrightarrow> \<forall>p\<in>set ps. sep \<notin> set p \<Longrightarrow> splitOn sep (joinWith sep ps) = ps"
  by (induction sep ps rule: joinWith.induct) (auto simp: splitOn_no_sep splitOn_cons)

lemma length_splitOn: "length (splitOn sep s) = Suc (count_list s sep)"
  by (induction s) (auto split: list.splits)

section \<open>Trimming space\<close>

text \<open>
  The UTF-8 encodings of the code points with \<open>unicode.IsSpace\<close>: \<open>TrimSpace\<close> (of \<open>strings\<close> and of
  \<open>bytes\<close>) removes these from both ends; an invalid or any other sequence stops it.
\<close>

definition spaceEncodings :: "nat list list" where
  "spaceEncodings =
     [[9], [10], [11], [12], [13], [32], [194, 133], [194, 160], [225, 154, 128]] @
     map (\<lambda>k. [226, 128, 128 + k]) [0..<11] @
     [[226, 128, 168], [226, 128, 169], [226, 128, 175], [226, 129, 159], [227, 128, 128]]"

function trimLeft :: "'a list list \<Rightarrow> 'a list \<Rightarrow> 'a list" where
  "trimLeft encodings s =
     (case List.find (\<lambda>e. e \<noteq> [] \<and> take (length e) s = e) encodings of
        None \<Rightarrow> s
      | Some e \<Rightarrow> trimLeft encodings (drop (length e) s))"
  by pat_completeness auto
termination
proof (relation "measure (\<lambda>(encodings, s). length s)", goal_cases)
  case (2 encodings s e)
  then have "e \<noteq> []" "take (length e) s = e" by (auto simp: find_Some_iff)
  then have "s \<noteq> []" "0 < length e" by auto
  then show ?case by simp
qed simp

declare trimLeft.simps [simp del]

definition trimRight :: "'a list list \<Rightarrow> 'a list \<Rightarrow> 'a list" where
  "trimRight encodings s = rev (trimLeft (map rev encodings) (rev s))"

definition TrimSpace :: "(nat \<Rightarrow> 'a) \<Rightarrow> 'a list \<Rightarrow> 'a list" where
  "TrimSpace ofNat s =
     (let encodings = map (map ofNat) spaceEncodings in trimRight encodings (trimLeft encodings s))"

lemma trimLeft_drop: "\<exists>i. trimLeft encodings s = drop i s"
proof (induction encodings s rule: trimLeft.induct)
  case (1 encodings s)
  show ?case
  proof (cases "List.find (\<lambda>e. e \<noteq> [] \<and> take (length e) s = e) encodings")
    case None
    then show ?thesis by (subst trimLeft.simps) (auto intro: exI[of _ 0])
  next
    case (Some e)
    from "1.IH"[OF this] obtain i where "trimLeft encodings (drop (length e) s) = drop i (drop (length e) s)" by blast
    with Some show ?thesis by (subst trimLeft.simps) (auto simp: ac_simps)
  qed
qed

lemma trimLeft_hd: "[x] \<in> set encodings \<Longrightarrow> trimLeft encodings s = [] \<or> hd (trimLeft encodings s) \<noteq> x"
proof (induction encodings s rule: trimLeft.induct)
  case (1 encodings s)
  show ?case
  proof (cases "List.find (\<lambda>e. e \<noteq> [] \<and> take (length e) s = e) encodings")
    case None
    then have "take 1 s \<noteq> [x]" using "1.prems" by (auto simp: find_None_iff)
    then show ?thesis using None by (subst (1 2) trimLeft.simps) (cases s; auto)
  next
    case (Some e)
    from "1.IH"[OF this "1.prems"] Some show ?thesis by (subst (1 2) trimLeft.simps) simp
  qed
qed

lemma trimRight_take: "\<exists>i. trimRight encodings s = take i s"
proof -
  obtain i where "trimLeft (map rev encodings) (rev s) = drop i (rev s)" using trimLeft_drop by blast
  then show ?thesis by (auto simp: trimRight_def rev_drop intro: exI)
qed

lemma trimRight_last: "[x] \<in> set encodings \<Longrightarrow> trimRight encodings s = [] \<or> last (trimRight encodings s) \<noteq> x"
  using trimLeft_hd[of x "map rev encodings" "rev s"] by (force simp: trimRight_def last_rev image_iff)

text \<open>The result is a slice of the argument and ends in no ASCII space.\<close>

lemma TrimSpace_slice: "\<exists>pre post. s = pre @ TrimSpace f s @ post"
proof -
  let ?E = "map (map f) spaceEncodings"
  obtain i where i: "trimLeft ?E s = drop i s" using trimLeft_drop by blast
  obtain j where j: "trimRight ?E (drop i s) = take j (drop i s)" using trimRight_take by blast
  have "s = take i s @ take j (drop i s) @ drop j (drop i s)" by (metis append_take_drop_id)
  then show ?thesis unfolding TrimSpace_def Let_def i j by blast
qed

lemma TrimSpace_last: "k \<in> {9, 10, 11, 12, 13, 32} \<Longrightarrow> TrimSpace f s = [] \<or> last (TrimSpace f s) \<noteq> f k"
  unfolding TrimSpace_def Let_def by (rule trimRight_last) (auto simp: spaceEncodings_def)

end
