(* ===== verification/Go_Json.thy ===== *)
theory Go_Json
  imports Go_Strings
begin

text \<open>
  What the servers rely on in \<open>encoding/json\<close>: decoding a JSON document into a Go struct.

  A document is a \<open>json\<close> tree; the text grammar that produces it is a parameter of the servers
  (\<open>None\<close> for a syntax error). A number keeps its literal text, because decoding into an \<open>int\<close>
  field and into an \<open>interface{}\<close> field treat it differently. \<open>decodeStruct\<close> is the rule for
  structs: the keys of the object are taken in document order; a key selects the field with that
  name, or else the first field whose name is equal under Unicode case folding; unknown keys are
  skipped; a \<open>null\<close> leaves a string, number or boolean field as it is and clears a pointer or a
  slice; a value of the wrong type makes the whole decoding fail.
\<close>

datatype json =
    JNull
  | JBool bool
  | JNumber string
  | JString string
  | JArray "json list"
  | JObject "(string \<times> json) list"

text \<open>
  Case folding of a key: ASCII letters, and the two other code points that fold to an ASCII
  letter, U+017F (to s) and U+212A (to k), in their UTF-8 encoding.
\<close>

definition lowerChar :: "char \<Rightarrow> char" where
  "lowerChar c = (if 65 \<le> byte_of c \<and> byte_of c \<le> 90 then char_of (byte_of c + 32) else c)"

fun foldName :: "string \<Rightarrow> string" where
  "foldName [] = []"
| "foldName (c # cs) =
     (if byte_of c = 197 \<and> (case cs of d # _ \<Rightarrow> byte_of d = 191 | [] \<Rightarrow> False)
      then CHR ''s'' # foldName (tl cs)
      else if byte_of c = 226 \<and> (case cs of d # e # _ \<Rightarrow> byte_of d = 132 \<and> byte_of e = 170 | _ \<Rightarrow> False)
      then CHR ''k'' # foldName (tl (tl cs))
      else lowerChar c # foldName cs)"

type_synonym 's fields = "(string \<times> (json \<Rightarrow> 's \<Rightarrow> 's option)) list"

definition fieldFor :: "'s fields \<Rightarrow> string \<Rightarrow> (json \<Rightarrow> 's \<Rightarrow> 's option) option" where
  "fieldFor fields key =
     (case map_of fields key of
        Some f \<Rightarrow> Some f
      | None \<Rightarrow> map_option snd (List.find (\<lambda>(name, _). foldName name = foldName key) fields))"

fun decodeKeys :: "'s fields \<Rightarrow> (string \<times> json) list \<Rightarrow> 's \<Rightarrow> 's option" where
  "decodeKeys fields [] s = Some s"
| "decodeKeys fields ((key, v) # kvs) s =
     (case fieldFor fields key of
        None \<Rightarrow> decodeKeys fields kvs s
      | Some f \<Rightarrow> (case f v s of None \<Rightarrow> None | Some s' \<Rightarrow> decodeKeys fields kvs s'))"

definition decodeStruct :: "'s fields \<Rightarrow> 's \<Rightarrow> json \<Rightarrow> 's option" where
  "decodeStruct fields zero v =
     (case v of JObject kvs \<Rightarrow> decodeKeys fields kvs zero | JNull \<Rightarrow> Some zero | _ \<Rightarrow> None)"

text \<open>Decoders for the field types the servers declare.\<close>

fun decodeString :: "json \<Rightarrow> string \<Rightarrow> string option" where
  "decodeString JNull old = Some old"
| "decodeString (JString s) old = Some s"
| "decodeString _ old = None"

fun decodeInt :: "json \<Rightarrow> int \<Rightarrow> int option" where
  "decodeInt JNull old = Some old"
| "decodeInt (JNumber lit) old = atoi lit"
| "decodeInt _ old = None"

fun decodeBoolPtr :: "json \<Rightarrow> bool option \<Rightarrow> bool option option" where
  "decodeBoolPtr JNull old = Some None"
| "decodeBoolPtr (JBool b) old = Some (Some b)"
| "decodeBoolPtr _ old = None"

fun decodeStrings :: "json list \<Rightarrow> string list option" where
  "decodeStrings [] = Some []"
| "decodeStrings (v # vs) =
     (case (decodeString v [], decodeStrings vs) of (Some s, Some ss) \<Rightarrow> Some (s # ss) | _ \<Rightarrow> None)"

fun decodeStringSlice :: "json \<Rightarrow> string list \<Rightarrow> string list option" where
  "decodeStringSlice JNull old = Some []"
| "decodeStringSlice (JArray vs) old = decodeStrings vs"
| "decodeStringSlice _ old = None"

lemma fieldFor_exact: "map_of fields key = Some f \<Longrightarrow> fieldFor fields key = Some f"
  by (simp add: fieldFor_def)

end
