(* ===== verification/Job_Center.thy ===== *)
theory Job_Center
  imports Queue_Manager Go_Json
begin

text \<open>
  \<open>internal/jobcenter/request.go\<close> and \<open>jobcenter.go\<close>: the request parser, the handlers a client's
  connection runs, and the server as a transition system.

  Parameters: \<open>syntax\<close> is the JSON grammar (text to tree, \<open>None\<close> on a syntax error) and \<open>toAny\<close> the
  conversion of a JSON value to Go's \<open>interface{}\<close> (\<open>None\<close> when a number does not fit), with
  \<open>nilAny\<close> for the value of an absent field. A response is recorded in the client's \<open>cl_Sent\<close> as
  the struct handed to \<open>json.Marshal\<close>; a failed socket write has no effect on the handlers other
  than \<open>waitForJob\<close>, whose connectivity probe is the argument \<open>connected\<close>.
\<close>

section \<open>Requests\<close>

record 'c PutRequest =
  pr_Request :: string
  pr_Queue :: string
  pr_Job :: 'c
  pr_Priority :: int

record GetRequest =
  gr_Request :: string
  gr_Queues :: "string list"
  gr_Wait :: "bool option"

record DeleteRequest =
  dr_Request :: string
  dr_Id :: int

record AbortRequest =
  ar_Request :: string
  ar_Id :: int

datatype parseError =
    InvalidSyntax | BadPut | BadGet | BadDelete | BadAbort | UnknownRequest string

datatype 'c Request =
    Put "'c PutRequest"
  | Get GetRequest
  | Delete DeleteRequest
  | Abort AbortRequest
  | RequestError parseError

definition baseFields :: "string fields" where
  "baseFields = [(''request'', decodeString)]"

definition putFields :: "(json \<Rightarrow> 'c option) \<Rightarrow> 'c PutRequest fields" where
  "putFields toAny =
     [(''request'', \<lambda>v s. map_option (\<lambda>x. s\<lparr>pr_Request := x\<rparr>) (decodeString v (pr_Request s))),
      (''queue'', \<lambda>v s. map_option (\<lambda>x. s\<lparr>pr_Queue := x\<rparr>) (decodeString v (pr_Queue s))),
      (''job'', \<lambda>v s. map_option (\<lambda>x. s\<lparr>pr_Job := x\<rparr>) (toAny v)),
      (''pri'', \<lambda>v s. map_option (\<lambda>x. s\<lparr>pr_Priority := x\<rparr>) (decodeInt v (pr_Priority s)))]"

definition getFields :: "GetRequest fields" where
  "getFields =
     [(''request'', \<lambda>v s. map_option (\<lambda>x. s\<lparr>gr_Request := x\<rparr>) (decodeString v (gr_Request s))),
      (''queues'', \<lambda>v s. map_option (\<lambda>x. s\<lparr>gr_Queues := x\<rparr>) (decodeStringSlice v (gr_Queues s))),
      (''wait'', \<lambda>v s. map_option (\<lambda>x. s\<lparr>gr_Wait := x\<rparr>) (decodeBoolPtr v (gr_Wait s)))]"

definition deleteFields :: "DeleteRequest fields" where
  "deleteFields =
     [(''request'', \<lambda>v s. map_option (\<lambda>x. s\<lparr>dr_Request := x\<rparr>) (decodeString v (dr_Request s))),
      (''id'', \<lambda>v s. map_option (\<lambda>x. s\<lparr>dr_Id := x\<rparr>) (decodeInt v (dr_Id s)))]"

definition abortFields :: "AbortRequest fields" where
  "abortFields =
     [(''request'', \<lambda>v s. map_option (\<lambda>x. s\<lparr>ar_Request := x\<rparr>) (decodeString v (ar_Request s))),
      (''id'', \<lambda>v s. map_option (\<lambda>x. s\<lparr>ar_Id := x\<rparr>) (decodeInt v (ar_Id s)))]"

definition parseJsonLine ::
  "(string \<Rightarrow> json option) \<Rightarrow> (json \<Rightarrow> 'c option) \<Rightarrow> 'c \<Rightarrow> string \<Rightarrow> 'c Request" where
  "parseJsonLine syntax toAny nilAny line =
     (case syntax line of
        None \<Rightarrow> RequestError InvalidSyntax
      | Some v \<Rightarrow>
          (case decodeStruct baseFields '''' v of
             None \<Rightarrow> RequestError InvalidSyntax
           | Some request \<Rightarrow>
               if request = ''put'' then
                 (case decodeStruct (putFields toAny)
                     \<lparr>pr_Request = '''', pr_Queue = '''', pr_Job = nilAny, pr_Priority = 0\<rparr> v of
                    None \<Rightarrow> RequestError BadPut | Some r \<Rightarrow> Put r)
               else if request = ''get'' then
                 (case decodeStruct getFields \<lparr>gr_Request = '''', gr_Queues = [], gr_Wait = None\<rparr> v of
                    None \<Rightarrow> RequestError BadGet | Some r \<Rightarrow> Get r)
               else if request = ''delete'' then
                 (case decodeStruct deleteFields \<lparr>dr_Request = '''', dr_Id = 0\<rparr> v of
                    None \<Rightarrow> RequestError BadDelete | Some r \<Rightarrow> Delete r)
               else if request = ''abort'' then
                 (case decodeStruct abortFields \<lparr>ar_Request = '''', ar_Id = 0\<rparr> v of
                    None \<Rightarrow> RequestError BadAbort | Some r \<Rightarrow> Abort r)
               else RequestError (UnknownRequest request)))"

section \<open>Clients and responses\<close>

datatype serverError = ParseFailed parseError | NotControlled int | UnknownType

datatype 'c Response =
    ErrorResponse serverError
  | PutResponse string int
  | GetResponse string "int option" "'c option" "int option" "string option"
      \<comment> \<open>status, id, job, priority, queue; the last four are omitted when absent\<close>
  | DeleteResponse string
  | AbortResponse string

record 'c Client =
  cl_Jobs :: "'c Job list"
  cl_Sent :: "'c Response list"

definition newClient :: "'c Client" where
  "newClient = \<lparr>cl_Jobs = [], cl_Sent = []\<rparr>"

definition respond :: "'c Client \<Rightarrow> 'c Response \<Rightarrow> 'c Client" where
  "respond client r = client\<lparr>cl_Sent := cl_Sent client @ [r]\<rparr>"

definition hasJob :: "'c Client \<Rightarrow> int \<Rightarrow> 'c Job option" where
  "hasJob client ident = List.find (\<lambda>job. job_Id job = ident) (cl_Jobs client)"

definition deleteJob :: "'c Client \<Rightarrow> int \<Rightarrow> bool \<times> 'c Client" where
  "deleteJob client ident =
     (case find_index (\<lambda>j. job_Id j = ident) (cl_Jobs client) of
        None \<Rightarrow> (False, client)
      | Some i \<Rightarrow> (True, client\<lparr>cl_Jobs := take i (cl_Jobs client) @ drop (Suc i) (cl_Jobs client)\<rparr>))"

definition addJob :: "'c Client \<Rightarrow> 'c Job \<Rightarrow> 'c Client" where
  "addJob client job = client\<lparr>cl_Jobs := cl_Jobs client @ [job]\<rparr>"

fun returnJobs :: "'c Job list \<Rightarrow> 'c QueueManager \<Rightarrow> 'c QueueManager" where
  "returnJobs [] qm = qm"
| "returnJobs (job # rest) qm = returnJobs rest (PutJob qm (job_Queue job) job)"

definition returnAllJobs :: "'c Client \<Rightarrow> 'c QueueManager \<Rightarrow> 'c Client \<times> 'c QueueManager" where
  "returnAllJobs client qm = (client\<lparr>cl_Jobs := []\<rparr>, returnJobs (cl_Jobs client) qm)"

section \<open>Handlers\<close>

definition handleError :: "'c Client \<Rightarrow> serverError \<Rightarrow> 'c Client" where
  "handleError client e = respond client (ErrorResponse e)"

text \<open>
  \<open>handlePut\<close> makes two calls that lock the manager separately; \<open>putBegin\<close> and \<open>putEnd\<close> are the two
  halves, so that other clients can run between them.
\<close>

definition putBegin :: "'c PutRequest \<Rightarrow> 'c QueueManager \<Rightarrow> 'c Job \<times> 'c QueueManager" where
  "putBegin request qm =
     (let (ident, qm') = GetNextId qm
      in (\<lparr>job_Priority = pr_Priority request, job_Id = ident, job_Content = pr_Job request,
           job_Queue = pr_Queue request\<rparr>, qm'))"

definition putEnd ::
  "'c Client \<Rightarrow> string \<Rightarrow> 'c Job \<Rightarrow> 'c QueueManager \<Rightarrow> 'c Client \<times> 'c QueueManager" where
  "putEnd client queue newJob qm =
     (respond client (PutResponse ''ok'' (job_Id newJob)), PutJob qm queue newJob)"

definition handlePut ::
  "'c Client \<Rightarrow> 'c PutRequest \<Rightarrow> 'c QueueManager \<Rightarrow> 'c Client \<times> 'c QueueManager" where
  "handlePut client request qm =
     (let (newJob, qm') = putBegin request qm in putEnd client (pr_Queue request) newJob qm')"

definition handleAbort ::
  "'c Client \<Rightarrow> AbortRequest \<Rightarrow> 'c QueueManager \<Rightarrow> 'c Client \<times> 'c QueueManager" where
  "handleAbort client request qm =
     (case hasJob client (ar_Id request) of
        Some job \<Rightarrow>
          (let qm' = PutJob qm (job_Queue job) job;
               client' = snd (deleteJob client (job_Id job))
           in (respond client' (AbortResponse ''ok''), qm'))
      | None \<Rightarrow>
          if JobExists qm (ar_Id request)
          then (handleError client (NotControlled (ar_Id request)), qm)
          else (respond client (AbortResponse ''no-job''), qm))"

definition handleDelete ::
  "'c Client \<Rightarrow> DeleteRequest \<Rightarrow> 'c QueueManager \<Rightarrow> ('c Client \<times> 'c QueueManager) outcome" where
  "handleDelete client request qm =
     (let reply = (\<lambda>deleted c. respond c (DeleteResponse (if deleted then ''ok'' else ''no-job'')))
      in case hasJob client (dr_Id request) of
           Some job \<Rightarrow>
             (let (deleted, client') = deleteJob client (job_Id job) in Ok (reply deleted client', qm))
         | None \<Rightarrow>
             (case DeleteJob qm (dr_Id request) of
                Panic \<Rightarrow> Panic
              | Ok (deleted, qm') \<Rightarrow> Ok (reply deleted client, qm')))"

text \<open>The part of \<open>handleGet\<close> after a job was found.\<close>

definition finishGet :: "'c Client \<Rightarrow> 'c Job \<Rightarrow> 'c Client" where
  "finishGet client job =
     respond (addJob client job)
       (GetResponse ''ok'' (Some (job_Id job)) (Some (job_Content job)) (Some (job_Priority job))
          (Some (job_Queue job)))"

text \<open>
  \<open>handleGet\<close> returns, or enters the polling loop of \<open>waitForJob\<close> (\<open>MustWait\<close>); a missing
  \<open>Wait\<close> pointer is dereferenced, hence \<open>Panic\<close>, which \<open>messageDispatch\<close> rules out.
\<close>

datatype progress = Returned | MustWait "string list"

definition handleGet ::
  "'c Client \<Rightarrow> GetRequest \<Rightarrow> 'c QueueManager \<Rightarrow> ('c Client \<times> 'c QueueManager \<times> progress) outcome" where
  "handleGet client request qm =
     (case GetPriorityJob qm (gr_Queues request) of
        Panic \<Rightarrow> Panic
      | Ok (None, qm') \<Rightarrow>
          (case gr_Wait request of
             None \<Rightarrow> Panic
           | Some False \<Rightarrow> Ok (respond client (GetResponse ''no-job'' None None None None), qm', Returned)
           | Some True \<Rightarrow> Ok (client, qm', MustWait (gr_Queues request)))
      | Ok (Some job, qm') \<Rightarrow> Ok (finishGet client job, qm', Returned))"

text \<open>
  One round of the loop of \<open>waitForJob\<close>: every round but the first starts with the connectivity
  probe, and a lost connection ends the wait with no response.
\<close>

definition waitRound ::
  "bool \<Rightarrow> bool \<Rightarrow> 'c Client \<Rightarrow> string list \<Rightarrow> 'c QueueManager \<Rightarrow>
   ('c Client \<times> 'c QueueManager \<times> progress) outcome" where
  "waitRound first connected client queues qm =
     (if \<not> first \<and> \<not> connected then Ok (client, qm, Returned)
      else case GetPriorityJob qm queues of
          Panic \<Rightarrow> Panic
        | Ok (None, qm') \<Rightarrow> Ok (client, qm', MustWait queues)
        | Ok (Some job, qm') \<Rightarrow> Ok (finishGet client job, qm', Returned))"

definition messageDispatch ::
  "'c Client \<Rightarrow> 'c Request \<Rightarrow> 'c QueueManager \<Rightarrow> ('c Client \<times> 'c QueueManager \<times> progress) outcome" where
  "messageDispatch client request qm =
     (case request of
        Put r \<Rightarrow> (let (c, q) = handlePut client r qm in Ok (c, q, Returned))
      | Get r \<Rightarrow>
          handleGet client (r\<lparr>gr_Wait := (case gr_Wait r of None \<Rightarrow> Some False | w \<Rightarrow> w)\<rparr>) qm
      | Delete r \<Rightarrow>
          (case handleDelete client r qm of Panic \<Rightarrow> Panic | Ok (c, q) \<Rightarrow> Ok (c, q, Returned))
      | Abort r \<Rightarrow> (let (c, q) = handleAbort client r qm in Ok (c, q, Returned))
      | RequestError _ \<Rightarrow> Ok (handleError client UnknownType, qm, Returned))"

text \<open>What \<open>handleConnection\<close> does with one line.\<close>

definition handleLine ::
  "(string \<Rightarrow> json option) \<Rightarrow> (json \<Rightarrow> 'c option) \<Rightarrow> 'c \<Rightarrow> 'c Client \<Rightarrow> string \<Rightarrow> 'c QueueManager \<Rightarrow>
   ('c Client \<times> 'c QueueManager \<times> progress) outcome" where
  "handleLine syntax toAny nilAny client line qm =
     (case parseJsonLine syntax toAny nilAny line of
        RequestError e \<Rightarrow> Ok (handleError client (ParseFailed e), qm, Returned)
      | request \<Rightarrow> messageDispatch client request qm)"

section \<open>Facts about one client's job list\<close>

lemma remove_first_filter:
  "distinct (map f xs) \<Longrightarrow> find_index (\<lambda>x. f x = k) xs = Some i \<Longrightarrow>
   take i xs @ drop (Suc i) xs = filter (\<lambda>x. f x \<noteq> k) xs"
proof (induction xs arbitrary: i)
  case Nil
  then show ?case by simp
next
  case (Cons x xs)
  show ?case
  proof (cases "f x = k")
    case True
    from Cons.prems(1) have "f x \<notin> f ` set xs" by simp
    with True have "\<forall>y\<in>set xs. f y \<noteq> k" by (metis image_eqI)
    moreover have "i = 0" using Cons.prems True by auto
    ultimately have "\<forall>y\<in>set xs. f y \<noteq> k" "i = 0" by auto
    with True show ?thesis by simp
  next
    case False
    with Cons.prems obtain n where "find_index (\<lambda>x. f x = k) xs = Some n" "i = Suc n" by auto
    with Cons False show ?thesis by simp
  qed
qed

lemma hasJob_Some: "hasJob client i = Some j \<Longrightarrow> j \<in> set (cl_Jobs client) \<and> job_Id j = i"
  by (auto simp: hasJob_def find_Some_iff)

lemma hasJob_None: "hasJob client i = None \<longleftrightarrow> (\<forall>j \<in> set (cl_Jobs client). job_Id j \<noteq> i)"
  by (auto simp: hasJob_def find_None_iff)

lemma deleteJob_spec:
  assumes "distinct (map job_Id (cl_Jobs client))"
  shows "cl_Jobs (snd (deleteJob client i)) = filter (\<lambda>j. job_Id j \<noteq> i) (cl_Jobs client)"
    and "fst (deleteJob client i) \<longleftrightarrow> (\<exists>j \<in> set (cl_Jobs client). job_Id j = i)"
proof -
  show "cl_Jobs (snd (deleteJob client i)) = filter (\<lambda>j. job_Id j \<noteq> i) (cl_Jobs client)"
  proof (cases "find_index (\<lambda>j. job_Id j = i) (cl_Jobs client)")
    case None
    then have "filter (\<lambda>j. job_Id j \<noteq> i) (cl_Jobs client) = cl_Jobs client"
      by (simp add: find_index_None filter_id_conv)
    with None show ?thesis by (simp add: deleteJob_def)
  next
    case (Some n)
    with remove_first_filter[OF assms Some] show ?thesis by (simp add: deleteJob_def)
  qed
  show "fst (deleteJob client i) \<longleftrightarrow> (\<exists>j \<in> set (cl_Jobs client). job_Id j = i)"
  proof (cases "find_index (\<lambda>j. job_Id j = i) (cl_Jobs client)")
    case None
    then show ?thesis by (simp add: deleteJob_def) (simp add: find_index_None)
  next
    case (Some n)
    then show ?thesis using find_index_Some_ex[OF Some] by (simp add: deleteJob_def)
  qed
qed

lemma cl_Jobs_simps [simp]:
  "cl_Jobs (respond client r) = cl_Jobs client"
  "cl_Jobs (handleError client e) = cl_Jobs client"
  "cl_Jobs (finishGet client job) = cl_Jobs client @ [job]"
  "cl_Jobs newClient = []"
  by (simp_all add: respond_def handleError_def finishGet_def addJob_def newClient_def)

section \<open>The server as a transition system\<close>

text \<open>
  Each client is a goroutine with a control state: \<open>Ready\<close> reads the next line, \<open>Storing\<close> is
  between the two calls of \<open>handlePut\<close>, \<open>Waiting\<close> is inside \<open>waitForJob\<close> (the flag marks the
  first round), \<open>Leaving\<close> is inside the deferred \<open>returnAllJobs\<close>. A step is one atomic action of
  one client; a label records what may change the set of live jobs.
\<close>

datatype 'c control = Ready | Storing "'c Job" | Waiting bool "string list" | Leaving "'c Job list"

record 'c System =
  sys_qm :: "'c QueueManager"
  sys_client :: "nat \<rightharpoonup> ('c Client \<times> 'c control)"

datatype 'c label = Created "'c Job" | Deleted nat int | Internal

definition initSystem :: "'c System" where
  "initSystem = \<lparr>sys_qm = NewQueueManager, sys_client = Map.empty\<rparr>"

fun controlAfter :: "progress \<Rightarrow> 'c control" where
  "controlAfter Returned = Ready"
| "controlAfter (MustWait queues) = Waiting True queues"

fun controlInWait :: "progress \<Rightarrow> 'c control" where
  "controlInWait Returned = Ready"
| "controlInWait (MustWait queues) = Waiting False queues"

fun isPut :: "'c Request \<Rightarrow> bool" where
  "isPut (Put r) = True"
| "isPut _ = False"

fun labelOf :: "nat \<Rightarrow> 'c Request \<Rightarrow> 'c label" where
  "labelOf cid (Delete r) = Deleted cid (dr_Id r)"
| "labelOf cid _ = Internal"

inductive jc_step :: "'c System \<Rightarrow> 'c label \<Rightarrow> 'c System \<Rightarrow> bool" where
  accept: "sys_client s cid = None \<Longrightarrow>
     jc_step s Internal (s\<lparr>sys_client := (sys_client s)(cid \<mapsto> (newClient, Ready))\<rparr>)"
| put_begin: "sys_client s cid = Some (c, Ready) \<Longrightarrow> putBegin r (sys_qm s) = (job, qm') \<Longrightarrow>
     jc_step s (Created job)
       (s\<lparr>sys_qm := qm', sys_client := (sys_client s)(cid \<mapsto> (c, Storing job))\<rparr>)"
| put_end: "sys_client s cid = Some (c, Storing job) \<Longrightarrow>
     putEnd c (job_Queue job) job (sys_qm s) = (c', qm') \<Longrightarrow>
     jc_step s Internal (s\<lparr>sys_qm := qm', sys_client := (sys_client s)(cid \<mapsto> (c', Ready))\<rparr>)"
| request: "sys_client s cid = Some (c, Ready) \<Longrightarrow> \<not> isPut r \<Longrightarrow>
     messageDispatch c r (sys_qm s) = Ok (c', qm', p) \<Longrightarrow>
     jc_step s (labelOf cid r)
       (s\<lparr>sys_qm := qm', sys_client := (sys_client s)(cid \<mapsto> (c', controlAfter p))\<rparr>)"
| bad_line: "sys_client s cid = Some (c, Ready) \<Longrightarrow>
     jc_step s Internal
       (s\<lparr>sys_client := (sys_client s)(cid \<mapsto> (handleError c (ParseFailed e), Ready))\<rparr>)"
| wait: "sys_client s cid = Some (c, Waiting first queues) \<Longrightarrow>
     waitRound first connected c queues (sys_qm s) = Ok (c', qm', p) \<Longrightarrow>
     jc_step s Internal
       (s\<lparr>sys_qm := qm', sys_client := (sys_client s)(cid \<mapsto> (c', controlInWait p))\<rparr>)"
| leave: "sys_client s cid = Some (c, Ready) \<Longrightarrow>
     jc_step s Internal
       (s\<lparr>sys_client := (sys_client s)(cid \<mapsto> (c\<lparr>cl_Jobs := []\<rparr>, Leaving (cl_Jobs c)))\<rparr>)"
| return_one: "sys_client s cid = Some (c, Leaving (job # rest)) \<Longrightarrow>
     jc_step s Internal
       (s\<lparr>sys_qm := PutJob (sys_qm s) (job_Queue job) job,
          sys_client := (sys_client s)(cid \<mapsto> (c, Leaving rest))\<rparr>)"
| gone: "sys_client s cid = Some (c, Leaving []) \<Longrightarrow>
     jc_step s Internal (s\<lparr>sys_client := (sys_client s)(cid := None)\<rparr>)"

inductive jc_run :: "'c System \<Rightarrow> 'c label list \<Rightarrow> 'c System \<Rightarrow> bool" where
  start: "jc_run s [] s"
| step: "jc_run s ls t \<Longrightarrow> jc_step t l u \<Longrightarrow> jc_run s (ls @ [l]) u"

section \<open>Where the jobs are\<close>

text \<open>
  \<open>holds\<close> lists the jobs in a client's hands: those assigned to it, the one it is about to store,
  and the ones it has still to return. \<open>liveJobs\<close> are all jobs of the system.
\<close>

fun holds :: "'c Client \<times> 'c control \<Rightarrow> 'c Job list" where
  "holds (c, Storing job) = cl_Jobs c @ [job]"
| "holds (c, Leaving jobs) = jobs"
| "holds (c, _) = cl_Jobs c"

definition holdsOf :: "'c System \<Rightarrow> nat \<Rightarrow> 'c Job list" where
  "holdsOf s cid = (case sys_client s cid of None \<Rightarrow> [] | Some x \<Rightarrow> holds x)"

definition liveJobs :: "'c System \<Rightarrow> 'c Job set" where
  "liveJobs s = queued (sys_qm s) \<union> (\<Union>cid. set (holdsOf s cid))"

abbreviation ids :: "'c Job set \<Rightarrow> int set" where
  "ids J \<equiv> job_Id ` J"

lemma ids_disjoint: "ids A \<inter> ids B = {} \<longleftrightarrow> (\<forall>a\<in>A. \<forall>b\<in>B. job_Id a \<noteq> job_Id b)"
  by blast

definition sys_ok :: "'c System \<Rightarrow> bool" where
  "sys_ok s \<longleftrightarrow>
     qm_ok (sys_qm s) \<and>
     (\<forall>cid. distinct (map job_Id (holdsOf s cid))) \<and>
     (\<forall>cid. ids (set (holdsOf s cid)) \<inter> ids (queued (sys_qm s)) = {}) \<and>
     (\<forall>c d. c \<noteq> d \<longrightarrow> ids (set (holdsOf s c)) \<inter> ids (set (holdsOf s d)) = {}) \<and>
     (\<forall>j \<in> liveJobs s. job_Id j \<le> qm_CurrentId (sys_qm s))"

lemma holds_controlAfter [simp]: "holds (c, controlAfter p) = cl_Jobs c"
  by (cases p) auto

lemma holds_controlInWait [simp]: "holds (c, controlInWait p) = cl_Jobs c"
  by (cases p) auto

text \<open>
  One client moves: its own jobs become \<open>H\<close> and the manager becomes \<open>qm'\<close>. The invariant survives
  if jobs only moved between the client and the manager, or carry a fresh id.
\<close>

lemma holdsOf_update:
  "sys_client s' = (sys_client s)(cid := x) \<Longrightarrow>
   holdsOf s' c = (if c = cid then (case x of None \<Rightarrow> [] | Some y \<Rightarrow> holds y) else holdsOf s c)"
  by (auto simp: holdsOf_def)

lemma sys_ok_update:
  assumes ok: "sys_ok s" and client: "sys_client s' = (sys_client s)(cid := x)"
    and H: "H = (case x of None \<Rightarrow> [] | Some y \<Rightarrow> holds y)"
    and qm: "qm_ok (sys_qm s')" "qm_CurrentId (sys_qm s) \<le> qm_CurrentId (sys_qm s')"
    and dist: "distinct (map job_Id H)" "ids (set H) \<inter> ids (queued (sys_qm s')) = {}"
    and moved: "\<forall>j \<in> set H \<union> queued (sys_qm s').
      j \<in> set (holdsOf s cid) \<union> queued (sys_qm s) \<or>
      qm_CurrentId (sys_qm s) < job_Id j \<and> job_Id j \<le> qm_CurrentId (sys_qm s')"
  shows "sys_ok s'"
proof -
  note upd = holdsOf_update[OF client, folded H]
  have old: "\<forall>j \<in> liveJobs s. job_Id j \<le> qm_CurrentId (sys_qm s)"
    and disj: "\<And>c d. c \<noteq> d \<Longrightarrow> ids (set (holdsOf s c)) \<inter> ids (set (holdsOf s d)) = {}"
    and qdisj: "\<And>c. ids (set (holdsOf s c)) \<inter> ids (queued (sys_qm s)) = {}"
    using ok by (simp_all add: sys_ok_def)
  have other: "job_Id k \<noteq> job_Id j"
    if c: "c \<noteq> cid" and k: "k \<in> set (holdsOf s c)" and j: "j \<in> set H \<union> queued (sys_qm s')" for c j k
  proof -
    have le: "job_Id k \<le> qm_CurrentId (sys_qm s)" using old k by (auto simp: liveJobs_def)
    from moved j consider "j \<in> set (holdsOf s cid)" | "j \<in> queued (sys_qm s)" | "qm_CurrentId (sys_qm s) < job_Id j"
      by blast
    then show ?thesis using disj[OF c] qdisj[of c] k le by cases (force, force, simp)
  qed
  have "job_Id j \<le> qm_CurrentId (sys_qm s')" if "j \<in> liveJobs s'" for j
  proof (cases "j \<in> liveJobs s")
    case True
    with old qm(2) show ?thesis by fastforce
  next
    case False
    with that have "j \<in> set H \<union> queued (sys_qm s')" by (auto simp: liveJobs_def upd split: if_splits)
    with moved False show ?thesis by (auto simp: liveJobs_def)
  qed
  moreover have "ids (set (holdsOf s' c)) \<inter> ids (queued (sys_qm s')) = {}" for c
    using dist(2) other[of c] unfolding ids_disjoint upd by (cases "c = cid") simp_all
  moreover have "ids (set (holdsOf s' c)) \<inter> ids (set (holdsOf s' d)) = {}" if "c \<noteq> d" for c d
    using disj[OF that] other[of c] other[of d] that unfolding ids_disjoint upd
    by (cases "c = cid"; cases "d = cid") (simp_all, metis)
  moreover have "distinct (map job_Id (holdsOf s' c))" for c
    using ok dist(1) by (simp add: upd sys_ok_def)
  ultimately show ?thesis using qm(1) by (simp add: sys_ok_def)
qed

lemma liveJobs_update:
  assumes "sys_client s' = (sys_client s)(cid := x)" and "H = (case x of None \<Rightarrow> [] | Some y \<Rightarrow> holds y)"
  shows "liveJobs s' = queued (sys_qm s') \<union> set H \<union> (\<Union>c \<in> - {cid}. set (holdsOf s c))"
  using holdsOf_update[OF assms(1)] assms(2) by (auto simp: liveJobs_def split: if_splits)

lemma liveJobs_split:
  "liveJobs s = queued (sys_qm s) \<union> set (holdsOf s cid) \<union> (\<Union>c \<in> - {cid}. set (holdsOf s c))"
  by (auto simp: liveJobs_def)

section \<open>Each handler, seen from one client and the manager\<close>

text \<open>
  \<open>handler_ok\<close>: the handler does not panic, ids stay unique between the client and the manager,
  no id is allocated, and the jobs of the two together become \<open>J\<close>.
\<close>

definition local_ok :: "'c Client \<Rightarrow> 'c QueueManager \<Rightarrow> bool" where
  "local_ok c qm \<longleftrightarrow> qm_ok qm \<and> distinct (map job_Id (cl_Jobs c)) \<and>
     ids (set (cl_Jobs c)) \<inter> ids (queued qm) = {}"

definition handler_ok ::
  "'c QueueManager \<Rightarrow> 'c Job set \<Rightarrow> ('c Client \<times> 'c QueueManager \<times> progress) outcome \<Rightarrow> bool" where
  "handler_ok qm J res \<longleftrightarrow>
     (case res of
        Panic \<Rightarrow> False
      | Ok (c', qm', p) \<Rightarrow> local_ok c' qm' \<and> qm_CurrentId qm' = qm_CurrentId qm \<and>
          set (cl_Jobs c') \<union> queued qm' = J)"

lemma handler_okI:
  "local_ok c' qm' \<Longrightarrow> qm_CurrentId qm' = qm_CurrentId qm \<Longrightarrow> set (cl_Jobs c') \<union> queued qm' = J \<Longrightarrow>
   handler_ok qm J (Ok (c', qm', p))"
  by (simp add: handler_ok_def)

lemma local_okD:
  assumes "local_ok c qm"
  shows "qm_ok qm" "distinct (map job_Id (cl_Jobs c))"
    "\<And>j k. j \<in> set (cl_Jobs c) \<Longrightarrow> k \<in> queued qm \<Longrightarrow> job_Id j \<noteq> job_Id k"
  using assms unfolding local_ok_def ids_disjoint by blast+

lemma local_okI:
  assumes "qm_ok qm" "distinct (map job_Id (cl_Jobs c))"
    "\<And>j k. j \<in> set (cl_Jobs c) \<Longrightarrow> k \<in> queued qm \<Longrightarrow> job_Id j \<noteq> job_Id k"
  shows "local_ok c qm"
  using assms unfolding local_ok_def ids_disjoint by blast

lemma finishGet_ok:
  assumes ok: "local_ok c qm" and j: "j \<in> queued qm" and qm': "qm_ok qm'" "queued qm' = queued qm - {j}"
  shows "local_ok (finishGet c j) qm'" and "set (cl_Jobs (finishGet c j)) \<union> queued qm' = set (cl_Jobs c) \<union> queued qm"
proof -
  note d = local_okD[OF ok]
  have "job_Id k \<noteq> job_Id j" if "k \<in> queued qm" "k \<noteq> j" for k
    using queued_unique[OF d(1) that(1) j] that(2) by blast
  moreover have "job_Id j \<notin> ids (set (cl_Jobs c))" using d(3)[OF _ j] by (metis imageE)
  ultimately show "local_ok (finishGet c j) qm'"
    using d qm' by (intro local_okI) (auto, metis)
  show "set (cl_Jobs (finishGet c j)) \<union> queued qm' = set (cl_Jobs c) \<union> queued qm"
    using j qm' by auto
qed

lemma local_ok_same_jobs:
  "local_ok c qm \<Longrightarrow> cl_Jobs c' = cl_Jobs c \<Longrightarrow> local_ok c' qm"
  by (simp add: local_ok_def)

lemma waitRound_ok:
  assumes ok: "local_ok c qm"
  shows "handler_ok qm (set (cl_Jobs c) \<union> queued qm) (waitRound first connected c queues qm)"
proof (cases "\<not> first \<and> \<not> connected")
  case True
  with ok show ?thesis by (auto simp: waitRound_def intro: handler_okI)
next
  case False
  show ?thesis
  proof (cases rule: GetPriorityJob_spec[OF local_okD(1)[OF ok], of queues])
    case 1
    with False ok show ?thesis by (auto simp: waitRound_def intro: handler_okI)
  next
    case (2 j qm')
    with False finishGet_ok[OF ok 2(4) 2(2) 2(7)] show ?thesis
      by (auto simp: waitRound_def simp del: cl_Jobs_simps intro: handler_okI)
  qed
qed

lemma handleGet_ok:
  assumes ok: "local_ok c qm" and w: "gr_Wait r \<noteq> None"
  shows "handler_ok qm (set (cl_Jobs c) \<union> queued qm) (handleGet c r qm)"
proof (cases rule: GetPriorityJob_spec[OF local_okD(1)[OF ok], of "gr_Queues r"])
  case 1
  from w ok 1 local_ok_same_jobs[OF ok, of "respond c x" for x] show ?thesis
    by (auto simp: handleGet_def split: bool.splits intro!: handler_okI)
next
  case (2 j qm')
  with finishGet_ok[OF ok 2(4) 2(2) 2(7)] show ?thesis
    by (auto simp: handleGet_def simp del: cl_Jobs_simps intro: handler_okI)
qed

lemma handleDelete_ok:
  assumes ok: "local_ok c qm"
  shows "case handleDelete c r qm of Panic \<Rightarrow> False | Ok (c', qm') \<Rightarrow>
    local_ok c' qm' \<and> qm_CurrentId qm' = qm_CurrentId qm \<and>
    set (cl_Jobs c') \<union> queued qm' = {j \<in> set (cl_Jobs c) \<union> queued qm. job_Id j \<noteq> dr_Id r}"
proof -
  note d = local_okD[OF ok]
  show ?thesis
  proof (cases "hasJob c (dr_Id r)")
    case (Some job)
    then have job: "job \<in> set (cl_Jobs c)" "job_Id job = dr_Id r" using hasJob_Some by blast+
    define c' where "c' = snd (deleteJob c (dr_Id r))"
    have jobs: "cl_Jobs c' = filter (\<lambda>j. job_Id j \<noteq> dr_Id r) (cl_Jobs c)"
      using deleteJob_spec(1)[OF d(2)] by (simp add: c'_def)
    then have "local_ok (respond c' x) qm" for x
      using d by (intro local_okI) (auto simp: distinct_map_filter)
    moreover have "job_Id k \<noteq> dr_Id r" if "k \<in> queued qm" for k using d(3)[OF job(1) that] job(2) by simp
    ultimately show ?thesis using Some job jobs
      by (auto simp: handleDelete_def Let_def c'_def split: prod.splits)
  next
    case None
    then have no: "\<forall>j \<in> set (cl_Jobs c). job_Id j \<noteq> dr_Id r" by (simp add: hasJob_None)
    show ?thesis
    proof (cases rule: DeleteJob_spec[OF d(1), of "dr_Id r"])
      case 1
      with None no ok local_ok_same_jobs[OF ok, of "respond c x" for x] show ?thesis
        by (auto simp: handleDelete_def Let_def)
    next
      case (2 k qm')
      have "j = k" if "j \<in> queued qm" "job_Id j = dr_Id r" for j
        using queued_unique[OF d(1) that(1) 2(4)] that(2) 2(5) by simp
      then have q: "queued qm' = {j \<in> queued qm. job_Id j \<noteq> dr_Id r}" using 2(5,6) by blast
      then have "local_ok (respond c x) qm'" for x
        using d 2(2) by (intro local_okI) auto
      with 2 None no q show ?thesis by (auto simp: handleDelete_def Let_def)
    qed
  qed
qed

lemma handleAbort_ok:
  assumes ok: "local_ok c qm"
  shows "case handleAbort c r qm of (c', qm') \<Rightarrow>
    local_ok c' qm' \<and> qm_CurrentId qm' = qm_CurrentId qm \<and>
    set (cl_Jobs c') \<union> queued qm' = set (cl_Jobs c) \<union> queued qm"
proof -
  note d = local_okD[OF ok]
  show ?thesis
  proof (cases "hasJob c (ar_Id r)")
    case None
    with local_ok_same_jobs[OF ok, of "respond c x" for x] show ?thesis
      by (auto simp: handleAbort_def handleError_def)
  next
    case (Some job)
    then have job: "job \<in> set (cl_Jobs c)" "job_Id job = ar_Id r" using hasJob_Some by blast+
    define c' qm' where "c' = snd (deleteJob c (job_Id job))" and "qm' = PutJob qm (job_Queue job) job"
    have jobs: "cl_Jobs c' = filter (\<lambda>j. job_Id j \<noteq> job_Id job) (cl_Jobs c)"
      using deleteJob_spec(1)[OF d(2)] by (simp add: c'_def)
    have "\<forall>k \<in> queued qm. job_Id k \<noteq> job_Id job" using d(3)[OF job(1)] by metis
    note put = PutJob_spec[OF d(1) this, folded qm'_def]
    have inj: "k = job" if "k \<in> set (cl_Jobs c)" "job_Id k = job_Id job" for k
      using d(2) that job(1) by (simp add: distinct_map inj_on_def)
    have "local_ok (respond c' x) qm'" for x
      using d put jobs by (intro local_okI) (auto simp: distinct_map_filter)
    moreover have "qm_CurrentId qm' = qm_CurrentId qm" by (simp add: qm'_def PutJob_def Let_def)
    moreover have "set (cl_Jobs c') \<union> queued qm' = set (cl_Jobs c) \<union> queued qm"
      using jobs put(2) job(1) inj by auto
    ultimately show ?thesis using Some by (simp add: handleAbort_def Let_def c'_def qm'_def)
  qed
qed

text \<open>The jobs a request leaves alive, out of those of its client and the manager.\<close>

fun jobsAfter :: "'c Request \<Rightarrow> 'c Job set \<Rightarrow> 'c Job set" where
  "jobsAfter (Delete r) J = {j \<in> J. job_Id j \<noteq> dr_Id r}"
| "jobsAfter _ J = J"

lemma messageDispatch_ok:
  assumes ok: "local_ok c qm" and r: "\<not> isPut r"
  shows "handler_ok qm (jobsAfter r (set (cl_Jobs c) \<union> queued qm)) (messageDispatch c r qm)"
proof (cases r)
  case (Put x)
  with r show ?thesis by simp
next
  case (Get x)
  have "handler_ok qm (set (cl_Jobs c) \<union> queued qm)
      (handleGet c (x\<lparr>gr_Wait := (case gr_Wait x of None \<Rightarrow> Some False | w \<Rightarrow> w)\<rparr>) qm)"
    by (rule handleGet_ok[OF ok]) (cases "gr_Wait x"; simp)
  with Get show ?thesis by (simp add: messageDispatch_def)
next
  case (Delete x)
  then show ?thesis using handleDelete_ok[OF ok, of x]
    by (auto simp: messageDispatch_def handler_ok_def split: outcome.splits)
next
  case (Abort x)
  then show ?thesis using handleAbort_ok[OF ok, of x]
    by (auto simp: messageDispatch_def handler_ok_def split: prod.splits)
next
  case (RequestError x)
  then show ?thesis using ok local_ok_same_jobs[OF ok, of "handleError c UnknownType"]
    by (simp add: messageDispatch_def handler_ok_def)
qed

section \<open>Every step keeps the system well-formed\<close>

text \<open>
  \<open>liveAfter\<close> is the effect a label announces: a new job enters, a deletion takes out the job with
  that id from the manager or from the hands of the client that asked, nothing else changes.
\<close>

fun liveAfter :: "'c System \<Rightarrow> 'c label \<Rightarrow> 'c Job set" where
  "liveAfter s (Created job) = insert job (liveJobs s)"
| "liveAfter s (Deleted cid i) =
     {j \<in> liveJobs s. \<not> (job_Id j = i \<and> (j \<in> queued (sys_qm s) \<or> j \<in> set (holdsOf s cid)))}"
| "liveAfter s Internal = liveJobs s"

lemma sys_ok_local:
  assumes ok: "sys_ok s" and c: "sys_client s cid = Some (c, pc)" and h: "holds (c, pc) = cl_Jobs c"
  shows "local_ok c (sys_qm s)"
proof -
  have "holdsOf s cid = cl_Jobs c" using c h by (simp add: holdsOf_def)
  with ok show ?thesis by (metis local_ok_def sys_ok_def)
qed

text \<open>A step made of one handler call: the client's jobs and the queued jobs change to \<open>J\<close>.\<close>

lemma handler_step:
  assumes ok: "sys_ok s" and c: "sys_client s cid = Some (c, pc)" and h: "holds (c, pc) = cl_Jobs c"
    and res: "handler_ok (sys_qm s) J (Ok (c', qm', p))" and J: "J \<subseteq> set (cl_Jobs c) \<union> queued (sys_qm s)"
    and t: "t = s\<lparr>sys_qm := qm', sys_client := (sys_client s)(cid \<mapsto> (c', pc'))\<rparr>"
    and h': "holds (c', pc') = cl_Jobs c'"
  shows "sys_ok t" and "liveJobs t = J \<union> (\<Union>d \<in> - {cid}. set (holdsOf s d))"
proof -
  have old: "holdsOf s cid = cl_Jobs c" using c h by (simp add: holdsOf_def)
  from res have l: "local_ok c' qm'" and i: "qm_CurrentId qm' = qm_CurrentId (sys_qm s)"
    and j: "set (cl_Jobs c') \<union> queued qm' = J" by (simp_all add: handler_ok_def)
  have cl: "sys_client t = (sys_client s)(cid := Some (c', pc'))" and q: "sys_qm t = qm'"
    by (simp_all add: t)
  have H: "cl_Jobs c' = (case Some (c', pc') of None \<Rightarrow> [] | Some y \<Rightarrow> holds y)" by (simp add: h')
  have m: "\<forall>k \<in> set (cl_Jobs c') \<union> queued qm'. k \<in> set (holdsOf s cid) \<union> queued (sys_qm s)"
    using j J old by auto
  show "sys_ok t"
    by (rule sys_ok_update[OF ok cl H]) (use l i m in \<open>auto simp: q local_ok_def\<close>)
  show "liveJobs t = J \<union> (\<Union>d \<in> - {cid}. set (holdsOf s d))"
    using liveJobs_update[OF cl H] j unfolding q by blast
qed

text \<open>Returning a job to the manager, on a disconnect or after \<open>GetNextId\<close>.\<close>

lemma put_step:
  assumes ok: "sys_ok s" and c: "sys_client s cid = Some x" and h: "holds x = js @ job # js'"
    and t: "t = s\<lparr>sys_qm := PutJob (sys_qm s) (job_Queue job) job, sys_client := (sys_client s)(cid \<mapsto> y)\<rparr>"
    and h': "holds y = js @ js'"
  shows "sys_ok t" and "liveJobs t = liveJobs s"
proof -
  have old: "holdsOf s cid = js @ job # js'" using c h by (simp add: holdsOf_def)
  have d: "distinct (map job_Id (js @ job # js'))" "qm_ok (sys_qm s)"
    "ids (set (js @ job # js')) \<inter> ids (queued (sys_qm s)) = {}"
    using ok unfolding sys_ok_def by (metis old)+
  then have "\<forall>k \<in> queued (sys_qm s). job_Id k \<noteq> job_Id job" unfolding ids_disjoint by auto
  note put = PutJob_spec[OF d(2) this]
  have i: "qm_CurrentId (PutJob (sys_qm s) (job_Queue job) job) = qm_CurrentId (sys_qm s)"
    by (simp add: PutJob_def Let_def)
  have cl: "sys_client t = (sys_client s)(cid := Some y)"
    and q: "sys_qm t = PutJob (sys_qm s) (job_Queue job) job" by (simp_all add: t)
  have H: "js @ js' = (case Some y of None \<Rightarrow> [] | Some y \<Rightarrow> holds y)" by (simp add: h')
  have n: "ids (set (js @ js')) \<inter> ids (insert job (queued (sys_qm s))) = {}"
  proof -
    have "job_Id a \<noteq> job_Id job" if "a \<in> set (js @ js')" for a
      using d(1) that by (auto simp: image_iff)
    with d(3) show ?thesis unfolding ids_disjoint by simp
  qed
  show "sys_ok t"
    by (rule sys_ok_update[OF ok cl H]) (use put i d(1) n old in \<open>auto simp: q\<close>)
  show "liveJobs t = liveJobs s"
    using liveJobs_update[OF cl H] liveJobs_split[of s cid] put(2) old unfolding q by auto
qed

lemma jc_step_ok:
  "jc_step s l t \<Longrightarrow> sys_ok s \<Longrightarrow> sys_ok t \<and> liveJobs t = liveAfter s l"
proof (induction rule: jc_step.induct)
  case (accept s cid)
  let ?t = "s\<lparr>sys_client := (sys_client s)(cid \<mapsto> (newClient, Ready))\<rparr>"
  have h: "holdsOf ?t = holdsOf s" using accept by (auto simp: holdsOf_def fun_eq_iff)
  then have "liveJobs ?t = liveJobs s" by (simp add: liveJobs_def)
  with accept h show ?case by (simp add: sys_ok_def)
next
  case (put_begin s cid c r job qm')
  let ?t = "s\<lparr>sys_qm := qm', sys_client := (sys_client s)(cid \<mapsto> (c, Storing job))\<rparr>"
  have b: "qm_CurrentId qm' = qm_CurrentId (sys_qm s) + 1" "job_Id job = qm_CurrentId (sys_qm s) + 1"
    "queued qm' = queued (sys_qm s)" "qm_ok qm'"
    using put_begin GetNextId_ok[of "sys_qm s"] GetNextId_queued[of "sys_qm s"]
    by (auto simp: putBegin_def GetNextId_def sys_ok_def)
  have old: "holdsOf s cid = cl_Jobs c" using put_begin by (simp add: holdsOf_def)
  have fresh: "\<forall>k \<in> liveJobs s. job_Id k \<noteq> job_Id job" using put_begin(3) b(2) by (auto simp: sys_ok_def)
  have d: "distinct (map job_Id (cl_Jobs c))" "ids (set (cl_Jobs c)) \<inter> ids (queued (sys_qm s)) = {}"
    using put_begin(3) unfolding sys_ok_def by (metis old)+
  have live: "set (cl_Jobs c) \<subseteq> liveJobs s" "queued (sys_qm s) \<subseteq> liveJobs s"
    using liveJobs_split[of s cid] old by auto
  have H: "cl_Jobs c @ [job] = (case Some (c, Storing job) of None \<Rightarrow> [] | Some y \<Rightarrow> holds y)" by simp
  have "sys_ok ?t"
    by (rule sys_ok_update[OF put_begin(3) _ H]) (use b d live fresh old in \<open>auto simp: ids_disjoint\<close>)
  moreover have "liveJobs ?t = insert job (liveJobs s)"
    using liveJobs_update[OF _ H, of ?t s cid] liveJobs_split[of s cid] old b(3) by auto
  ultimately show ?case by simp
next
  case (put_end s cid c job c' qm')
  then have e: "c' = respond c (PutResponse ''ok'' (job_Id job))" "qm' = PutJob (sys_qm s) (job_Queue job) job"
    by (auto simp: putEnd_def)
  from put_step[OF put_end(3,1), of "cl_Jobs c" job "[]" _ "(c', Ready)"] e show ?case by simp
next
  case (request s cid c r c' qm' p)
  note l = sys_ok_local[OF request(4,1)]
  from messageDispatch_ok[OF l request(2)] request(3)
  have h: "handler_ok (sys_qm s) (jobsAfter r (set (cl_Jobs c) \<union> queued (sys_qm s))) (Ok (c', qm', p))" by simp
  have sub: "jobsAfter r J \<subseteq> J" for J by (cases r) auto
  note st = handler_step[OF request(4,1) _ h sub refl, of "controlAfter p"]
  have old: "holdsOf s cid = cl_Jobs c" using request by (simp add: holdsOf_def)
  have split: "liveJobs s = queued (sys_qm s) \<union> set (cl_Jobs c) \<union> (\<Union>d \<in> - {cid}. set (holdsOf s d))"
    using liveJobs_split[of s cid] old by simp
  show ?case
  proof (cases r)
    case (Delete x)
    have "k \<notin> queued (sys_qm s)" "k \<notin> set (cl_Jobs c)" if "d \<noteq> cid" "k \<in> set (holdsOf s d)" for d k
      using request(4) that old unfolding sys_ok_def by (metis disjoint_iff imageI)+
    with st Delete split old show ?thesis by auto
  qed (use st split in auto)
next
  case (bad_line s cid c e)
  let ?t = "s\<lparr>sys_client := (sys_client s)(cid \<mapsto> (handleError c (ParseFailed e), Ready))\<rparr>"
  have h: "holdsOf ?t = holdsOf s" using bad_line by (auto simp: holdsOf_def fun_eq_iff)
  then have "liveJobs ?t = liveJobs s" by (simp add: liveJobs_def)
  with bad_line h show ?case by (simp add: sys_ok_def)
next
  case (wait s cid c first queues connected c' qm' p)
  note l = sys_ok_local[OF wait(3,1)]
  from waitRound_ok[OF l, of first connected queues] wait(2)
  have h: "handler_ok (sys_qm s) (set (cl_Jobs c) \<union> queued (sys_qm s)) (Ok (c', qm', p))" by simp
  note st = handler_step[OF wait(3,1) _ h subset_refl refl, of "controlInWait p"]
  have "holdsOf s cid = cl_Jobs c" using wait by (simp add: holdsOf_def)
  with st liveJobs_split[of s cid] show ?case by auto
next
  case (leave s cid c)
  let ?t = "s\<lparr>sys_client := (sys_client s)(cid \<mapsto> (c\<lparr>cl_Jobs := []\<rparr>, Leaving (cl_Jobs c)))\<rparr>"
  have h: "holdsOf ?t = holdsOf s" using leave by (auto simp: holdsOf_def fun_eq_iff)
  then have "liveJobs ?t = liveJobs s" by (simp add: liveJobs_def)
  with leave h show ?case by (simp add: sys_ok_def)
next
  case (return_one s cid c job rest)
  from put_step[OF return_one(2,1), of "[]" job rest _ "(c, Leaving rest)"] show ?case by simp
next
  case (gone s cid c)
  let ?t = "s\<lparr>sys_client := (sys_client s)(cid := None)\<rparr>"
  have h: "holdsOf ?t = holdsOf s" using gone by (auto simp: holdsOf_def fun_eq_iff)
  then have "liveJobs ?t = liveJobs s" by (simp add: liveJobs_def)
  with gone h show ?case by (simp add: sys_ok_def)
qed

lemma initSystem_ok: "sys_ok initSystem"
  by (simp add: sys_ok_def initSystem_def NewQueueManager_ok holdsOf_def liveJobs_def)

lemma jc_run_ok: "jc_run s ls t \<Longrightarrow> sys_ok s \<Longrightarrow> sys_ok t"
  by (induction rule: jc_run.induct) (use jc_step_ok in blast)+

section \<open>Properties of the job centre\<close>

text \<open>A run for the witnesses: client 0 connects and its put request is stored.\<close>

definition demo_put :: "nat PutRequest" where
  "demo_put = \<lparr>pr_Request = ''put'', pr_Queue = ''q'', pr_Job = 7, pr_Priority = 3\<rparr>"

definition demo_job :: "nat Job" where
  "demo_job = \<lparr>job_Priority = 3, job_Id = 1, job_Content = 7, job_Queue = ''q''\<rparr>"

lemma demo_run:
  obtains s c where "jc_run initSystem [Internal, Created demo_job, Internal] s"
    "demo_job \<in> queued (sys_qm s)" "sys_client s 0 = Some (c, Ready)"
proof -
  define s1 :: "nat System" where
    "s1 = initSystem\<lparr>sys_client := (sys_client initSystem)(0 \<mapsto> (newClient, Ready))\<rparr>"
  define qm where "qm = snd (putBegin demo_put (sys_qm s1))"
  define s2 where "s2 = s1\<lparr>sys_qm := qm, sys_client := (sys_client s1)(0 \<mapsto> (newClient, Storing demo_job))\<rparr>"
  define r where "r = putEnd newClient (job_Queue demo_job) demo_job (sys_qm s2)"
  define s3 where "s3 = s2\<lparr>sys_qm := snd r, sys_client := (sys_client s2)(0 \<mapsto> (fst r, Ready))\<rparr>"
  have 1: "jc_run initSystem ([] @ [Internal]) s1"
    unfolding s1_def by (intro jc_run.step[OF jc_run.start] jc_step.accept) (simp add: initSystem_def)
  have p: "putBegin demo_put (sys_qm s1) = (demo_job, qm)"
    by (simp add: qm_def putBegin_def GetNextId_def demo_put_def demo_job_def s1_def initSystem_def
        NewQueueManager_def)
  have 2: "jc_run initSystem (([] @ [Internal]) @ [Created demo_job]) s2"
    unfolding s2_def by (rule jc_run.step[OF 1 jc_step.put_begin[OF _ p]]) (simp add: s1_def)
  have c2: "sys_client s2 0 = Some (newClient, Storing demo_job)" by (simp add: s2_def)
  have 3: "jc_run initSystem ((([] @ [Internal]) @ [Created demo_job]) @ [Internal]) s3"
    unfolding s3_def
    by (rule jc_run.step[OF 2 jc_step.put_end[OF c2, of "fst r" "snd r"]]) (simp add: r_def)
  have q: "qm_ok qm" "queued qm = {}"
    using GetNextId_ok[OF NewQueueManager_ok] GetNextId_queued[of NewQueueManager]
    by (simp_all add: qm_def putBegin_def Let_def split_def s1_def initSystem_def)
  then have "demo_job \<in> queued (sys_qm s3)"
    using PutJob_spec(2)[of qm demo_job] by (simp add: s3_def r_def putEnd_def s2_def)
  with 3 that[of s3 "fst r"] show ?thesis by (simp add: s3_def)
qed

text \<open>C2: In every reachable state of the server, under every interleaving of its clients, a job id
  denotes one live job, and that job is in exactly one place: queued, or in the hands of exactly one
  client, once.\<close>

theorem job_in_one_place:
  assumes "jc_run initSystem ls s"
  shows "(\<forall>j \<in> liveJobs s. \<forall>k \<in> liveJobs s. job_Id j = job_Id k \<longrightarrow> j = k) \<and>
    (\<forall>cid. distinct (map job_Id (holdsOf s cid)) \<and> set (holdsOf s cid) \<inter> queued (sys_qm s) = {}) \<and>
    (\<forall>c d. c \<noteq> d \<longrightarrow> set (holdsOf s c) \<inter> set (holdsOf s d) = {})"
proof -
  have ok: "sys_ok s" using jc_run_ok[OF assms initSystem_ok] .
  then have qm: "qm_ok (sys_qm s)" and d: "\<And>c. distinct (map job_Id (holdsOf s c))"
    and q: "\<And>c j k. j \<in> set (holdsOf s c) \<Longrightarrow> k \<in> queued (sys_qm s) \<Longrightarrow> job_Id j \<noteq> job_Id k"
    and h: "\<And>c d j k. c \<noteq> d \<Longrightarrow> j \<in> set (holdsOf s c) \<Longrightarrow> k \<in> set (holdsOf s d) \<Longrightarrow> job_Id j \<noteq> job_Id k"
    unfolding sys_ok_def ids_disjoint by blast+
  have same: "j = k" if "j \<in> set (holdsOf s c)" "k \<in> set (holdsOf s c)" "job_Id j = job_Id k" for c j k
    using d[of c] that by (simp add: distinct_map inj_on_def)
  have "j = k" if "j \<in> liveJobs s" "k \<in> liveJobs s" "job_Id j = job_Id k" for j k
  proof -
    have place: "x \<in> queued (sys_qm s) \<or> (\<exists>c. x \<in> set (holdsOf s c))" if "x \<in> liveJobs s" for x
      using that by (auto simp: liveJobs_def)
    from place[OF that(1)] place[OF that(2)] show ?thesis
    proof (elim disjE exE)
      assume "j \<in> queued (sys_qm s)" "k \<in> queued (sys_qm s)"
      then show ?thesis using queued_unique[OF qm] that(3) by blast
    next
      fix c assume "j \<in> queued (sys_qm s)" "k \<in> set (holdsOf s c)"
      then show ?thesis using q that(3) by metis
    next
      fix c assume "j \<in> set (holdsOf s c)" "k \<in> queued (sys_qm s)"
      then show ?thesis using q that(3) by metis
    next
      fix c d assume "j \<in> set (holdsOf s c)" "k \<in> set (holdsOf s d)"
      then show ?thesis using h[of c d j k] same[of j c k] that(3) by (cases "c = d") auto
    qed
  qed
  moreover have "set (holdsOf s c) \<inter> queued (sys_qm s) = {}" for c using q by blast
  moreover have "set (holdsOf s c) \<inter> set (holdsOf s d) = {}" if "c \<noteq> d" for c d using h[OF that] by blast
  ultimately show ?thesis using d by blast
qed

theorem job_in_one_place_witness:
  "\<exists>ls (s :: nat System). jc_run initSystem ls s \<and> demo_job \<in> liveJobs s \<and> demo_job \<notin> set (holdsOf s 0)"
proof -
  obtain s c where s: "jc_run initSystem [Internal, Created demo_job, Internal] s"
      "demo_job \<in> queued (sys_qm s)" by (rule demo_run)
  have "set (holdsOf s 0) \<inter> queued (sys_qm s) = {}" using job_in_one_place[OF s(1)] by blast
  with s(2) have "demo_job \<notin> set (holdsOf s 0)" by blast
  moreover have "demo_job \<in> liveJobs s" using s(2) by (simp add: liveJobs_def)
  ultimately show ?thesis using s(1) by blast
qed

text \<open>C3: In every reachable state no handler panics: any request of a client that is ready to be served,
  and any round of a waiting client, returns normally (no missing map entry, no nil pointer).\<close>

theorem handlers_never_panic:
  assumes "jc_run initSystem ls s"
  shows "(\<forall>cid c r. sys_client s cid = Some (c, Ready) \<longrightarrow> messageDispatch c r (sys_qm s) \<noteq> Panic) \<and>
    (\<forall>cid c first queues connected. sys_client s cid = Some (c, Waiting first queues) \<longrightarrow>
       waitRound first connected c queues (sys_qm s) \<noteq> Panic)"
proof -
  have ok: "sys_ok s" using jc_run_ok[OF assms initSystem_ok] .
  have "messageDispatch c r (sys_qm s) \<noteq> Panic" if "sys_client s cid = Some (c, Ready)" for cid c r
  proof (cases "isPut r")
    case True
    then show ?thesis by (cases r) (auto simp: messageDispatch_def split: prod.splits)
  next
    case False
    from messageDispatch_ok[OF sys_ok_local[OF ok that] this] show ?thesis
      by (auto simp: handler_ok_def)
  qed
  moreover have "waitRound first connected c queues (sys_qm s) \<noteq> Panic"
    if "sys_client s cid = Some (c, Waiting first queues)" for cid c first queues connected
    using waitRound_ok[OF sys_ok_local[OF ok that], of first connected queues]
    by (auto simp: handler_ok_def)
  ultimately show ?thesis by blast
qed

theorem handlers_never_panic_witness:
  "\<exists>(s :: nat System) c. sys_client s 0 = Some (c, Ready) \<and>
     messageDispatch c (Delete \<lparr>dr_Request = ''delete'', dr_Id = 1\<rparr>) (sys_qm s) \<noteq> Panic"
proof -
  obtain s c where s: "jc_run initSystem [Internal, Created demo_job, Internal] s"
      "sys_client s 0 = Some (c, Ready)" by (rule demo_run)
  with handlers_never_panic[OF s(1)] show ?thesis by blast
qed

lemma run_keeps_jobs:
  "jc_run s ls t \<Longrightarrow> sys_ok s \<Longrightarrow> j \<in> liveJobs s \<Longrightarrow> (\<And>cid. Deleted cid (job_Id j) \<notin> set ls) \<Longrightarrow>
   j \<in> liveJobs t"
proof (induction rule: jc_run.induct)
  case (start s)
  then show ?case by simp
next
  case (step s ls t l u)
  then have t: "j \<in> liveJobs t" "sys_ok t" using jc_run_ok by auto
  have "liveJobs u = liveAfter t l" using jc_step_ok[OF step(2) t(2)] by blast
  moreover have "l \<noteq> Deleted cid (job_Id j)" for cid using step(6)[of cid] by auto
  ultimately show ?case using t(1) by (cases l) auto
qed

text \<open>C1: No job is lost: from any reachable state, whatever the clients do afterwards (get, abort, wait,
  disconnect in any order), a live job stays live unless a delete request names its id.\<close>

theorem no_job_lost:
  assumes "jc_run initSystem ls s" and "jc_run s ls' t" and "j \<in> liveJobs s"
    and "\<forall>cid. Deleted cid (job_Id j) \<notin> set ls'"
  shows "j \<in> liveJobs t"
  using run_keeps_jobs[OF assms(2) jc_run_ok[OF assms(1) initSystem_ok] assms(3)] assms(4) by blast

theorem no_job_lost_witness:
  "\<exists>(s :: nat System) t. jc_run s [Internal] t \<and> sys_client t \<noteq> sys_client s \<and> demo_job \<in> liveJobs t"
proof -
  obtain s c where s: "jc_run initSystem [Internal, Created demo_job, Internal] s"
      "demo_job \<in> queued (sys_qm s)" "sys_client s 0 = Some (c, Ready)" by (rule demo_run)
  let ?t = "s\<lparr>sys_client := (sys_client s)(0 \<mapsto> (c\<lparr>cl_Jobs := []\<rparr>, Leaving (cl_Jobs c)))\<rparr>"
  have run: "jc_run s ([] @ [Internal]) ?t" by (rule jc_run.step[OF jc_run.start jc_step.leave[OF s(3)]])
  have "demo_job \<in> liveJobs s" using s(2) by (simp add: liveJobs_def)
  from no_job_lost[OF s(1) run this] have "demo_job \<in> liveJobs ?t" by simp
  moreover have "sys_client ?t \<noteq> sys_client s" using s(3) by (auto dest: fun_cong[of _ _ 0])
  ultimately show ?thesis using run by (metis append_Nil)
qed

end
