(* ===== verification/LR_Message.thy ===== *)
theory LR_Message
  imports Go_Strings
begin

text \<open>
  \<open>internal/linereversal/linereversal_message.go\<close>: the messages of the line reversal protocol,
  their text form, the decoder with its escape handling, and the routine that packs a prefix of
  the outgoing data into one datagram. \<open>UnescapeData\<close> of \<open>session.go\<close> is here too, because it
  inverts the packing.

  The decoder is the code's loop over the buffer: its test on \<open>buffer[i-1]\<close> is the argument that
  carries the byte before the rest of the buffer.
\<close>

section \<open>Messages\<close>

definition slash :: char where "slash = CHR 0x2F"
definition bslash :: char where "bslash = CHR 0x5C"
definition newline :: char where "newline = CHR 0x0A"

definition maxInteger :: int where "maxInteger = 2147483647"
definition maxMessageSize :: int where "maxMessageSize = 999"

record LRMessage =
  lr_Type :: string
  lr_Session :: int
  lr_Position :: int
  lr_Data :: string
  lr_Length :: int

text \<open>The composite literals of the code leave the fields they do not name at zero.\<close>

definition plainMessage :: "string \<Rightarrow> int \<Rightarrow> LRMessage" where
  "plainMessage ty session =
     \<lparr>lr_Type = ty, lr_Session = session, lr_Position = 0, lr_Data = [], lr_Length = 0\<rparr>"

definition Validate :: "LRMessage \<Rightarrow> bool" where
  "Validate m =
     (if lr_Session m < 0 \<or> lr_Session m > maxInteger then False
      else if (lr_Type m = ''connect'' \<or> lr_Type m = ''close'') \<and>
              (lr_Position m \<noteq> 0 \<or> lr_Length m \<noteq> 0 \<or> length (lr_Data m) \<noteq> 0) then False
      else if lr_Type m = ''ack'' \<and> (lr_Length m < 0 \<or> lr_Length m > maxInteger) then False
      else if lr_Type m = ''ack'' \<and> lr_Position m \<noteq> 0 then False
      else if lr_Type m = ''data'' \<and> (lr_Position m > maxInteger \<or> lr_Position m < 0) then False
      else if lr_Type m = ''data'' \<and> lr_Length m \<noteq> 0 then False
      else if lr_Type m = ''data'' \<and> lr_Position m + int (length (lr_Data m)) > maxInteger then False
      else True)"

text \<open>The text built by the \<open>switch\<close> of \<open>Encode\<close>; \<open>None\<close> is its default case, an error.\<close>

definition wireText :: "LRMessage \<Rightarrow> string option" where
  "wireText m =
     (if lr_Type m = ''connect'' then Some (''/connect/'' @ itoa (lr_Session m) @ ''/'')
      else if lr_Type m = ''ack'' then
        Some (''/ack/'' @ itoa (lr_Session m) @ ''/'' @ itoa (lr_Length m) @ ''/'')
      else if lr_Type m = ''data'' then
        Some (''/data/'' @ itoa (lr_Session m) @ ''/'' @ itoa (lr_Position m) @ ''/'' @ lr_Data m @ ''/'')
      else if lr_Type m = ''close'' then Some (''/close/'' @ itoa (lr_Session m) @ ''/'')
      else None)"

text \<open>
  \<open>Encode\<close> appends to the given slice and returns the new length; the second component is what
  \<open>append\<close> wrote, which the caller's backing array holds as long as the length is within its
  capacity.
\<close>

definition Encode :: "LRMessage \<Rightarrow> string \<Rightarrow> (nat \<times> string) option" where
  "Encode m buffer =
     (case wireText m of
        None \<Rightarrow> None
      | Some data \<Rightarrow> (let copied = buffer @ data in Some (length copied, copied)))"

section \<open>Decoding\<close>

datatype decodeError =
    EmptyMessage | BadDelimiters | BadFormat | BadSession string | BadAckFormat | BadLength string
  | BadDataFormat | BadPosition string | FailedValidation LRMessage

text \<open>
  The loop of \<open>DecodeLRMessage\<close> at index \<open>i\<close>: \<open>prev\<close> is \<open>buffer[i-1]\<close> (\<open>None\<close> at index 0), the list
  is \<open>buffer[i:]\<close>, \<open>sb\<close> the string builder. What is left in \<open>sb\<close> when the buffer ends is dropped.
\<close>

function decodeFields :: "char option \<Rightarrow> string \<Rightarrow> string \<Rightarrow> string list \<Rightarrow> string list" where
  "decodeFields prev [] sb parts = parts"
| "decodeFields prev (c # rest) sb parts =
     (if c = slash \<and> prev \<noteq> Some bslash then
        (if sb = [] then decodeFields (Some c) rest sb parts
         else decodeFields (Some c) rest [] (parts @ [sb]))
      else if c = bslash \<and> rest \<noteq> [] \<and> (hd rest = slash \<or> hd rest = bslash) then
        decodeFields (Some (hd rest)) (tl rest) (sb @ [hd rest]) parts
      else decodeFields (Some c) rest (sb @ [c]) parts)"
  by pat_completeness auto
termination
  by (relation "measure (\<lambda>(prev, rest, sb, parts). length rest)") auto

definition constructLRMessage :: "string list \<Rightarrow> decodeError + LRMessage" where
  "constructLRMessage parts =
     (if length parts < 2 then Inl BadFormat
      else
        (case atoi (parts ! 1) of
           None \<Rightarrow> Inl (BadSession (parts ! 1))
         | Some session \<Rightarrow>
             let message = plainMessage (parts ! 0) session in
             if parts ! 0 = ''ack'' then
               (if length parts \<noteq> 3 then Inl BadAckFormat
                else case atoi (parts ! 2) of
                       None \<Rightarrow> Inl (BadLength (parts ! 2))
                     | Some len \<Rightarrow> Inr (message\<lparr>lr_Length := len\<rparr>))
             else if parts ! 0 = ''data'' then
               (if length parts \<noteq> 4 then Inl BadDataFormat
                else case atoi (parts ! 2) of
                       None \<Rightarrow> Inl (BadPosition (parts ! 2))
                     | Some position \<Rightarrow> Inr (message\<lparr>lr_Position := position, lr_Data := parts ! 3\<rparr>))
             else Inr message))"

definition DecodeLRMessage :: "string \<Rightarrow> decodeError + LRMessage" where
  "DecodeLRMessage buffer =
     (if buffer = [] then Inl EmptyMessage
      else if hd buffer \<noteq> slash \<or> last buffer \<noteq> slash then Inl BadDelimiters
      else
        (case constructLRMessage (decodeFields None buffer [] []) of
           Inl err \<Rightarrow> Inl err
         | Inr message \<Rightarrow> if Validate message then Inr message else Inl (FailedValidation message)))"

section \<open>Packing and unescaping data\<close>

definition needsEscape :: "char \<Rightarrow> bool" where
  "needsEscape b \<longleftrightarrow> b = slash \<or> b = bslash"

text \<open>
  The loop of \<open>PackDataMessage\<close>: remaining data, \<open>message.Data\<close>, \<open>currentEscapedLen\<close> and \<open>dataLength\<close>.
\<close>

fun packLoop :: "int \<Rightarrow> string \<Rightarrow> string \<Rightarrow> int \<Rightarrow> nat \<Rightarrow> string \<times> nat" where
  "packLoop maxDataSize [] out cur n = (out, n)"
| "packLoop maxDataSize (b # bs) out cur n =
     (let bytesToAdd = (if needsEscape b then 2 else 1) in
      if cur + bytesToAdd > maxDataSize then (out, n)
      else packLoop maxDataSize bs
             (out @ (if needsEscape b then [bslash] else []) @ [b]) (cur + bytesToAdd) (n + 1))"

definition packOverhead :: "int \<Rightarrow> int \<Rightarrow> int" where
  "packOverhead session startPosition =
     9 + int (length (itoa session)) + int (length (itoa startPosition))"

definition PackDataMessage :: "LRMessage \<Rightarrow> string \<Rightarrow> int \<Rightarrow> LRMessage \<times> nat" where
  "PackDataMessage message data startPosition =
     (let maxDataSize = maxMessageSize - packOverhead (lr_Session message) startPosition;
          (out, dataLength) = packLoop maxDataSize data (lr_Data message) 0 0
      in (message\<lparr>lr_Data := out, lr_Position := startPosition\<rparr>, dataLength))"

text \<open>\<open>UnescapeData\<close>; \<open>None\<close> is its error, data that ends in an escaping backslash.\<close>

function unescapeLoop :: "string \<Rightarrow> string \<Rightarrow> string option" where
  "unescapeLoop [] out = Some out"
| "unescapeLoop (c # rest) out =
     (if rest = [] \<and> c = bslash then None
      else if c = bslash \<and> rest \<noteq> [] \<and> (hd rest = slash \<or> hd rest = bslash) then
        unescapeLoop (tl rest) (out @ [hd rest])
      else unescapeLoop rest (out @ [c]))"
  by pat_completeness auto
termination
  by (relation "measure (\<lambda>(rest, out). length rest)") auto

definition UnescapeData :: "string \<Rightarrow> string option" where
  "UnescapeData data = unescapeLoop data []"

section \<open>Facts on the text form\<close>

text \<open>The escaped form of a byte string, the specification of what a peer puts in a data field.\<close>

definition escape :: "string \<Rightarrow> string" where
  "escape s = concat (map (\<lambda>b. if needsEscape b then [bslash, b] else [b]) s)"

lemma escape_simps [simp]:
  "escape [] = []"
  "escape (b # bs) = (if needsEscape b then [bslash, b] else [b]) @ escape bs"
  "escape (xs @ ys) = escape xs @ escape ys"
  by (simp_all add: escape_def)

lemma escape_Nil_iff [simp]: "escape s = [] \<longleftrightarrow> s = []"
  by (cases s) auto

lemma length_escape_ge: "length s \<le> length (escape s)"
  by (induction s) auto

lemma length_escape_le: "length (escape s) \<le> 2 * length s"
  by (induction s) auto

lemma slash_ne_bslash [simp]: "slash \<noteq> bslash" "bslash \<noteq> slash"
  by (simp_all add: slash_def bslash_def)

lemma unescapeLoop_escape: "unescapeLoop (escape s) out = Some (out @ s)"
  by (induction s arbitrary: out) (auto simp: needsEscape_def split: if_splits)

lemma UnescapeData_escape [simp]: "UnescapeData (escape s) = Some s"
  by (simp add: UnescapeData_def unescapeLoop_escape)

lemma unescapeLoop_plain: "bslash \<notin> set s \<Longrightarrow> unescapeLoop s out = Some (out @ s)"
  by (induction s arbitrary: out) auto

lemma unescapeLoop_length: "unescapeLoop s out = Some t \<Longrightarrow> length t \<le> length out + length s"
proof (induction s out arbitrary: t rule: unescapeLoop.induct)
  case (2 c rest out)
  then show ?case by (cases rest) (fastforce split: if_splits)+
qed simp

lemma UnescapeData_length: "UnescapeData s = Some t \<Longrightarrow> length t \<le> length s"
  unfolding UnescapeData_def by (drule unescapeLoop_length) simp

section \<open>Packing\<close>

lemma packLoop_spec:
  "\<exists>k \<le> length data.
     packLoop mx data out cur n = (out @ escape (take k data), n + k) \<and>
     (cur \<le> mx \<longrightarrow> cur + int (length (escape (take k data))) \<le> mx) \<and>
     (k < length data \<longrightarrow> cur + int (length (escape (take (Suc k) data))) > mx)"
proof (induction data arbitrary: out cur n)
  case Nil
  then show ?case by simp
next
  case (Cons b bs)
  define add where "add = (if needsEscape b then 2 else 1 :: int)"
  show ?case
  proof (cases "cur + add > mx")
    case True
    then show ?thesis by (intro exI[of _ 0]) (auto simp: add_def split: if_splits)
  next
    case False
    define e where "e = (if needsEscape b then [bslash, b] else [b])"
    have e: "int (length e) = add" by (simp add: e_def add_def)
    from Cons.IH[of "out @ e" "cur + add" "n + 1"] obtain k where
      "k \<le> length bs" "packLoop mx bs (out @ e) (cur + add) (n + 1) = ((out @ e) @ escape (take k bs), n + 1 + k)"
      "cur + add + int (length (escape (take k bs))) \<le> mx"
      "k < length bs \<longrightarrow> cur + add + int (length (escape (take (Suc k) bs))) > mx"
      using False by auto
    then show ?thesis using False e
      by (intro exI[of _ "Suc k"]) (auto simp: add_def e_def Let_def split: if_splits)
  qed
qed

lemma length_itoa: "0 \<le> n \<Longrightarrow> n \<le> maxInteger \<Longrightarrow> length (itoa n) \<le> 10"
  using length_natDigits[of "nat n" 10] by (simp add: itoa_def maxInteger_def)

lemma length_wire_data:
  "lr_Type m = ''data'' \<Longrightarrow> \<exists>w. wireText m = Some w \<and>
     int (length w) = packOverhead (lr_Session m) (lr_Position m) + int (length (lr_Data m))"
  by (simp add: wireText_def packOverhead_def)

lemma PackDataMessage_spec:
  assumes "lr_Type m = ''data''" "lr_Data m = []"
    and "0 \<le> lr_Session m" "lr_Session m \<le> maxInteger" "0 \<le> p" "p \<le> maxInteger"
  shows "\<exists>k \<le> length data. PackDataMessage m data p = (m\<lparr>lr_Data := escape (take k data), lr_Position := p\<rparr>, k) \<and>
           (data \<noteq> [] \<longrightarrow> 0 < k) \<and>
           packOverhead (lr_Session m) p + int (length (escape (take k data))) \<le> maxMessageSize \<and>
           (k < length data \<longrightarrow>
              packOverhead (lr_Session m) p + int (length (escape (take (Suc k) data))) > maxMessageSize)"
proof -
  define mx where "mx = maxMessageSize - packOverhead (lr_Session m) p"
  have mx: "mx \<ge> 970"
    using assms length_itoa[of "lr_Session m"] length_itoa[of p]
    by (simp add: mx_def packOverhead_def maxMessageSize_def)
  obtain k where k: "k \<le> length data" "packLoop mx data [] 0 0 = ([] @ escape (take k data), 0 + k)"
    "int (length (escape (take k data))) \<le> mx"
    "k < length data \<longrightarrow> int (length (escape (take (Suc k) data))) > mx"
    using packLoop_spec[of data mx "[]" 0 0] mx by auto
  have "0 < k" if "data \<noteq> []"
  proof (rule ccontr)
    assume "\<not> 0 < k"
    with k(4) that have "int (length (escape (take 1 data))) > mx" by simp
    moreover have "length (escape (take 1 data)) \<le> 2"
      using length_escape_le[of "take 1 data"] by (cases data) auto
    ultimately show False using mx by simp
  qed
  with k show ?thesis
    unfolding mx_def by (intro exI[of _ k]) (auto simp: PackDataMessage_def assms(2))
qed

section \<open>Decoding the text form\<close>

text \<open>A field with neither a slash nor a backslash, followed by its delimiter.\<close>

lemma decodeFields_plain:
  assumes "slash \<notin> set f" "bslash \<notin> set f" "prev \<noteq> Some bslash"
  shows "decodeFields prev (f @ slash # rest) sb fs =
         decodeFields (Some slash) rest [] (if sb @ f = [] then fs else fs @ [sb @ f])"
  using assms
proof (induction f arbitrary: prev sb)
  case Nil
  then show ?case by simp
next
  case (Cons c f)
  have "decodeFields prev ((c # f) @ slash # rest) sb fs = decodeFields (Some c) (f @ slash # rest) (sb @ [c]) fs"
    using Cons.prems by auto
  also have "\<dots> = decodeFields (Some slash) rest [] (fs @ [sb @ [c] @ f])"
    using Cons.prems by (subst Cons.IH) auto
  finally show ?case by simp
qed

text \<open>An escaped field puts the original bytes in the builder.\<close>

lemma decodeFields_escape:
  "rest \<noteq> [] \<Longrightarrow> hd rest = slash \<Longrightarrow> 
   decodeFields prev (escape d @ rest) sb fs =
   decodeFields (if d = [] then prev else Some (last d)) rest (sb @ d) fs"
proof (induction d arbitrary: prev sb)
  case Nil
  then show ?case by simp
next
  case (Cons c d)
  show ?case
  proof (cases "needsEscape c")
    case True
    then have "decodeFields prev (escape (c # d) @ rest) sb fs = decodeFields (Some c) (escape d @ rest) (sb @ [c]) fs"
      by (auto simp: needsEscape_def)
    with Cons show ?thesis by simp
  next
    case False
    then have "decodeFields prev (escape (c # d) @ rest) sb fs = decodeFields (Some c) (escape d @ rest) (sb @ [c]) fs"
      by (auto simp: needsEscape_def)
    with Cons show ?thesis by simp
  qed
qed

lemma itoa_plain:
  "0 \<le> n \<Longrightarrow> slash \<notin> set (itoa n)" "0 \<le> n \<Longrightarrow> bslash \<notin> set (itoa n)"
  using natDigits_isDigit[of slash "nat n"] natDigits_isDigit[of bslash "nat n"]
  by (auto simp: itoa_def isDigit_def byte_of_def slash_def bslash_def)

lemma itoa_ne [simp]: "itoa n \<noteq> []"
  by (simp add: itoa_def)

lemma decodeFields_number:
  "0 \<le> n \<Longrightarrow> decodeFields (Some slash) (itoa n @ slash # rest) [] fs =
              decodeFields (Some slash) rest [] (fs @ [itoa n])"
  by (simp add: decodeFields_plain itoa_plain)

lemma decodeFields_word:
  assumes "w \<in> {''connect'', ''close'', ''ack'', ''data''}"
  shows "decodeFields None (slash # w @ slash # rest) [] [] = decodeFields (Some slash) rest [] [w]"
proof -
  have "slash \<notin> set w" "bslash \<notin> set w" "w \<noteq> []" using assms by (auto simp: slash_def bslash_def)
  then have "decodeFields (Some slash) (w @ slash # rest) [] [] = decodeFields (Some slash) rest [] [w]"
    by (subst decodeFields_plain) auto
  then show ?thesis by simp
qed

lemma atoi_bounded: "0 \<le> n \<Longrightarrow> n \<le> maxInteger \<Longrightarrow> atoi (itoa n) = Some n"
  by (rule atoi_itoa) (simp_all add: maxInteger_def)

lemma wireText_shape:
  "lr_Type m = ''connect'' \<Longrightarrow> wireText m = Some (slash # ''connect'' @ slash # itoa (lr_Session m) @ [slash])"
  "lr_Type m = ''close'' \<Longrightarrow> wireText m = Some (slash # ''close'' @ slash # itoa (lr_Session m) @ [slash])"
  "lr_Type m = ''ack'' \<Longrightarrow> wireText m =
     Some (slash # ''ack'' @ slash # itoa (lr_Session m) @ slash # itoa (lr_Length m) @ [slash])"
  "lr_Type m = ''data'' \<Longrightarrow> wireText m =
     Some (slash # ''data'' @ slash # itoa (lr_Session m) @ slash # itoa (lr_Position m) @ slash # lr_Data m @ [slash])"
  by (simp_all add: wireText_def slash_def)

lemma decode_delimited:
  assumes "decodeFields None w [] [] = fs" "w = slash # body @ [slash]" "constructLRMessage fs = Inr m" "Validate m"
  shows "DecodeLRMessage w = Inr m"
  using assms by (simp add: DecodeLRMessage_def del: decodeFields.simps)

lemma decode_delimited_error:
  assumes "decodeFields None w [] [] = fs" "w = slash # body @ [slash]" "constructLRMessage fs = Inl e"
  shows "DecodeLRMessage w = Inl e"
  using assms by (simp add: DecodeLRMessage_def del: decodeFields.simps)

lemma decodeFields_control:
  assumes "w \<in> {''connect'', ''close''}" "0 \<le> s"
  shows "decodeFields None (slash # w @ slash # itoa s @ [slash]) [] [] = [w, itoa s]"
  using assms by (subst decodeFields_word) (auto simp: decodeFields_number)

lemma decodeFields_ack:
  assumes "0 \<le> s" "0 \<le> n"
  shows "decodeFields None (slash # ''ack'' @ slash # itoa s @ slash # itoa n @ [slash]) [] [] = [''ack'', itoa s, itoa n]"
  using assms by (subst decodeFields_word) (auto simp: decodeFields_number)

lemma decodeFields_data:
  assumes "0 \<le> s" "0 \<le> p"
  shows "decodeFields None (slash # ''data'' @ slash # itoa s @ slash # itoa p @ slash # escape d @ [slash]) [] [] =
         (if d = [] \<or> last d = bslash then [''data'', itoa s, itoa p] else [''data'', itoa s, itoa p, d])"
  using assms by (subst decodeFields_word) (auto simp: decodeFields_number decodeFields_escape)

text \<open>Every valid connect, close and acknowledgement message is read back by
  \<open>DecodeLRMessage\<close> from the text \<open>Encode\<close> gives for it.\<close>
theorem control_roundtrip:
  assumes "lr_Type m \<in> {''connect'', ''close'', ''ack''}" "Validate m" "lr_Data m = []"
  shows "\<exists>w. Encode m [] = Some (length w, w) \<and> DecodeLRMessage w = Inr m"
proof -
  obtain ty s p l where m: "m = \<lparr>lr_Type = ty, lr_Session = s, lr_Position = p, lr_Data = [], lr_Length = l\<rparr>"
    using assms(3) by (cases m) auto
  have s: "0 \<le> s" "s \<le> maxInteger" using assms(2) by (auto simp: Validate_def m split: if_splits)
  show ?thesis
  proof (cases "ty = ''ack''")
    case True
    then have "0 \<le> l" "l \<le> maxInteger" "p = 0" using assms(2) by (auto simp: Validate_def m split: if_splits)
    with s True have "constructLRMessage [''ack'', itoa s, itoa l] = Inr m"
      by (simp add: constructLRMessage_def atoi_bounded plainMessage_def m)
    from decode_delimited[OF decodeFields_ack[OF s(1) \<open>0 \<le> l\<close>] _ this assms(2)] show ?thesis
      using True by (simp add: Encode_def wireText_shape m)
  next
    case False
    then have w: "ty \<in> {''connect'', ''close''}" and z: "p = 0" "l = 0" using assms by (auto simp: Validate_def m split: if_splits)
    then have "Encode m [] = Some (length (slash # ty @ slash # itoa s @ [slash]), slash # ty @ slash # itoa s @ [slash])"
      by (auto simp: Encode_def wireText_shape m)
    moreover have "constructLRMessage [ty, itoa s] = Inr m"
      using w s z by (auto simp: constructLRMessage_def atoi_bounded plainMessage_def m)
    from decode_delimited[OF decodeFields_control[OF w s(1)] _ this assms(2)]
    have "DecodeLRMessage (slash # ty @ slash # itoa s @ [slash]) = Inr m" by simp
    ultimately show ?thesis by blast
  qed
qed

theorem control_roundtrip_witness:
  "\<exists>w. Encode (plainMessage ''connect'' 12345) [] = Some (length w, w) \<and>
       DecodeLRMessage w = Inr (plainMessage ''connect'' 12345)"
  by (rule control_roundtrip) (simp_all add: plainMessage_def Validate_def maxInteger_def)

lemma decode_escaped_data:
  assumes "lr_Type m = ''data''" "Validate m"
  shows "\<exists>w. Encode (m\<lparr>lr_Data := escape (lr_Data m)\<rparr>) [] = Some (length w, w) \<and>
           DecodeLRMessage w =
             (if lr_Data m = [] \<or> last (lr_Data m) = bslash then Inl BadDataFormat else Inr m)"
proof -
  obtain s p d l where m: "m = \<lparr>lr_Type = ''data'', lr_Session = s, lr_Position = p, lr_Data = d, lr_Length = l\<rparr>"
    using assms(1) by (cases m) auto
  have b: "0 \<le> s" "s \<le> maxInteger" "0 \<le> p" "p \<le> maxInteger" "l = 0"
    using assms(2) by (auto simp: Validate_def m split: if_splits)
  let ?w = "slash # ''data'' @ slash # itoa s @ slash # itoa p @ slash # escape d @ [slash]"
  note fs = decodeFields_data[OF b(1,3), of d]
  have "DecodeLRMessage ?w = (if d = [] \<or> last d = bslash then Inl BadDataFormat else Inr m)"
  proof (cases "d = [] \<or> last d = bslash")
    case True
    have "constructLRMessage [''data'', itoa s, itoa p] = Inl BadDataFormat"
      using b by (simp add: constructLRMessage_def atoi_bounded)
    from decode_delimited_error[OF fs[unfolded if_P[OF True]] _ this] True show ?thesis by simp
  next
    case False
    have "constructLRMessage [''data'', itoa s, itoa p, d] = Inr m"
      using b by (simp add: constructLRMessage_def atoi_bounded plainMessage_def m)
    from decode_delimited[OF fs[unfolded if_not_P[OF False]] _ this assms(2)] False show ?thesis by simp
  qed
  then show ?thesis by (intro exI[of _ ?w]) (simp add: m Encode_def wireText_shape)
qed

text \<open>C13: A data message whose field is escaped as the protocol asks is read back with its
  original bytes, except when the data is empty or ends with a backslash: the decoder takes the
  closing slash after an escaped backslash for an escaped slash, and skips an empty field, so it
  rejects both.\<close>
theorem data_roundtrip:
  assumes "lr_Type m = ''data''" "Validate m"
  shows "\<exists>w. Encode (m\<lparr>lr_Data := escape (lr_Data m)\<rparr>) [] = Some (length w, w) \<and>
           DecodeLRMessage w =
             (if lr_Data m = [] \<or> last (lr_Data m) = bslash then Inl BadDataFormat else Inr m)"
  by (rule decode_escaped_data[OF assms])

theorem data_roundtrip_witness:
  "\<exists>w. Encode (((plainMessage ''data'' 123)\<lparr>lr_Data := ''a/b''\<rparr>)\<lparr>lr_Data := escape ''a/b''\<rparr>) [] = Some (length w, w) \<and>
       DecodeLRMessage w = Inr ((plainMessage ''data'' 123)\<lparr>lr_Data := ''a/b''\<rparr>)"
  using data_roundtrip[of "(plainMessage ''data'' 123)\<lparr>lr_Data := ''a/b''\<rparr>"]
  by (simp add: plainMessage_def Validate_def maxInteger_def bslash_def)

text \<open>C12: \<open>PackDataMessage\<close> takes the longest prefix of the outgoing bytes whose datagram stays
  within the 999 bytes of the protocol: it always makes progress, the datagram fits, one byte more
  would not, and unescaping the packed field gives back exactly the bytes it reports.\<close>
theorem pack_longest_prefix:
  assumes "lr_Type m = ''data''" "lr_Data m = []" "0 \<le> lr_Session m" "lr_Session m \<le> maxInteger"
    and "0 \<le> p" "p \<le> maxInteger" "data \<noteq> []"
  shows "\<exists>m' k w. PackDataMessage m data p = (m', k) \<and> 0 < k \<and> k \<le> length data \<and>
           Encode m' [] = Some (length w, w) \<and> int (length w) \<le> maxMessageSize \<and>
           UnescapeData (lr_Data m') = Some (take k data) \<and>
           (k < length data \<longrightarrow>
              int (length w) + (if needsEscape (data ! k) then 2 else 1) > maxMessageSize)"
proof -
  obtain k where k: "k \<le> length data"
      "PackDataMessage m data p = (m\<lparr>lr_Data := escape (take k data), lr_Position := p\<rparr>, k)" "0 < k"
      "packOverhead (lr_Session m) p + int (length (escape (take k data))) \<le> maxMessageSize"
      "k < length data \<longrightarrow> packOverhead (lr_Session m) p + int (length (escape (take (Suc k) data))) > maxMessageSize"
    using PackDataMessage_spec[OF assms(1-6), of data] assms(7) by blast
  let ?m = "m\<lparr>lr_Data := escape (take k data), lr_Position := p\<rparr>"
  obtain w where w: "wireText ?m = Some w"
      "int (length w) = packOverhead (lr_Session m) p + int (length (escape (take k data)))"
    using length_wire_data[of ?m] assms(1) by auto
  have "int (length w) + (if needsEscape (data ! k) then 2 else 1) > maxMessageSize" if "k < length data"
    using k(5) w(2) that by (auto simp: take_Suc_conv_app_nth split: if_splits)
  then show ?thesis using k w
    by (intro exI[of _ ?m] exI[of _ k] exI[of _ w]) (simp add: Encode_def)
qed

theorem pack_longest_prefix_witness:
  "\<exists>m' k w. PackDataMessage (plainMessage ''data'' 12345) ''hello/'' 0 = (m', k) \<and> 0 < k \<and> k \<le> length ''hello/'' \<and>
           Encode m' [] = Some (length w, w) \<and> int (length w) \<le> maxMessageSize \<and>
           UnescapeData (lr_Data m') = Some (take k ''hello/'') \<and>
           (k < length ''hello/'' \<longrightarrow>
              int (length w) + (if needsEscape (''hello/'' ! k) then 2 else 1) > maxMessageSize)"
  by (rule pack_longest_prefix) (simp_all add: plainMessage_def maxInteger_def)

end
