(* ===== verification/LR_Session.thy ===== *)
theory LR_Session
  imports LR_Message
begin

text \<open>
  \<open>internal/linereversal/session.go\<close>: one session of the line reversal server, an actor that
  consumes timer events and the messages the session manager puts in its channel.

  Time is an integer count of nanoseconds with Go's zero time at 0; every event carries the time
  at which it is handled. \<open>ss_Timer\<close> says whether the retransmission timer is armed: \<open>Stop\<close>
  disarms it, \<open>Reset\<close> and \<open>NewTimer\<close> arm it, firing disarms it. \<open>ss_Sent\<close> records the datagrams
  handed to \<open>Conn.WriteTo\<close>, whose failure the code only logs. Each send encodes into
  \<open>SendBuffer[:0]\<close>, of capacity 1000, and slices it to the encoded length, which panics beyond
  that capacity.
\<close>

section \<open>State\<close>

definition Retransmission :: int where "Retransmission = 200000000"
definition SessionTimeout :: int where "SessionTimeout = 60000000000"
definition sendBufferCap :: nat where "sendBufferCap = 1000"

record 'a SessionMessage =
  sm_Type :: string
  sm_Data :: string
  sm_Number :: int
  sm_Address :: "'a option"

definition CloseMessage :: "'a option \<Rightarrow> 'a SessionMessage" where
  "CloseMessage address = \<lparr>sm_Type = ''close_client'', sm_Data = [], sm_Number = 0, sm_Address = address\<rparr>"

definition AckMessage :: "int \<Rightarrow> 'a option \<Rightarrow> 'a SessionMessage" where
  "AckMessage len address = \<lparr>sm_Type = ''recieved_ack'', sm_Data = [], sm_Number = len, sm_Address = address\<rparr>"

definition DataMessage :: "int \<Rightarrow> string \<Rightarrow> 'a option \<Rightarrow> 'a SessionMessage" where
  "DataMessage position data address =
     \<lparr>sm_Type = ''recieved_data'', sm_Data = data, sm_Number = position, sm_Address = address\<rparr>"

definition ConnectMessage :: "'a option \<Rightarrow> 'a SessionMessage" where
  "ConnectMessage address = \<lparr>sm_Type = ''connect_client'', sm_Data = [], sm_Number = 0, sm_Address = address\<rparr>"

record PendingData =
  pd_Length :: nat
  pd_SentAt :: int
  pd_Payload :: LRMessage

record 'a Session =
  ss_IsClosed :: bool
  ss_Address :: 'a
  ss_ID :: int
  ss_LastAck :: int
  ss_MaxAck :: int
  ss_RecievedPosition :: int
  ss_Timer :: bool
  ss_PendingData :: "PendingData option"
  ss_OutgoingBuffer :: string
  ss_WritePosition :: int
  ss_DataStore :: string
  ss_LastMessage :: int
  ss_Sent :: "('a \<times> string) list"

definition NewSession :: "'a \<Rightarrow> int \<Rightarrow> 'a Session" where
  "NewSession address ident =
     \<lparr>ss_IsClosed = False, ss_Address = address, ss_ID = ident, ss_LastAck = 0, ss_MaxAck = 0,
      ss_RecievedPosition = 0, ss_Timer = True, ss_PendingData = None, ss_OutgoingBuffer = [],
      ss_WritePosition = 0, ss_DataStore = [], ss_LastMessage = 0, ss_Sent = []\<rparr>"

section \<open>Operations\<close>

text \<open>The common part of \<open>SendCloseMessage\<close>, \<open>SendDataMessage\<close> and \<open>SendAckMessage\<close>.\<close>

definition sendEncoded :: "'a Session \<Rightarrow> LRMessage \<Rightarrow> 'a Session outcome" where
  "sendEncoded s m =
     (case Encode m [] of
        None \<Rightarrow> Ok s
      | Some (messageLength, written) \<Rightarrow>
          if messageLength \<le> sendBufferCap
          then Ok (s\<lparr>ss_Sent := ss_Sent s @ [(ss_Address s, take messageLength written)]\<rparr>)
          else Panic)"

definition SendCloseMessage :: "'a Session \<Rightarrow> 'a Session outcome" where
  "SendCloseMessage s = sendEncoded s (plainMessage ''close'' (ss_ID s))"

definition SendDataMessage :: "'a Session \<Rightarrow> LRMessage \<Rightarrow> 'a Session outcome" where
  "SendDataMessage s m = sendEncoded s m"

definition SendAckMessage :: "'a Session \<Rightarrow> int \<Rightarrow> 'a Session outcome" where
  "SendAckMessage s len = sendEncoded s ((plainMessage ''ack'' (ss_ID s))\<lparr>lr_Length := len\<rparr>)"

definition Close :: "'a Session \<Rightarrow> 'a Session outcome" where
  "Close s = and_then (SendCloseMessage s) (\<lambda>s1. Ok (s1\<lparr>ss_IsClosed := True\<rparr>))"

definition HandleOutgoingBuffer :: "int \<Rightarrow> 'a Session \<Rightarrow> 'a Session outcome" where
  "HandleOutgoingBuffer now s =
     (if length (ss_OutgoingBuffer s) = 0 \<or> ss_PendingData s \<noteq> None then Ok s
      else
        (let (newDataMessage, bytesUsed) =
               PackDataMessage ((plainMessage ''data'' (ss_ID s))\<lparr>lr_Position := ss_WritePosition s\<rparr>)
                 (ss_OutgoingBuffer s) (ss_WritePosition s);
             s1 = s\<lparr>ss_MaxAck := ss_WritePosition s + int bytesUsed,
                    ss_PendingData := Some \<lparr>pd_Length = bytesUsed, pd_SentAt = now, pd_Payload = newDataMessage\<rparr>\<rparr>
         in and_then (SendDataMessage s1 newDataMessage) (\<lambda>s2. Ok (s2\<lparr>ss_Timer := True\<rparr>))))"

text \<open>\<open>OutgoingBuffer[k:]\<close>.\<close>

definition sliceFrom :: "string \<Rightarrow> int \<Rightarrow> string outcome" where
  "sliceFrom xs k = (if 0 \<le> k \<and> k \<le> int (length xs) then Ok (drop (nat k) xs) else Panic)"

definition HandleAck :: "int \<Rightarrow> 'a Session \<Rightarrow> int \<Rightarrow> 'a Session outcome" where
  "HandleAck now s len =
     (if len < ss_LastAck s then Ok s
      else if len > ss_MaxAck s then Close s
      else
        (case ss_PendingData s of
           None \<Rightarrow> Ok s
         | Some pending \<Rightarrow>
             let expectedLength = ss_WritePosition s + int (pd_Length pending) in
             if len \<le> expectedLength then
               and_then (sliceFrom (ss_OutgoingBuffer s) (len - ss_WritePosition s)) (\<lambda>rest.
                 HandleOutgoingBuffer now
                   (s\<lparr>ss_Timer := False, ss_OutgoingBuffer := rest,
                      ss_WritePosition := ss_WritePosition s + (len - ss_WritePosition s),
                      ss_PendingData := None, ss_LastAck := len\<rparr>))
             else Ok s))"

text \<open>
  The loop of \<open>CheckDataStore\<close>: moves every complete line of the store, reversed, to the outgoing
  buffer. The second component is the outgoing buffer.
\<close>

function reverseLines :: "string \<Rightarrow> string \<Rightarrow> string \<times> string" where
  "reverseLines store out =
     (if length store = 0 then (store, out)
      else case find_index (\<lambda>b. b = newline) store of
             None \<Rightarrow> (store, out)
           | Some newLineIndex \<Rightarrow>
               reverseLines (drop (newLineIndex + 1) store)
                 (out @ rev (take newLineIndex store) @ [newline]))"
  by pat_completeness auto
termination
  by (relation "measure (\<lambda>(store, out). length store)") auto

declare reverseLines.simps [simp del]

definition CheckDataStore :: "int \<Rightarrow> 'a Session \<Rightarrow> 'a Session outcome" where
  "CheckDataStore now s =
     (let (store, out) = reverseLines (ss_DataStore s) (ss_OutgoingBuffer s)
      in HandleOutgoingBuffer now (s\<lparr>ss_DataStore := store, ss_OutgoingBuffer := out\<rparr>))"

definition HandleRecieveData :: "int \<Rightarrow> 'a Session \<Rightarrow> string \<Rightarrow> int \<Rightarrow> 'a Session outcome" where
  "HandleRecieveData now s data position =
     (if position \<noteq> ss_RecievedPosition s then SendAckMessage s (ss_RecievedPosition s)
      else
        (case UnescapeData data of
           None \<Rightarrow> Ok s
         | Some unescaped \<Rightarrow>
             let s1 = s\<lparr>ss_RecievedPosition := ss_RecievedPosition s + int (length unescaped)\<rparr> in
             and_then (SendAckMessage s1 (ss_RecievedPosition s1)) (\<lambda>s2.
               CheckDataStore now (s2\<lparr>ss_DataStore := ss_DataStore s2 @ unescaped\<rparr>))))"

section \<open>The receive loop\<close>

datatype 'a SessionEvent = TimerFired | FromChannel "'a SessionMessage" | ChannelClosed

text \<open>One pass of the loop of \<open>RecieveMessage\<close>; the flag says whether the loop goes on.\<close>

definition onTimer :: "int \<Rightarrow> 'a Session \<Rightarrow> (bool \<times> 'a Session) outcome" where
  "onTimer now s0 =
     (let s = s0\<lparr>ss_Timer := False\<rparr> in
      if now > ss_LastMessage s + SessionTimeout then and_then (Close s) (\<lambda>s1. Ok (False, s1))
      else
        (case ss_PendingData s of
           None \<Rightarrow> Ok (True, s)
         | Some pending \<Rightarrow>
             if now - pd_SentAt pending > SessionTimeout then and_then (Close s) (\<lambda>s1. Ok (False, s1))
             else and_then (SendDataMessage s (pd_Payload pending)) (\<lambda>s1. Ok (True, s1\<lparr>ss_Timer := True\<rparr>))))"

definition onMessage :: "int \<Rightarrow> 'a Session \<Rightarrow> 'a SessionMessage \<Rightarrow> (bool \<times> 'a Session) outcome" where
  "onMessage now s0 msg =
     (let s1 = s0\<lparr>ss_LastMessage := now\<rparr>;
          s = (case sm_Address msg of None \<Rightarrow> s1 | Some a \<Rightarrow> s1\<lparr>ss_Address := a\<rparr>) in
      if sm_Type msg = ''connect_client'' then and_then (SendAckMessage s 0) (\<lambda>s1. Ok (True, s1))
      else if sm_Type msg = ''close_client'' then and_then (Close s) (\<lambda>s1. Ok (False, s1))
      else if sm_Type msg = ''recieved_data'' then
        and_then (HandleRecieveData now s (sm_Data msg) (sm_Number msg)) (\<lambda>s1. Ok (True, s1))
      else if sm_Type msg = ''recieved_ack'' then
        and_then (HandleAck now s (sm_Number msg)) (\<lambda>s1. Ok (True, s1))
      else Ok (True, s))"

definition RecieveMessage :: "int \<Rightarrow> 'a SessionEvent \<Rightarrow> 'a Session \<Rightarrow> (bool \<times> 'a Session) outcome" where
  "RecieveMessage now ev s =
     (case ev of
        TimerFired \<Rightarrow> onTimer now s
      | FromChannel msg \<Rightarrow> onMessage now s msg
      | ChannelClosed \<Rightarrow> Ok (False, s\<lparr>ss_LastMessage := now\<rparr>))"

text \<open>
  A whole life of the actor: the timer can only fire while it is armed, and nothing is handled
  once the loop has returned.
\<close>

fun sessionRun :: "(int \<times> 'a SessionEvent) list \<Rightarrow> 'a Session \<Rightarrow> (bool \<times> 'a Session) outcome" where
  "sessionRun [] s = Ok (True, s)"
| "sessionRun ((now, ev) # evs) s =
     (if ev = TimerFired \<and> \<not> ss_Timer s then sessionRun evs s
      else and_then (RecieveMessage now ev s)
             (\<lambda>(running, s1). if running then sessionRun evs s1 else Ok (False, s1)))"

section \<open>The stream a session promises to send\<close>

text \<open>
  The specification: the reversal of every complete line of the received stream, and what follows
  its last newline.
\<close>

definition completeLines :: "string \<Rightarrow> string list" where
  "completeLines recv = butlast (splitOn newline recv)"

definition reversedStream :: "string \<Rightarrow> string" where
  "reversedStream recv = concat (map (\<lambda>l. rev l @ [newline]) (completeLines recv))"

definition unfinishedLine :: "string \<Rightarrow> string" where
  "unfinishedLine recv = last (splitOn newline recv)"

lemma splitOn_append:
  "splitOn sep (xs @ ys) =
   butlast (splitOn sep xs) @ (last (splitOn sep xs) @ hd (splitOn sep ys)) # tl (splitOn sep ys)"
proof (induction xs)
  case Nil
  then show ?case by (cases "splitOn sep ys") auto
next
  case (Cons x xs)
  obtain p ps where p: "splitOn sep xs = p # ps" by (cases "splitOn sep xs") auto
  with Cons show ?case by (cases ps) auto
qed

lemma reversedStream_append:
  "reversedStream (xs @ ys) = reversedStream xs @ reversedStream (unfinishedLine xs @ ys)"
proof -
  let ?u = "last (splitOn newline xs)"
  have "newline \<notin> set ?u" by (meson last_in_set splitOn_ne splitOn_parts)
  then have "splitOn newline (?u @ ys) = (?u @ hd (splitOn newline ys)) # tl (splitOn newline ys)"
    by (simp add: splitOn_append splitOn_no_sep)
  then show ?thesis
    by (simp add: reversedStream_def completeLines_def unfinishedLine_def splitOn_append butlast_append)
qed

lemma unfinishedLine_append: "unfinishedLine (xs @ ys) = unfinishedLine (unfinishedLine xs @ ys)"
proof -
  let ?u = "last (splitOn newline xs)"
  have "newline \<notin> set ?u" by (meson last_in_set splitOn_ne splitOn_parts)
  then have "splitOn newline (?u @ ys) = (?u @ hd (splitOn newline ys)) # tl (splitOn newline ys)"
    by (simp add: splitOn_append splitOn_no_sep)
  then show ?thesis by (simp add: unfinishedLine_def splitOn_append)
qed

lemma stream_Nil [simp]: "reversedStream [] = []" "unfinishedLine [] = []"
  by (simp_all add: reversedStream_def completeLines_def unfinishedLine_def)

lemma length_stream: "length (reversedStream recv) + length (unfinishedLine recv) = length recv"
proof (induction recv)
  case Nil
  then show ?case by simp
next
  case (Cons c recv)
  obtain p ps where p: "splitOn newline recv = p # ps" by (cases "splitOn newline recv") auto
  with Cons show ?case
    by (cases ps) (auto simp: reversedStream_def completeLines_def unfinishedLine_def)
qed

text \<open>The loop of \<open>CheckDataStore\<close> computes exactly that.\<close>

lemma reverseLines_spec:
  "reverseLines store out = (unfinishedLine store, out @ reversedStream store)"
proof (induction store out rule: reverseLines.induct)
  case (1 store out)
  show ?case
  proof (cases "find_index (\<lambda>b. b = newline) store")
    case None
    then have "newline \<notin> set store" by (auto simp: find_index_None)
    with None show ?thesis
      by (subst reverseLines.simps)
        (simp add: splitOn_no_sep reversedStream_def completeLines_def unfinishedLine_def)
  next
    case (Some i)
    then have i: "i < length store" "store ! i = newline" "\<forall>j<i. store ! j \<noteq> newline"
      using find_index_Some[OF Some] by auto
    then have split: "store = take i store @ newline # drop (i + 1) store"
      by (metis Suc_eq_plus1 id_take_nth_drop)
    have "newline \<notin> set (take i store)" using i by (auto simp: in_set_conv_nth)
    then have "splitOn newline store = take i store # splitOn newline (drop (i + 1) store)"
      using splitOn_cons split by metis
    moreover have "length store \<noteq> 0" using i(1) by auto
    ultimately show ?thesis using "1.IH"[OF _ Some] Some
      by (subst reverseLines.simps)
        (simp add: reversedStream_def completeLines_def unfinishedLine_def)
  qed
qed

section \<open>The invariant of a session\<close>

text \<open>The chunk in flight: a nonempty prefix of the outgoing bytes, packed at the write position.\<close>

definition pending_ok :: "'a Session \<Rightarrow> PendingData \<Rightarrow> bool" where
  "pending_ok s p \<longleftrightarrow>
     0 < pd_Length p \<and> pd_Length p \<le> length (ss_OutgoingBuffer s) \<and>
     ss_MaxAck s = ss_WritePosition s + int (pd_Length p) \<and>
     pd_Payload p = \<lparr>lr_Type = ''data'', lr_Session = ss_ID s, lr_Position = ss_WritePosition s,
                      lr_Data = escape (take (pd_Length p) (ss_OutgoingBuffer s)), lr_Length = 0\<rparr> \<and>
     (\<forall>w. wireText (pd_Payload p) = Some w \<longrightarrow> length w \<le> 999)"

text \<open>The datagrams a session may send when its client's stream is \<open>recv\<close>.\<close>

definition legalDatagram :: "int \<Rightarrow> string \<Rightarrow> string \<Rightarrow> bool" where
  "legalDatagram ident recv w \<longleftrightarrow>
     length w \<le> 999 \<and>
     (wireText (plainMessage ''close'' ident) = Some w \<or>
      (\<exists>n. 0 \<le> n \<and> n \<le> int (length recv) \<and>
           wireText ((plainMessage ''ack'' ident)\<lparr>lr_Length := n\<rparr>) = Some w) \<or>
      (\<exists>pos k. 0 < k \<and> pos + k \<le> length (reversedStream recv) \<and>
           wireText \<lparr>lr_Type = ''data'', lr_Session = ident, lr_Position = int pos,
                     lr_Data = escape (take k (drop pos (reversedStream recv))), lr_Length = 0\<rparr> = Some w))"

text \<open>Everything but the chunk in flight.\<close>

definition session_base :: "string \<Rightarrow> 'a Session \<Rightarrow> bool" where
  "session_base recv s \<longleftrightarrow>
     0 \<le> ss_ID s \<and> ss_ID s \<le> maxInteger \<and>
     ss_RecievedPosition s = int (length recv) \<and> int (length recv) \<le> maxInteger \<and>
     ss_DataStore s = unfinishedLine recv \<and>
     0 \<le> ss_WritePosition s \<and> ss_WritePosition s \<le> int (length (reversedStream recv)) \<and>
     ss_OutgoingBuffer s = drop (nat (ss_WritePosition s)) (reversedStream recv) \<and>
     ss_LastAck s = ss_WritePosition s \<and>
     (\<forall>(a, w)\<in>set (ss_Sent s). legalDatagram (ss_ID s) recv w)"

definition session_ok :: "string \<Rightarrow> 'a Session \<Rightarrow> bool" where
  "session_ok recv s \<longleftrightarrow>
     session_base recv s \<and>
     (case ss_PendingData s of
        None \<Rightarrow> ss_OutgoingBuffer s = [] \<and> ss_MaxAck s = ss_WritePosition s
      | Some p \<Rightarrow> pending_ok s p \<and> ss_Timer s)"

text \<open>What the client has got across: the in-order data that unescapes.\<close>

fun accepted :: "string \<Rightarrow> 'a SessionEvent \<Rightarrow> string" where
  "accepted recv (FromChannel msg) =
     (if sm_Type msg = ''recieved_data'' \<and> sm_Number msg = int (length recv) then
        (case UnescapeData (sm_Data msg) of None \<Rightarrow> recv | Some d \<Rightarrow> recv @ d)
      else recv)"
| "accepted recv _ = recv"

text \<open>What \<open>Validate\<close> guarantees of a message the manager forwards.\<close>

fun event_ok :: "'a SessionEvent \<Rightarrow> bool" where
  "event_ok (FromChannel msg) =
     (sm_Type msg = ''recieved_data'' \<longrightarrow> sm_Number msg + int (length (sm_Data msg)) \<le> maxInteger)"
| "event_ok _ = True"

lemma accepted_extends: "\<exists>d. accepted recv ev = recv @ d"
  by (cases ev) (auto split: option.splits)

section \<open>Preservation\<close>

lemma legalDatagram_extends: "legalDatagram ident recv w \<Longrightarrow> legalDatagram ident (recv @ d) w"
proof -
  assume l: "legalDatagram ident recv w"
  have r: "reversedStream (recv @ d) = reversedStream recv @ reversedStream (unfinishedLine recv @ d)"
    by (rule reversedStream_append)
  have t: "take k (drop pos (reversedStream recv)) = take k (drop pos (reversedStream (recv @ d)))"
    if "pos + k \<le> length (reversedStream recv)" for pos k
    using that by (simp add: r)
  show ?thesis
    using l t unfolding legalDatagram_def
    by (smt (verit, best) r length_append le_add1 le_trans of_nat_mono)
qed

lemma wire_close_length:
  "0 \<le> i \<Longrightarrow> i \<le> maxInteger \<Longrightarrow> \<exists>w. wireText (plainMessage ''close'' i) = Some w \<and> length w \<le> 999"
  using length_itoa[of i] by (simp add: wireText_def plainMessage_def)

lemma wire_ack_length:
  "0 \<le> i \<Longrightarrow> i \<le> maxInteger \<Longrightarrow> 0 \<le> n \<Longrightarrow> n \<le> maxInteger \<Longrightarrow>
   \<exists>w. wireText ((plainMessage ''ack'' i)\<lparr>lr_Length := n\<rparr>) = Some w \<and> length w \<le> 999"
  using length_itoa[of i] length_itoa[of n] by (simp add: wireText_def plainMessage_def)

lemma sendEncoded_wire:
  "wireText m = Some w \<Longrightarrow> length w \<le> 999 \<Longrightarrow>
   sendEncoded s m = Ok (s\<lparr>ss_Sent := ss_Sent s @ [(ss_Address s, w)]\<rparr>)"
  by (simp add: sendEncoded_def Encode_def sendBufferCap_def)

lemma session_base_sent:
  "session_base recv s \<Longrightarrow> legalDatagram (ss_ID s) recv w \<Longrightarrow>
   session_base recv (s\<lparr>ss_Sent := ss_Sent s @ [(a, w)]\<rparr>)"
  by (auto simp: session_base_def)

lemma session_ok_sent:
  "session_ok recv s \<Longrightarrow> legalDatagram (ss_ID s) recv w \<Longrightarrow>
   session_ok recv (s\<lparr>ss_Sent := ss_Sent s @ [(a, w)]\<rparr>)"
  using session_base_sent[of recv s w a]
  by (simp add: session_ok_def pending_ok_def split: option.splits)

lemma SendAckMessage_ok:
  assumes "0 \<le> ss_ID s" "ss_ID s \<le> maxInteger" "0 \<le> n" "n \<le> int (length recv)" "int (length recv) \<le> maxInteger"
  shows "\<exists>w. SendAckMessage s n = Ok (s\<lparr>ss_Sent := ss_Sent s @ [(ss_Address s, w)]\<rparr>) \<and> legalDatagram (ss_ID s) recv w"
proof -
  from assms obtain w where "wireText ((plainMessage ''ack'' (ss_ID s))\<lparr>lr_Length := n\<rparr>) = Some w" "length w \<le> 999"
    using wire_ack_length[of "ss_ID s" n] by auto
  then show ?thesis using assms(3,4) 
    by (auto simp: SendAckMessage_def sendEncoded_wire legalDatagram_def)
qed

lemma Close_ok:
  assumes "session_ok recv s"
  shows "\<exists>s'. Close s = Ok s' \<and> session_ok recv s' \<and> ss_IsClosed s'"
proof -
  from assms have i: "0 \<le> ss_ID s" "ss_ID s \<le> maxInteger" by (auto simp: session_ok_def session_base_def)
  from wire_close_length[OF this] obtain w where
    w: "wireText (plainMessage ''close'' (ss_ID s)) = Some w" "length w \<le> 999" by auto
  then have "legalDatagram (ss_ID s) recv w" by (simp add: legalDatagram_def)
  from session_ok_sent[OF assms this, of "ss_Address s"] w show ?thesis
    by (auto simp: Close_def SendCloseMessage_def sendEncoded_wire session_ok_def session_base_def pending_ok_def
        split: option.splits)
qed

lemma session_ok_idle:
  "session_base recv s \<Longrightarrow> ss_PendingData s = None \<Longrightarrow> ss_OutgoingBuffer s = [] \<Longrightarrow>
   ss_MaxAck s = ss_WritePosition s \<Longrightarrow> session_ok recv s"
  by (simp add: session_ok_def)

lemma HandleOutgoingBuffer_starts:
  assumes b: "session_base recv s" and none: "ss_PendingData s = None" and ne: "ss_OutgoingBuffer s \<noteq> []"
  shows "\<exists>s'. HandleOutgoingBuffer now s = Ok s' \<and> session_ok recv s' \<and>
              ss_WritePosition s' = ss_WritePosition s \<and> ss_OutgoingBuffer s' = ss_OutgoingBuffer s"
proof -
  let ?out = "ss_OutgoingBuffer s" and ?p = "ss_WritePosition s"
  let ?rs = "reversedStream recv"
  let ?m = "(plainMessage ''data'' (ss_ID s))\<lparr>lr_Position := ?p\<rparr>"
  from b have i: "0 \<le> ss_ID s" "ss_ID s \<le> maxInteger" and p: "0 \<le> ?p" "?p \<le> int (length ?rs)"
    and out: "?out = drop (nat ?p) ?rs" and len: "int (length recv) \<le> maxInteger"
    by (auto simp: session_base_def)
  have "?p \<le> maxInteger" using p len length_stream[of recv] by linarith
  then obtain k where k: "k \<le> length ?out" "0 < k"
      "PackDataMessage ?m ?out ?p = (?m\<lparr>lr_Data := escape (take k ?out), lr_Position := ?p\<rparr>, k)"
      "packOverhead (ss_ID s) ?p + int (length (escape (take k ?out))) \<le> maxMessageSize"
    using PackDataMessage_spec[of ?m ?p ?out] i p ne by (auto simp: plainMessage_def)
  let ?m' = "\<lparr>lr_Type = ''data'', lr_Session = ss_ID s, lr_Position = ?p, lr_Data = escape (take k ?out), lr_Length = 0\<rparr>"
  have pack: "PackDataMessage ?m ?out ?p = (?m', k)" using k(3) by (simp add: plainMessage_def)
  obtain w where w: "wireText ?m' = Some w" "length w \<le> 999"
    using length_wire_data[of ?m'] k(4) by (auto simp: maxMessageSize_def)
  have legal: "legalDatagram (ss_ID s) recv w"
    unfolding legalDatagram_def
    using w k(1,2) p out
    by (intro conjI disjI2 exI[of _ "nat ?p"] exI[of _ k]) auto
  let ?s1 = "s\<lparr>ss_MaxAck := ?p + int k,
               ss_PendingData := Some \<lparr>pd_Length = k, pd_SentAt = now, pd_Payload = ?m'\<rparr>\<rparr>"
  let ?s' = "?s1\<lparr>ss_Sent := ss_Sent s @ [(ss_Address s, w)], ss_Timer := True\<rparr>"
  have run: "HandleOutgoingBuffer now s = Ok ?s'"
    using ne none pack by (simp add: HandleOutgoingBuffer_def SendDataMessage_def sendEncoded_wire[OF w])
  have "session_base recv ?s'"
    using session_base_sent[OF b legal, of "ss_Address s"] by (simp add: session_base_def)
  moreover have "pending_ok ?s' \<lparr>pd_Length = k, pd_SentAt = now, pd_Payload = ?m'\<rparr>"
    using k(1,2) w by (simp add: pending_ok_def)
  ultimately show ?thesis using run by (simp add: session_ok_def)
qed

lemma HandleOutgoingBuffer_idle:
  "ss_OutgoingBuffer s = [] \<or> ss_PendingData s \<noteq> None \<Longrightarrow> HandleOutgoingBuffer now s = Ok s"
  by (auto simp: HandleOutgoingBuffer_def)

lemma CheckDataStore_ok:
  assumes ok: "session_ok recv s" and n: "int (length (recv @ d)) \<le> maxInteger"
    and w: "legalDatagram (ss_ID s) (recv @ d) w"
  shows "\<exists>s'. CheckDataStore now
            (s\<lparr>ss_RecievedPosition := int (length (recv @ d)), ss_Sent := ss_Sent s @ [(a, w)],
               ss_DataStore := ss_DataStore s @ d\<rparr>) = Ok s' \<and>
          session_ok (recv @ d) s'"
proof -
  let ?new = "reversedStream (unfinishedLine recv @ d)"
  let ?s = "s\<lparr>ss_RecievedPosition := int (length (recv @ d)), ss_Sent := ss_Sent s @ [(a, w)],
             ss_DataStore := unfinishedLine (recv @ d), ss_OutgoingBuffer := ss_OutgoingBuffer s @ ?new\<rparr>"
  have store: "ss_DataStore s = unfinishedLine recv" and base: "session_base recv s"
    using ok by (auto simp: session_ok_def session_base_def)
  have check: "CheckDataStore now (s\<lparr>ss_RecievedPosition := int (length (recv @ d)), ss_Sent := ss_Sent s @ [(a, w)],
                 ss_DataStore := ss_DataStore s @ d\<rparr>)
        = HandleOutgoingBuffer now ?s"
    by (simp add: CheckDataStore_def reverseLines_spec store unfinishedLine_append[of recv d])
  have r: "reversedStream (recv @ d) = reversedStream recv @ ?new" by (rule reversedStream_append)
  have b: "session_base (recv @ d) ?s"
    using base n w unfolding session_base_def
    by (auto simp: r intro: legalDatagram_extends)
  show ?thesis
  proof (cases "ss_PendingData s")
    case None
    then have idle: "ss_OutgoingBuffer s = []" "ss_MaxAck s = ss_WritePosition s"
      using ok by (auto simp: session_ok_def)
    show ?thesis
    proof (cases "?new = []")
      case True
      then have "session_ok (recv @ d) ?s" using b None idle by (intro session_ok_idle) auto
      then show ?thesis using True idle unfolding check by (simp add: HandleOutgoingBuffer_idle)
    next
      case False
      then show ?thesis using HandleOutgoingBuffer_starts[OF b, of now] None unfolding check by auto
    qed
  next
    case (Some p)
    then have "pending_ok ?s p" "ss_Timer ?s" using ok by (auto simp: session_ok_def pending_ok_def)
    then have "session_ok (recv @ d) ?s" using b Some by (simp add: session_ok_def)
    moreover have "HandleOutgoingBuffer now ?s = Ok ?s"
      using Some by (intro HandleOutgoingBuffer_idle) simp
    ultimately show ?thesis unfolding check by blast
  qed
qed

lemma HandleRecieveData_ok:
  assumes ok: "session_ok recv s" and n: "pos + int (length data) \<le> maxInteger"
  shows "\<exists>s'. HandleRecieveData now s data pos = Ok s' \<and>
          session_ok (accepted recv (FromChannel (DataMessage pos data a))) s'"
proof -
  have i: "0 \<le> ss_ID s" "ss_ID s \<le> maxInteger" "ss_RecievedPosition s = int (length recv)" "int (length recv) \<le> maxInteger"
    using ok by (auto simp: session_ok_def session_base_def)
  show ?thesis
  proof (cases "pos = ss_RecievedPosition s")
    case False
    obtain w where w: "SendAckMessage s (int (length recv)) = Ok (s\<lparr>ss_Sent := ss_Sent s @ [(ss_Address s, w)]\<rparr>)"
        "legalDatagram (ss_ID s) recv w"
      using SendAckMessage_ok[OF i(1,2) _ _ i(4), of "int (length recv)"] by auto
    with False i show ?thesis using session_ok_sent[OF ok w(2), of "ss_Address s"]
      by (auto simp: HandleRecieveData_def DataMessage_def)
  next
    case pos: True
    show ?thesis
    proof (cases "UnescapeData data")
      case None
      then show ?thesis using ok pos i by (simp add: HandleRecieveData_def DataMessage_def)
    next
      case (Some d)
      have m: "int (length (recv @ d)) \<le> maxInteger"
        using UnescapeData_length[OF Some] n pos i by simp
      let ?s1 = "s\<lparr>ss_RecievedPosition := int (length (recv @ d))\<rparr>"
      obtain w where w: "SendAckMessage ?s1 (int (length (recv @ d))) =
            Ok (?s1\<lparr>ss_Sent := ss_Sent ?s1 @ [(ss_Address ?s1, w)]\<rparr>)" "legalDatagram (ss_ID ?s1) (recv @ d) w"
        using SendAckMessage_ok[of ?s1 "int (length (recv @ d))" "recv @ d"] i m by auto
      from CheckDataStore_ok[OF ok m, of w now "ss_Address s"] w(2) show ?thesis
        using Some pos i w(1) by (auto simp: HandleRecieveData_def DataMessage_def)
    qed
  qed
qed

lemma HandleAck_ok:
  assumes ok: "session_ok recv s"
  shows "\<exists>s'. HandleAck now s n = Ok s' \<and> session_ok recv s'"
proof -
  have base: "session_base recv s" using ok by (simp add: session_ok_def)
  then have p: "0 \<le> ss_WritePosition s" "ss_WritePosition s \<le> int (length (reversedStream recv))"
    "ss_LastAck s = ss_WritePosition s" "ss_OutgoingBuffer s = drop (nat (ss_WritePosition s)) (reversedStream recv)"
    by (auto simp: session_base_def)
  consider "n < ss_LastAck s" | "n \<ge> ss_LastAck s" "n > ss_MaxAck s"
    | "n \<ge> ss_LastAck s" "n \<le> ss_MaxAck s" "ss_PendingData s = None"
    | q where "n \<ge> ss_LastAck s" "n \<le> ss_MaxAck s" "ss_PendingData s = Some q" by fastforce
  then show ?thesis
  proof cases
    case 1
    then show ?thesis using ok by (simp add: HandleAck_def)
  next
    case 2
    then show ?thesis using Close_ok[OF ok] by (auto simp: HandleAck_def)
  next
    case 3
    then show ?thesis using ok by (simp add: HandleAck_def)
  next
    case (4 q)
    then have q: "pending_ok s q" using ok by (simp add: session_ok_def)
    let ?k = "n - ss_WritePosition s"
    let ?rest = "drop (nat ?k) (ss_OutgoingBuffer s)"
    let ?s = "s\<lparr>ss_Timer := False, ss_OutgoingBuffer := ?rest, ss_WritePosition := n,
               ss_PendingData := None, ss_LastAck := n\<rparr>"
    have k: "0 \<le> ?k" "?k \<le> int (pd_Length q)" "pd_Length q \<le> length (ss_OutgoingBuffer s)"
      using 4 q p(3) by (auto simp: pending_ok_def)
    have b: "session_base recv ?s"
      using base k p unfolding session_base_def
      by (auto simp: nat_add_distrib[symmetric] simp del: nat_add_distrib)
    have "HandleAck now s n = HandleOutgoingBuffer now ?s"
      using 4 k by (simp add: HandleAck_def sliceFrom_def)
    then show ?thesis
    proof (cases "?rest = []")
      case True
      then have "ss_MaxAck s = n" using k q by (auto simp: pending_ok_def)
      with True b have "session_ok recv ?s" by (intro session_ok_idle) auto
      then show ?thesis
        using True \<open>HandleAck now s n = HandleOutgoingBuffer now ?s\<close> by (simp add: HandleOutgoingBuffer_idle)
    next
      case False
      then show ?thesis
        using HandleOutgoingBuffer_starts[OF b, of now] \<open>HandleAck now s n = HandleOutgoingBuffer now ?s\<close> by auto
    qed
  qed
qed

lemma session_base_frame [simp]:
  "session_base recv (s\<lparr>ss_Timer := t\<rparr>) = session_base recv s"
  "session_base recv (s\<lparr>ss_LastMessage := now\<rparr>) = session_base recv s"
  "session_base recv (s\<lparr>ss_Address := a\<rparr>) = session_base recv s"
  by (simp_all add: session_base_def)

lemma session_ok_frame:
  "session_ok recv s \<Longrightarrow> ss_PendingData s = None \<Longrightarrow> session_ok recv (s\<lparr>ss_Timer := t\<rparr>)"
  "session_ok recv s \<Longrightarrow> session_ok recv (s\<lparr>ss_LastMessage := now\<rparr>)"
  "session_ok recv s \<Longrightarrow> session_ok recv (s\<lparr>ss_Address := a\<rparr>)"
  "session_ok recv s \<Longrightarrow> session_ok recv (s\<lparr>ss_Timer := True\<rparr>)"
  by (auto simp: session_ok_def pending_ok_def split: option.splits)

text \<open>A session whose timer has just fired: the chunk in flight is intact, the timer is not armed.\<close>

lemma Close_disarmed:
  assumes "session_ok recv s"
  shows "\<exists>s'. Close (s\<lparr>ss_Timer := False\<rparr>) = Ok s' \<and> ss_IsClosed s' \<and>
             session_base recv s' \<and> ss_PendingData s' = ss_PendingData s"
proof -
  from assms have i: "0 \<le> ss_ID s" "ss_ID s \<le> maxInteger" and b: "session_base recv s"
    by (auto simp: session_ok_def session_base_def)
  from wire_close_length[OF i] obtain w where
    w: "wireText (plainMessage ''close'' (ss_ID s)) = Some w" "length w \<le> 999" by auto
  then have "legalDatagram (ss_ID s) recv w" by (simp add: legalDatagram_def)
  from session_base_sent[OF b this, of "ss_Address s"] w show ?thesis
    by (auto simp: Close_def SendCloseMessage_def sendEncoded_wire session_base_def)
qed

lemma onTimer_ok:
  assumes ok: "session_ok recv s"
  shows "\<exists>r s'. onTimer now s = Ok (r, s') \<and> session_base recv s' \<and> (r \<longrightarrow> session_ok recv s') \<and>
           (\<not> r \<longrightarrow> ss_IsClosed s')"
proof (cases "now > ss_LastMessage s + SessionTimeout")
  case True
  then show ?thesis using Close_disarmed[OF ok] by (auto simp: onTimer_def)
next
  case False
  show ?thesis
  proof (cases "ss_PendingData s")
    case None
    then show ?thesis using False ok session_ok_frame(1)[OF ok]
      by (auto simp: onTimer_def session_ok_def)
  next
    case (Some q)
    then have q: "pending_ok s q" and b: "session_base recv s" using ok by (auto simp: session_ok_def)
    then obtain w where w: "wireText (pd_Payload q) = Some w" "length w \<le> 999"
      using length_wire_data[of "pd_Payload q"] by (auto simp: pending_ok_def)
    have "legalDatagram (ss_ID s) recv w"
      using q w b unfolding legalDatagram_def session_base_def pending_ok_def
      by (intro conjI disjI2 exI[of _ "nat (ss_WritePosition s)"] exI[of _ "pd_Length q"]) auto
    from session_ok_sent[OF ok this, of "ss_Address s"]
    have "session_ok recv (s\<lparr>ss_Sent := ss_Sent s @ [(ss_Address s, w)]\<rparr>)" .
    note alive = session_ok_frame(4)[OF this]
    show ?thesis
    proof (cases "now - pd_SentAt q > SessionTimeout")
      case True
      then show ?thesis using False Some Close_disarmed[OF ok] by (auto simp: onTimer_def Let_def)
    next
      case fresh: False
      have "session_base recv (s\<lparr>ss_Sent := ss_Sent s @ [(ss_Address s, w)], ss_Timer := True\<rparr>)"
        using alive by (simp add: session_ok_def)
      with fresh alive show ?thesis
        using False Some by (auto simp: onTimer_def Let_def SendDataMessage_def sendEncoded_wire[OF w])
    qed
  qed
qed

lemma onMessage_ok:
  assumes ok: "session_ok recv s" and ev: "event_ok (FromChannel msg)"
  shows "\<exists>r s'. onMessage now s msg = Ok (r, s') \<and> session_ok (accepted recv (FromChannel msg)) s' \<and>
           (\<not> r \<longrightarrow> ss_IsClosed s')"
proof -
  define t where "t = (case sm_Address msg of None \<Rightarrow> s\<lparr>ss_LastMessage := now\<rparr>
                       | Some a \<Rightarrow> s\<lparr>ss_LastMessage := now\<rparr>\<lparr>ss_Address := a\<rparr>)"
  have t: "session_ok recv t"
    using ok by (auto simp: t_def session_ok_frame split: option.splits)
  then have b: "0 \<le> ss_ID t" "ss_ID t \<le> maxInteger" "int (length recv) \<le> maxInteger"
    by (auto simp: session_ok_def session_base_def)
  consider "sm_Type msg = ''connect_client''" | "sm_Type msg = ''close_client''"
    | "sm_Type msg = ''recieved_data''" | "sm_Type msg = ''recieved_ack''"
    | "sm_Type msg \<notin> {''connect_client'', ''close_client'', ''recieved_data'', ''recieved_ack''}" by blast
  then show ?thesis
  proof cases
    case 1
    from SendAckMessage_ok[OF b(1,2) _ _ b(3), of 0] obtain w where
      w: "SendAckMessage t 0 = Ok (t\<lparr>ss_Sent := ss_Sent t @ [(ss_Address t, w)]\<rparr>)" "legalDatagram (ss_ID t) recv w" by auto
    with 1 session_ok_sent[OF t w(2), of "ss_Address t"] show ?thesis
      by (auto simp: onMessage_def t_def[symmetric] Let_def)
  next
    case 2
    with Close_ok[OF t] show ?thesis by (auto simp: onMessage_def t_def[symmetric] Let_def)
  next
    case 3
    with ev have "sm_Number msg + int (length (sm_Data msg)) \<le> maxInteger" by simp
    from HandleRecieveData_ok[OF t this, of now undefined] 3 show ?thesis
      by (auto simp: onMessage_def t_def[symmetric] Let_def DataMessage_def)
  next
    case 4
    with HandleAck_ok[OF t, of now "sm_Number msg"] show ?thesis
      by (auto simp: onMessage_def t_def[symmetric] Let_def)
  next
    case 5
    with t show ?thesis by (auto simp: onMessage_def t_def[symmetric] Let_def)
  qed
qed

lemma RecieveMessage_ok:
  assumes "session_ok recv s" "event_ok ev"
  shows "\<exists>r s'. RecieveMessage now ev s = Ok (r, s') \<and> session_base (accepted recv ev) s' \<and>
           (r \<longrightarrow> session_ok (accepted recv ev) s')"
proof (cases ev)
  case TimerFired
  then show ?thesis using onTimer_ok[OF assms(1), of now] by (auto simp: RecieveMessage_def)
next
  case (FromChannel msg)
  then show ?thesis using onMessage_ok[OF assms(1), of msg now] assms(2)
    by (auto simp: RecieveMessage_def session_ok_def)
next
  case ChannelClosed
  then show ?thesis using assms(1) by (auto simp: RecieveMessage_def session_ok_def)
qed

lemma NewSession_ok: "0 \<le> i \<Longrightarrow> i \<le> maxInteger \<Longrightarrow> session_ok [] (NewSession a i)"
  by (simp add: session_ok_def session_base_def NewSession_def maxInteger_def)

section \<open>Progress\<close>

lemma HandleAck_full:
  assumes ok: "session_ok recv s" and ne: "ss_OutgoingBuffer s \<noteq> []"
  shows "\<exists>s'. HandleAck now s (ss_MaxAck s) = Ok s' \<and> session_ok recv s' \<and>
           length (ss_OutgoingBuffer s') < length (ss_OutgoingBuffer s)"
proof -
  from ok ne obtain q where q: "ss_PendingData s = Some q" "pending_ok s q" and base: "session_base recv s"
    by (auto simp: session_ok_def split: option.splits)
  let ?n = "ss_MaxAck s"
  let ?rest = "drop (pd_Length q) (ss_OutgoingBuffer s)"
  let ?s = "s\<lparr>ss_Timer := False, ss_OutgoingBuffer := ?rest, ss_WritePosition := ?n,
             ss_PendingData := None, ss_LastAck := ?n\<rparr>"
  have k: "0 < pd_Length q" "pd_Length q \<le> length (ss_OutgoingBuffer s)"
      "?n = ss_WritePosition s + int (pd_Length q)" using q(2) by (auto simp: pending_ok_def)
  have "ss_LastAck s = ss_WritePosition s" using base by (simp add: session_base_def)
  with q(1) k have run: "HandleAck now s ?n = HandleOutgoingBuffer now ?s"
    by (simp add: HandleAck_def sliceFrom_def)
  obtain s' where s': "HandleAck now s ?n = Ok s'" "session_ok recv s'" using HandleAck_ok[OF ok] by blast
  moreover have "ss_OutgoingBuffer s' = ?rest"
  proof (cases "?rest = []")
    case True
    then show ?thesis using s'(1) run by (auto simp: HandleOutgoingBuffer_idle)
  next
    case False
    have "session_base recv ?s" using base k unfolding session_base_def
      by (auto simp: nat_add_distrib add.commute)
    from HandleOutgoingBuffer_starts[OF this, of now] False s'(1) run show ?thesis by auto
  qed
  ultimately show ?thesis using k by auto
qed

section \<open>Escaped data and idle sessions\<close>

text \<open>Data in which no backslash is followed by a slash or a backslash, or ends the data.\<close>

fun escapeFree :: "string \<Rightarrow> bool" where
  "escapeFree [] = True"
| "escapeFree (c # cs) = ((c = bslash \<longrightarrow> cs \<noteq> [] \<and> \<not> needsEscape (hd cs)) \<and> escapeFree cs)"

lemma unescapeLoop_escapeFree:
  "if escapeFree d then unescapeLoop d out = Some (out @ d)
   else (case unescapeLoop d out of None \<Rightarrow> True | Some t \<Rightarrow> length t < length out + length d)"
proof (induction d out rule: unescapeLoop.induct)
  case (1 out)
  then show ?case by simp
next
  case (2 c rest out)
  show ?case
  proof (cases "c = bslash")
    case False
    then show ?thesis using 2(2) by (auto split: option.splits)
  next
    case True
    show ?thesis
    proof (cases rest)
      case Nil
      then show ?thesis using True by simp
    next
      case (Cons e r)
      show ?thesis
      proof (cases "needsEscape e")
        case esc: True
        have "length t < length out + length (c # rest)" if "unescapeLoop r (out @ [e]) = Some t" for t
          using unescapeLoop_length[OF that] Cons by simp
        with esc True Cons show ?thesis by (auto simp: needsEscape_def split: option.splits)
      next
        case False
        with True Cons 2(2) show ?thesis by (auto simp: needsEscape_def split: option.splits)
      qed
    qed
  qed
qed

text \<open>C15: The idle timeout is lost once the timer has fired with nothing in flight: the branch
  does not re-arm it, so with no further message the session stays open and unchanged however much
  time passes.\<close>
theorem idle_session_never_expires:
  assumes "ss_PendingData s = None" "ss_Timer s" "now \<le> ss_LastMessage s + SessionTimeout"
    and "\<forall>(t, ev)\<in>set later. ev = TimerFired"
  shows "sessionRun ((now, TimerFired) # later) s = Ok (True, s\<lparr>ss_Timer := False\<rparr>)"
proof -
  have "sessionRun later t = Ok (True, t)" if "\<not> ss_Timer t" for t
    using assms(4) that by (induction later) auto
  then show ?thesis using assms(1-3) by (simp add: RecieveMessage_def onTimer_def)
qed

theorem idle_session_never_expires_witness:
  "sessionRun [(5, TimerFired), (10 ^ 18, TimerFired)] (NewSession (1 :: nat) 7) =
   Ok (True, (NewSession 1 7)\<lparr>ss_Timer := False\<rparr>)"
  by (rule idle_session_never_expires) (simp_all add: NewSession_def SessionTimeout_def)

end
