(* ===== verification/LR_Contract.thy ===== *)
theory LR_Contract
  imports LR_Session
begin

text \<open>
  What a session promises on the wire, as an abstract exchange with its client, and the proof that the session of
  \<open>LR_Session\<close> sends exactly that.

  The exchange knows only the bytes the client has got across in order, how far the client has acknowledged
  the reversed stream, which chunk is in flight, and the timing; it has no buffers. \<open>due\<close> gives the datagrams an
  event is answered with, as text of the protocol. The refinement relates it to the session by \<open>exchangeOf\<close>.
\<close>

section \<open>The datagrams of the protocol\<close>

definition ackText :: "int \<Rightarrow> nat \<Rightarrow> string" where
  "ackText ident n = ''/ack/'' @ itoa ident @ ''/'' @ itoa (int n) @ ''/''"

definition closeText :: "int \<Rightarrow> string" where
  "closeText ident = ''/close/'' @ itoa ident @ ''/''"

definition chunkText :: "int \<Rightarrow> nat \<Rightarrow> string \<Rightarrow> string" where
  "chunkText ident pos data = ''/data/'' @ itoa ident @ ''/'' @ itoa (int pos) @ ''/'' @ escape data @ ''/''"

text \<open>The largest chunk whose datagram is smaller than the 1000 bytes of the protocol.\<close>

definition chunkSize :: "int \<Rightarrow> nat \<Rightarrow> string \<Rightarrow> nat" where
  "chunkSize ident pos out =
     last (filter (\<lambda>k. length (chunkText ident pos (take k out)) < 1000) [0..<Suc (length out)])"

section \<open>The exchange\<close>

record 'a Exchange =
  ex_Stream :: string
  ex_Acked :: nat
  ex_Flight :: "(nat \<times> int) option"
  ex_Client :: 'a
  ex_Heard :: int
  ex_Armed :: bool

definition NewExchange :: "'a \<Rightarrow> 'a Exchange" where
  "NewExchange a = \<lparr>ex_Stream = [], ex_Acked = 0, ex_Flight = None, ex_Client = a, ex_Heard = 0, ex_Armed = True\<rparr>"

definition unacked :: "'a Exchange \<Rightarrow> string" where
  "unacked x = drop (ex_Acked x) (reversedStream (ex_Stream x))"

definition inFlight :: "'a Exchange \<Rightarrow> nat" where
  "inFlight x = (case ex_Flight x of None \<Rightarrow> 0 | Some (k, sentAt) \<Rightarrow> k)"

definition nextChunk :: "int \<Rightarrow> int \<Rightarrow> 'a Exchange \<Rightarrow> string list \<times> 'a Exchange" where
  "nextChunk ident now x =
     (if ex_Flight x \<noteq> None \<or> unacked x = [] then ([], x)
      else let k = chunkSize ident (ex_Acked x) (unacked x) in
        ([chunkText ident (ex_Acked x) (take k (unacked x))], x\<lparr>ex_Flight := Some (k, now), ex_Armed := True\<rparr>))"

text \<open>The answer to data: the length of the in-order stream after it, then a chunk if one can start.\<close>

definition dueData :: "int \<Rightarrow> int \<Rightarrow> string \<Rightarrow> int \<Rightarrow> 'a Exchange \<Rightarrow> string list \<times> 'a Exchange" where
  "dueData ident now data pos x =
     (if pos \<noteq> int (length (ex_Stream x)) then ([ackText ident (length (ex_Stream x))], x)
      else case UnescapeData data of
             None \<Rightarrow> ([], x)
           | Some d \<Rightarrow>
               (let stream = ex_Stream x @ d; (chunk, x') = nextChunk ident now (x\<lparr>ex_Stream := stream\<rparr>)
                in (ackText ident (length stream) # chunk, x')))"

text \<open>The answer to an acknowledgement: nothing to an old one, a close to one of bytes never sent, and otherwise
  the next chunk, if there is one.\<close>

definition dueAck :: "int \<Rightarrow> int \<Rightarrow> int \<Rightarrow> 'a Exchange \<Rightarrow> string list \<times> 'a Exchange" where
  "dueAck ident now n x =
     (if n < int (ex_Acked x) then ([], x)
      else if n > int (ex_Acked x + inFlight x) then ([closeText ident], x)
      else if ex_Flight x = None then ([], x)
      else nextChunk ident now (x\<lparr>ex_Acked := nat n, ex_Flight := None, ex_Armed := False\<rparr>))"

text \<open>The timer: close when the client has been silent for too long or has not acknowledged the chunk for too long,
  send the chunk again otherwise.\<close>

definition dueTimer :: "int \<Rightarrow> int \<Rightarrow> 'a Exchange \<Rightarrow> bool \<times> string list \<times> 'a Exchange" where
  "dueTimer ident now x0 =
     (let x = x0\<lparr>ex_Armed := False\<rparr> in
      if now > ex_Heard x + SessionTimeout then (False, [closeText ident], x)
      else case ex_Flight x of
             None \<Rightarrow> (True, [], x)
           | Some (k, sentAt) \<Rightarrow>
               if now - sentAt > SessionTimeout then (False, [closeText ident], x)
               else (True, [chunkText ident (ex_Acked x) (take k (unacked x))], x\<lparr>ex_Armed := True\<rparr>))"

definition due :: "int \<Rightarrow> int \<Rightarrow> 'a SessionEvent \<Rightarrow> 'a Exchange \<Rightarrow> bool \<times> string list \<times> 'a Exchange" where
  "due ident now ev x0 =
     (case ev of
        TimerFired \<Rightarrow> dueTimer ident now x0
      | ChannelClosed \<Rightarrow> (False, [], x0\<lparr>ex_Heard := now\<rparr>)
      | FromChannel msg \<Rightarrow>
          let x1 = x0\<lparr>ex_Heard := now\<rparr>;
              x = (case sm_Address msg of None \<Rightarrow> x1 | Some a \<Rightarrow> x1\<lparr>ex_Client := a\<rparr>) in
          if sm_Type msg = ''connect_client'' then (True, [ackText ident 0], x)
          else if sm_Type msg = ''close_client'' then (False, [closeText ident], x)
          else if sm_Type msg = ''recieved_data'' then (True, dueData ident now (sm_Data msg) (sm_Number msg) x)
          else if sm_Type msg = ''recieved_ack'' then (True, dueAck ident now (sm_Number msg) x)
          else (True, [], x))"

text \<open>A whole exchange: whether it goes on, the datagrams with their destinations, and its last state.\<close>

fun exchange :: "int \<Rightarrow> (int \<times> 'a SessionEvent) list \<Rightarrow> 'a Exchange \<Rightarrow> bool \<times> ('a \<times> string) list \<times> 'a Exchange" where
  "exchange ident [] x = (True, [], x)"
| "exchange ident ((now, ev) # evs) x =
     (if ev = TimerFired \<and> \<not> ex_Armed x then exchange ident evs x
      else
        (let (goes_on, texts, x1) = due ident now ev x; sent = map (Pair (ex_Client x1)) texts in
         if goes_on then (let (running, later, x2) = exchange ident evs x1 in (running, sent @ later, x2))
         else (False, sent, x1)))"

section \<open>Refinement\<close>

definition exchangeOf :: "string \<Rightarrow> 'a Session \<Rightarrow> 'a Exchange" where
  "exchangeOf recv s =
     \<lparr>ex_Stream = recv, ex_Acked = nat (ss_WritePosition s),
      ex_Flight = map_option (\<lambda>p. (pd_Length p, pd_SentAt p)) (ss_PendingData s),
      ex_Client = ss_Address s, ex_Heard = ss_LastMessage s, ex_Armed = ss_Timer s\<rparr>"

lemma exchangeOf_New: "exchangeOf [] (NewSession a i) = NewExchange a"
  by (simp add: exchangeOf_def NewSession_def NewExchange_def)

lemma wire_texts:
  "wireText (plainMessage ''close'' i) = Some (closeText i)"
  "wireText ((plainMessage ''ack'' i)\<lparr>lr_Length := int n\<rparr>) = Some (ackText i n)"
  "wireText \<lparr>lr_Type = ''data'', lr_Session = i, lr_Position = int pos, lr_Data = escape d, lr_Length = 0\<rparr> =
     Some (chunkText i pos d)"
  by (simp_all add: wireText_def plainMessage_def closeText_def ackText_def chunkText_def)

lemma send_close: "SendCloseMessage s = Ok s1 \<Longrightarrow> s1 = s\<lparr>ss_Sent := ss_Sent s @ [(ss_Address s, closeText (ss_ID s))]\<rparr>"
  by (auto simp: SendCloseMessage_def sendEncoded_def Encode_def wire_texts Let_def split: if_splits)

lemma send_ack:
  "SendAckMessage s (int n) = Ok s1 \<Longrightarrow> s1 = s\<lparr>ss_Sent := ss_Sent s @ [(ss_Address s, ackText (ss_ID s) n)]\<rparr>"
  by (auto simp: SendAckMessage_def sendEncoded_def Encode_def wire_texts Let_def split: if_splits)

lemma send_chunk:
  "SendDataMessage s \<lparr>lr_Type = ''data'', lr_Session = ss_ID s, lr_Position = int pos, lr_Data = escape d, lr_Length = 0\<rparr> = Ok s1 \<Longrightarrow>
   s1 = s\<lparr>ss_Sent := ss_Sent s @ [(ss_Address s, chunkText (ss_ID s) pos d)]\<rparr>"
  by (auto simp: SendDataMessage_def sendEncoded_def Encode_def wire_texts Let_def split: if_splits)

text \<open>The packing of the code takes the chunk size of the specification.\<close>

lemma last_filter_upt:
  assumes "k \<le> n" "P k" "\<forall>j. k < j \<and> j \<le> n \<longrightarrow> \<not> P j"
  shows "last (filter P [0..<Suc n]) = k"
proof -
  have u: "[0..<Suc n] = [0..<k] @ k # [Suc k..<Suc n]"
    using assms(1) upt_add_eq_append[of 0 k "Suc n - k"] upt_conv_Cons[of k "Suc n"] by simp
  have "filter P [Suc k..<Suc n] = []" using assms(3) by (auto simp: filter_empty_conv)
  then show ?thesis unfolding u using assms(2) by (simp del: upt_Suc)
qed

lemma length_escape_take: "j \<le> k \<Longrightarrow> length (escape (take j xs)) \<le> length (escape (take k xs))"
proof -
  assume "j \<le> k"
  then have "take k xs = take j xs @ take (k - j) (drop j xs)" by (metis le_add_diff_inverse take_add)
  then show ?thesis by simp
qed

lemma PackDataMessage_chunk:
  assumes "0 \<le> i" "i \<le> maxInteger" "int p \<le> maxInteger"
  shows "PackDataMessage ((plainMessage ''data'' i)\<lparr>lr_Position := int p\<rparr>) out (int p) =
     (\<lparr>lr_Type = ''data'', lr_Session = i, lr_Position = int p, lr_Data = escape (take (chunkSize i p out) out), lr_Length = 0\<rparr>,
      chunkSize i p out)" (is "PackDataMessage ?m _ _ = _")
    and "chunkSize i p out \<le> length out" "out \<noteq> [] \<Longrightarrow> 0 < chunkSize i p out"
proof -
  let ?len = "\<lambda>k. packOverhead i (int p) + int (length (escape (take k out)))"
  obtain k where k: "k \<le> length out"
      "PackDataMessage ?m out (int p) = (?m\<lparr>lr_Data := escape (take k out), lr_Position := int p\<rparr>, k)"
      "out \<noteq> [] \<longrightarrow> 0 < k" "?len k \<le> maxMessageSize" "k < length out \<longrightarrow> ?len (Suc k) > maxMessageSize"
    using PackDataMessage_spec[of ?m "int p" out] assms by (auto simp: plainMessage_def)
  have len: "int (length (chunkText i p (take j out))) = ?len j" for j
    by (simp add: chunkText_def packOverhead_def)
  have "\<not> length (chunkText i p (take j out)) < 1000" if "k < j" "j \<le> length out" for j
    using k(5) that length_escape_take[of "Suc k" j out] len[of j] by (simp add: maxMessageSize_def)
  then have "chunkSize i p out = k" unfolding chunkSize_def
    using k(1,4) len[of k] by (intro last_filter_upt) (auto simp: maxMessageSize_def)
  with k(1-3) show "PackDataMessage ?m out (int p) =
     (\<lparr>lr_Type = ''data'', lr_Session = i, lr_Position = int p, lr_Data = escape (take (chunkSize i p out) out), lr_Length = 0\<rparr>,
      chunkSize i p out)" "chunkSize i p out \<le> length out" "out \<noteq> [] \<Longrightarrow> 0 < chunkSize i p out"
    by (simp_all add: plainMessage_def)
qed

text \<open>What a call added to the datagrams sent.\<close>

definition answered :: "'a Session \<Rightarrow> string list \<Rightarrow> 'a Session \<Rightarrow> bool" where
  "answered s texts s' \<longleftrightarrow>
     ss_ID s' = ss_ID s \<and> ss_Address s' = ss_Address s \<and> ss_Sent s' = ss_Sent s @ map (Pair (ss_Address s)) texts"

lemma and_then_Ok: "and_then r k = Ok v \<longleftrightarrow> (\<exists>u. r = Ok u \<and> k u = Ok v)"
  by (cases r) auto

lemma answered_trans: "answered s ts s1 \<Longrightarrow> answered s1 us s2 \<Longrightarrow> answered s (ts @ us) s2"
  by (simp add: answered_def)

lemma unacked_exchangeOf: "session_base recv s \<Longrightarrow> unacked (exchangeOf recv s) = ss_OutgoingBuffer s"
  by (simp add: session_base_def unacked_def exchangeOf_def)

lemma Close_sends:
  "Close s = Ok s' \<Longrightarrow> answered s [closeText (ss_ID s)] s' \<and> exchangeOf recv s' = exchangeOf recv s"
  by (auto simp: Close_def and_then_Ok answered_def exchangeOf_def dest!: send_close)

lemma HandleOutgoingBuffer_sends:
  assumes base: "session_base recv s" and run: "HandleOutgoingBuffer now s = Ok s'"
  shows "\<exists>texts. nextChunk (ss_ID s) now (exchangeOf recv s) = (texts, exchangeOf recv s') \<and> answered s texts s'"
proof (cases "ss_OutgoingBuffer s = [] \<or> ss_PendingData s \<noteq> None")
  case True
  then have "s' = s" using run by (auto simp: HandleOutgoingBuffer_def)
  moreover have "ex_Flight (exchangeOf recv s) \<noteq> None \<or> unacked (exchangeOf recv s) = []"
    using True unacked_exchangeOf[OF base] by (auto simp: exchangeOf_def)
  ultimately show ?thesis by (auto simp: nextChunk_def answered_def)
next
  case False
  let ?out = "ss_OutgoingBuffer s" and ?p = "nat (ss_WritePosition s)"
  let ?k = "chunkSize (ss_ID s) ?p ?out"
  let ?m = "\<lparr>lr_Type = ''data'', lr_Session = ss_ID s, lr_Position = int ?p, lr_Data = escape (take ?k ?out), lr_Length = 0\<rparr>"
  let ?s1 = "s\<lparr>ss_MaxAck := int ?p + int ?k,
               ss_PendingData := Some \<lparr>pd_Length = ?k, pd_SentAt = now, pd_Payload = ?m\<rparr>\<rparr>"
  have i: "0 \<le> ss_ID s" "ss_ID s \<le> maxInteger" and p: "ss_WritePosition s = int ?p" and "int ?p \<le> maxInteger"
    using base length_stream[of recv] by (auto simp: session_base_def)
  from PackDataMessage_chunk(1)[OF i \<open>int ?p \<le> maxInteger\<close>, of ?out] False run p obtain s1 where
    "SendDataMessage ?s1 ?m = Ok s1" "s' = s1\<lparr>ss_Timer := True\<rparr>"
    by (auto simp: HandleOutgoingBuffer_def and_then_Ok)
  with send_chunk[of ?s1 ?p "take ?k ?out" s1] have
    "s' = ?s1\<lparr>ss_Sent := ss_Sent s @ [(ss_Address s, chunkText (ss_ID s) ?p (take ?k ?out))], ss_Timer := True\<rparr>" by simp
  then show ?thesis using False unacked_exchangeOf[OF base]
    by (auto simp: nextChunk_def answered_def exchangeOf_def Let_def)
qed

lemma HandleRecieveData_sends:
  assumes ok: "session_ok recv s" and n: "pos + int (length data) \<le> maxInteger"
    and run: "HandleRecieveData now s data pos = Ok s'"
  shows "\<exists>texts. dueData (ss_ID s) now data pos (exchangeOf recv s) =
           (texts, exchangeOf (accepted recv (FromChannel (DataMessage pos data a))) s') \<and> answered s texts s'"
proof -
  have base: "session_base recv s" and r: "ss_RecievedPosition s = int (length recv)" and store: "ss_DataStore s = unfinishedLine recv"
    using ok by (auto simp: session_ok_def session_base_def)
  consider "pos \<noteq> int (length recv)" | "pos = int (length recv)" "UnescapeData data = None"
    | d where "pos = int (length recv)" "UnescapeData data = Some d" by blast
  then show ?thesis
  proof cases
    case 1
    with run r have "SendAckMessage s (int (length recv)) = Ok s'" by (simp add: HandleRecieveData_def)
    from send_ack[OF this] 1 show ?thesis
      by (auto simp: dueData_def answered_def exchangeOf_def DataMessage_def)
  next
    case 2
    with run r have "s' = s" by (simp add: HandleRecieveData_def)
    with 2 show ?thesis by (simp add: dueData_def answered_def exchangeOf_def DataMessage_def)
  next
    case (3 d)
    let ?n = "length (recv @ d)"
    let ?s1 = "s\<lparr>ss_RecievedPosition := int ?n\<rparr>"
    let ?new = "reversedStream (unfinishedLine recv @ d)"
    from 3 run r obtain s2 where s2: "SendAckMessage ?s1 (int ?n) = Ok s2"
        "CheckDataStore now (s2\<lparr>ss_DataStore := ss_DataStore s2 @ d\<rparr>) = Ok s'"
      by (auto simp: HandleRecieveData_def and_then_Ok Let_def)
    let ?s3 = "?s1\<lparr>ss_Sent := ss_Sent s @ [(ss_Address s, ackText (ss_ID s) ?n)],
                ss_DataStore := unfinishedLine (recv @ d), ss_OutgoingBuffer := ss_OutgoingBuffer s @ ?new\<rparr>"
    have out: "HandleOutgoingBuffer now ?s3 = Ok s'"
      using s2(2) unfolding send_ack[OF s2(1)]
      by (simp add: CheckDataStore_def reverseLines_spec store unfinishedLine_append[of recv d])
    have m: "int ?n \<le> maxInteger" using UnescapeData_length[OF 3(2)] n 3(1) by simp
    have "legalDatagram (ss_ID s) (recv @ d) (ackText (ss_ID s) ?n)"
    proof -
      have "0 \<le> ss_ID s" "ss_ID s \<le> maxInteger" using base by (simp_all add: session_base_def)
      from wire_ack_length[OF this _ m] have "length (ackText (ss_ID s) ?n) \<le> 999" unfolding wire_texts(2) by simp
      moreover have "\<exists>n. 0 \<le> n \<and> n \<le> int ?n \<and>
          wireText ((plainMessage ''ack'' (ss_ID s))\<lparr>lr_Length := n\<rparr>) = Some (ackText (ss_ID s) ?n)"
        by (intro exI[of _ "int ?n"]) (simp only: wire_texts, simp)
      ultimately show ?thesis unfolding legalDatagram_def by blast
    qed
    then have "session_base (recv @ d) ?s3"
      using base m unfolding session_base_def
      by (auto simp: reversedStream_append[of recv d] intro: legalDatagram_extends)
    from HandleOutgoingBuffer_sends[OF this out] obtain texts where
      "nextChunk (ss_ID s) now (exchangeOf (recv @ d) ?s3) = (texts, exchangeOf (recv @ d) s')" "answered ?s3 texts s'" by auto
    moreover have "exchangeOf (recv @ d) ?s3 = (exchangeOf recv s)\<lparr>ex_Stream := recv @ d\<rparr>" by (simp add: exchangeOf_def)
    ultimately show ?thesis using 3
      by (auto simp: dueData_def answered_def exchangeOf_def DataMessage_def)
  qed
qed

lemma HandleAck_sends:
  assumes ok: "session_ok recv s" and run: "HandleAck now s n = Ok s'"
  shows "\<exists>texts. dueAck (ss_ID s) now n (exchangeOf recv s) = (texts, exchangeOf recv s') \<and> answered s texts s'"
proof -
  have base: "session_base recv s" and p: "0 \<le> ss_WritePosition s" "ss_LastAck s = ss_WritePosition s"
    "ss_OutgoingBuffer s = drop (nat (ss_WritePosition s)) (reversedStream recv)"
    "ss_WritePosition s \<le> int (length (reversedStream recv))"
    using ok by (auto simp: session_ok_def session_base_def)
  have max: "ss_MaxAck s = ss_WritePosition s + int (inFlight (exchangeOf recv s))"
    using ok by (auto simp: session_ok_def pending_ok_def inFlight_def exchangeOf_def split: option.splits)
  have acked: "int (ex_Acked (exchangeOf recv s)) = ss_WritePosition s" using p by (simp add: exchangeOf_def)
  consider "n < ss_LastAck s" | "n \<ge> ss_LastAck s" "n > ss_MaxAck s"
    | "n \<ge> ss_LastAck s" "n \<le> ss_MaxAck s" "ss_PendingData s = None"
    | q where "n \<ge> ss_LastAck s" "n \<le> ss_MaxAck s" "ss_PendingData s = Some q" by fastforce
  then show ?thesis
  proof cases
    case 1
    with run have "s' = s" by (simp add: HandleAck_def)
    with 1 p acked show ?thesis by (simp add: dueAck_def answered_def)
  next
    case 2
    with run have "Close s = Ok s'" by (simp add: HandleAck_def)
    from Close_sends[OF this, of recv] 2 p acked max show ?thesis by (auto simp: dueAck_def)
  next
    case 3
    with run have "s' = s" by (simp add: HandleAck_def)
    with 3 p acked max show ?thesis by (simp add: dueAck_def answered_def exchangeOf_def)
  next
    case (4 q)
    let ?k = "n - ss_WritePosition s"
    let ?s = "s\<lparr>ss_Timer := False, ss_OutgoingBuffer := drop (nat ?k) (ss_OutgoingBuffer s), ss_WritePosition := n,
               ss_PendingData := None, ss_LastAck := n\<rparr>"
    have q: "pending_ok s q" using ok 4 by (simp add: session_ok_def)
    have k: "0 \<le> ?k" "?k \<le> int (pd_Length q)" "pd_Length q \<le> length (ss_OutgoingBuffer s)"
      using 4 q p(2) by (auto simp: pending_ok_def)
    have out: "HandleOutgoingBuffer now ?s = Ok s'"
      using run 4 k by (simp add: HandleAck_def sliceFrom_def)
    have "session_base recv ?s"
      using base k p unfolding session_base_def
      by (auto simp: nat_add_distrib[symmetric] simp del: nat_add_distrib)
    from HandleOutgoingBuffer_sends[OF this out] obtain texts where
      t: "nextChunk (ss_ID s) now (exchangeOf recv ?s) = (texts, exchangeOf recv s')" "answered ?s texts s'" by auto
    have "exchangeOf recv ?s = (exchangeOf recv s)\<lparr>ex_Acked := nat n, ex_Flight := None, ex_Armed := False\<rparr>"
      by (simp add: exchangeOf_def)
    moreover have "ex_Flight (exchangeOf recv s) \<noteq> None" using 4 by (simp add: exchangeOf_def)
    ultimately show ?thesis using t 4 p acked max by (auto simp: dueAck_def answered_def)
  qed
qed

lemma onTimer_sends:
  assumes ok: "session_ok recv s" and run: "onTimer now s = Ok (r, s')"
  shows "\<exists>texts. dueTimer (ss_ID s) now (exchangeOf recv s) = (r, texts, exchangeOf recv s') \<and> answered s texts s'"
proof -
  let ?s = "s\<lparr>ss_Timer := False\<rparr>"
  have x: "exchangeOf recv ?s = (exchangeOf recv s)\<lparr>ex_Armed := False\<rparr>" by (simp add: exchangeOf_def)
  have closes: ?thesis if "Close ?s = Ok s'" "\<not> r" "dueTimer (ss_ID s) now (exchangeOf recv s) =
      (False, [closeText (ss_ID s)], (exchangeOf recv s)\<lparr>ex_Armed := False\<rparr>)"
    using Close_sends[OF that(1), of recv] that(2,3) x by (auto simp: answered_def)
  show ?thesis
  proof (cases "now > ss_LastMessage s + SessionTimeout")
    case True
    then show ?thesis using run by (intro closes) (auto simp: onTimer_def and_then_Ok dueTimer_def exchangeOf_def)
  next
    case False
    show ?thesis
    proof (cases "ss_PendingData s")
      case None
      with False run show ?thesis
        by (auto simp: onTimer_def dueTimer_def exchangeOf_def answered_def)
    next
      case (Some q)
      then have q: "pending_ok s q" and base: "session_base recv s" using ok by (auto simp: session_ok_def)
      show ?thesis
      proof (cases "now - pd_SentAt q > SessionTimeout")
        case True
        with False Some run show ?thesis
          by (intro closes) (auto simp: onTimer_def Let_def and_then_Ok dueTimer_def exchangeOf_def)
      next
        case fresh: False
        have pay: "pd_Payload q = \<lparr>lr_Type = ''data'', lr_Session = ss_ID ?s, lr_Position = int (nat (ss_WritePosition s)),
             lr_Data = escape (take (pd_Length q) (ss_OutgoingBuffer s)), lr_Length = 0\<rparr>"
          using q base by (simp add: pending_ok_def session_base_def)
        from fresh False Some run obtain s1 where
          s1: "SendDataMessage ?s (pd_Payload q) = Ok s1" "r" "s' = s1\<lparr>ss_Timer := True\<rparr>"
          by (auto simp: onTimer_def Let_def and_then_Ok)
        note sent = send_chunk[OF s1(1)[unfolded pay]]
        show ?thesis
          unfolding s1(3) sent
          using fresh False Some s1(2) unacked_exchangeOf[OF base]
          by (auto simp: dueTimer_def Let_def exchangeOf_def answered_def unacked_def)
      qed
    qed
  qed
qed

text \<open>The session answers every event as the exchange says.\<close>

lemma RecieveMessage_sends:
  assumes ok: "session_ok recv s" and ev: "event_ok ev" and run: "RecieveMessage now ev s = Ok (r, s')"
  shows "\<exists>texts. due (ss_ID s) now ev (exchangeOf recv s) = (r, texts, exchangeOf (accepted recv ev) s') \<and>
           ss_ID s' = ss_ID s \<and> ss_Sent s' = ss_Sent s @ map (Pair (ss_Address s')) texts"
proof (cases ev)
  case TimerFired
  with onTimer_sends[OF ok, of now r s'] run show ?thesis
    by (auto simp: RecieveMessage_def due_def answered_def)
next
  case ChannelClosed
  with run show ?thesis by (auto simp: RecieveMessage_def due_def exchangeOf_def)
next
  case (FromChannel msg)
  define t where "t = (case sm_Address msg of None \<Rightarrow> s\<lparr>ss_LastMessage := now\<rparr>
                       | Some a \<Rightarrow> s\<lparr>ss_LastMessage := now\<rparr>\<lparr>ss_Address := a\<rparr>)"
  have t: "session_ok recv t" using ok by (auto simp: t_def session_ok_frame split: option.splits)
  have i: "ss_ID t = ss_ID s" "ss_Sent t = ss_Sent s" by (simp_all add: t_def split: option.splits)
  define x where "x = exchangeOf recv t"
  have x: "x = (case sm_Address msg of None \<Rightarrow> (exchangeOf recv s)\<lparr>ex_Heard := now\<rparr>
                | Some a \<Rightarrow> (exchangeOf recv s)\<lparr>ex_Heard := now\<rparr>\<lparr>ex_Client := a\<rparr>)"
    by (simp add: x_def t_def exchangeOf_def split: option.splits)
  have msg: "onMessage now s msg = Ok (r, s')" using run FromChannel by (simp add: RecieveMessage_def)
  have same: "accepted recv ev = recv" if "sm_Type msg \<noteq> ''recieved_data''" using that FromChannel by simp
  have "\<exists>texts. due (ss_ID s) now ev (exchangeOf recv s) = (r, texts, exchangeOf (accepted recv ev) s') \<and> answered t texts s'"
  proof (cases "sm_Type msg = ''recieved_data''")
    case True
    with msg have d: "HandleRecieveData now t (sm_Data msg) (sm_Number msg) = Ok s'" "r"
      by (auto simp: onMessage_def t_def[symmetric] Let_def and_then_Ok)
    have "sm_Number msg + int (length (sm_Data msg)) \<le> maxInteger" using ev True FromChannel by simp
    from HandleRecieveData_sends[OF t this d(1), of undefined] True d(2) i show ?thesis
      by (auto simp: FromChannel due_def x[symmetric] x_def[symmetric] Let_def DataMessage_def)
  next
    case data: False
    consider "sm_Type msg = ''connect_client''" | "sm_Type msg = ''close_client''" | "sm_Type msg = ''recieved_ack''"
      | "sm_Type msg \<notin> {''connect_client'', ''close_client'', ''recieved_data'', ''recieved_ack''}" using data by blast
    then show ?thesis
    proof cases
      case 1
      with msg have "SendAckMessage t (int 0) = Ok s'" "r" by (auto simp: onMessage_def t_def[symmetric] Let_def and_then_Ok)
      moreover from this send_ack[of t 0 s'] have "exchangeOf recv s' = x" "answered t [ackText (ss_ID s) 0] s'"
        by (simp_all add: x_def exchangeOf_def answered_def i)
      ultimately show ?thesis using 1 same[OF data]
        by (auto simp: FromChannel due_def x[symmetric] Let_def)
    next
      case 2
      with msg have "Close t = Ok s'" "\<not> r" by (auto simp: onMessage_def t_def[symmetric] Let_def and_then_Ok)
      with Close_sends[of t s' recv] 2 i same[OF data] show ?thesis
        by (auto simp: FromChannel due_def x[symmetric] x_def Let_def)
    next
      case 3
      with msg have a: "HandleAck now t (sm_Number msg) = Ok s'" "r"
        by (auto simp: onMessage_def t_def[symmetric] Let_def and_then_Ok)
      from HandleAck_sends[OF t a(1)] 3 a(2) i same[OF data] show ?thesis
        by (auto simp: FromChannel due_def x[symmetric] x_def Let_def)
    next
      case 4
      with msg have "s' = t" "r" by (auto simp: onMessage_def t_def[symmetric] Let_def)
      with 4 same[OF data] show ?thesis
        by (auto simp: FromChannel due_def x[symmetric] x_def Let_def answered_def)
    qed
  qed
  then show ?thesis using i by (auto simp: answered_def)
qed

section \<open>What has been sent\<close>

text \<open>The chunk of \<open>k\<close> bytes of the stream at \<open>pos\<close> has been sent.\<close>

definition sentChunk :: "int \<Rightarrow> string \<Rightarrow> ('a \<times> string) list \<Rightarrow> nat \<Rightarrow> nat \<Rightarrow> bool" where
  "sentChunk ident stream sent pos k \<longleftrightarrow>
     0 < k \<and> pos + k \<le> length stream \<and> chunkText ident pos (take k (drop pos stream)) \<in> snd ` set sent"

definition byteSent :: "int \<Rightarrow> string \<Rightarrow> ('a \<times> string) list \<Rightarrow> nat \<Rightarrow> bool" where
  "byteSent ident stream sent p \<longleftrightarrow> (\<exists>pos k. pos \<le> p \<and> p < pos + k \<and> sentChunk ident stream sent pos k)"

text \<open>Every byte up to the acknowledged position, and the chunk in flight, has been sent.\<close>

definition covered :: "int \<Rightarrow> 'a Exchange \<Rightarrow> ('a \<times> string) list \<Rightarrow> bool" where
  "covered ident x sent \<longleftrightarrow>
     (\<forall>p < ex_Acked x. byteSent ident (reversedStream (ex_Stream x)) sent p) \<and>
     (\<forall>k sentAt. ex_Flight x = Some (k, sentAt) \<longrightarrow> sentChunk ident (reversedStream (ex_Stream x)) sent (ex_Acked x) k)"

lemma sentChunk_more:
  "sentChunk i stream sent pos k \<Longrightarrow> sentChunk i stream (sent @ later) pos k"
  "sentChunk i stream sent pos k \<Longrightarrow> sentChunk i (stream @ new) sent pos k"
  by (auto simp: sentChunk_def)

lemma byteSent_more:
  "byteSent i stream sent p \<Longrightarrow> byteSent i stream (sent @ later) p"
  "byteSent i stream sent p \<Longrightarrow> byteSent i (stream @ new) sent p"
  by (meson byteSent_def sentChunk_more)+

lemma covered_more: "covered i x sent \<Longrightarrow> covered i x (sent @ later)"
  by (simp add: covered_def sentChunk_more(1) byteSent_more(1))

lemma client_covered_frame [simp]:
  "covered i (x\<lparr>ex_Heard := t\<rparr>) sent = covered i x sent"
  "covered i (x\<lparr>ex_Client := a\<rparr>) sent = covered i x sent"
  "covered i (x\<lparr>ex_Armed := b\<rparr>) sent = covered i x sent"
  by (simp_all add: covered_def)

lemma covered_extend: "covered i x sent \<Longrightarrow> covered i (x\<lparr>ex_Stream := ex_Stream x @ d\<rparr>) sent"
  by (simp add: covered_def reversedStream_append[of "ex_Stream x" d] sentChunk_more(2) byteSent_more(2))

lemma covered_acked:
  assumes "covered i x sent" "n \<le> ex_Acked x + inFlight x"
  shows "covered i (x\<lparr>ex_Acked := n, ex_Flight := None\<rparr>) sent"
proof -
  have "byteSent i (reversedStream (ex_Stream x)) sent p" if "p < n" for p
  proof (cases "p < ex_Acked x")
    case True
    then show ?thesis using assms(1) by (simp add: covered_def)
  next
    case False
    with that assms(2) obtain k t where "ex_Flight x = Some (k, t)" "p < ex_Acked x + k"
      by (auto simp: inFlight_def split: option.splits prod.splits)
    with False assms(1) show ?thesis unfolding byteSent_def
      by (intro exI[of _ "ex_Acked x"] exI[of _ k]) (simp add: covered_def)
  qed
  then show ?thesis by (simp add: covered_def)
qed

lemma nextChunk_covered:
  assumes "covered i x sent" "nextChunk i now x = (texts, x')"
    and "0 \<le> i" "i \<le> maxInteger" "int (length (ex_Stream x')) \<le> maxInteger"
  shows "covered i x' (sent @ map (Pair a) texts)"
proof (cases "ex_Flight x \<noteq> None \<or> unacked x = []")
  case True
  then show ?thesis using assms(1,2) by (simp add: nextChunk_def)
next
  case False
  let ?k = "chunkSize i (ex_Acked x) (unacked x)"
  have x': "x' = x\<lparr>ex_Flight := Some (?k, now), ex_Armed := True\<rparr>" and
    t: "texts = [chunkText i (ex_Acked x) (take ?k (unacked x))]"
    using False assms(2) by (auto simp: nextChunk_def Let_def)
  have "ex_Acked x < length (reversedStream (ex_Stream x))" using False by (simp add: unacked_def)
  then have "int (ex_Acked x) \<le> maxInteger" using assms(5) length_stream[of "ex_Stream x"] by (simp add: x')
  from PackDataMessage_chunk(2,3)[OF assms(3,4) this, of "unacked x"] False
  have k: "0 < ?k" "?k \<le> length (unacked x)" by simp_all
  have "sentChunk i (reversedStream (ex_Stream x)) (sent @ map (Pair a) texts) (ex_Acked x) ?k"
    using k False unfolding sentChunk_def t by (simp add: unacked_def)
  moreover have "\<forall>p < ex_Acked x. byteSent i (reversedStream (ex_Stream x)) (sent @ map (Pair a) texts) p"
    using covered_more[OF assms(1), of "map (Pair a) texts"] by (simp add: covered_def)
  ultimately show ?thesis by (simp add: covered_def x')
qed

lemma due_covered:
  assumes c: "covered i x sent" and d: "due i now ev x = (r, texts, x')"
    and b: "0 \<le> i" "i \<le> maxInteger" "int (length (ex_Stream x')) \<le> maxInteger"
  shows "covered i x' (sent @ map (Pair a) texts)"
proof (cases ev)
  case TimerFired
  then show ?thesis using c d
    by (auto simp: due_def dueTimer_def Let_def intro: covered_more split: if_splits option.splits prod.splits)
next
  case ChannelClosed
  then show ?thesis using c d by (auto simp: due_def)
next
  case (FromChannel msg)
  define y where "y = (case sm_Address msg of None \<Rightarrow> x\<lparr>ex_Heard := now\<rparr> | Some a \<Rightarrow> x\<lparr>ex_Heard := now\<rparr>\<lparr>ex_Client := a\<rparr>)"
  have y: "covered i y sent" using c by (simp add: y_def split: option.splits)
  show ?thesis
  proof (cases "sm_Type msg = ''recieved_data'' \<or> sm_Type msg = ''recieved_ack''")
    case False
    then show ?thesis using d y by (auto simp: FromChannel due_def y_def[symmetric] Let_def intro: covered_more split: if_splits)
  next
    case True
    then consider "dueData i now (sm_Data msg) (sm_Number msg) y = (texts, x')" | "dueAck i now (sm_Number msg) y = (texts, x')"
      using d by (auto simp: FromChannel due_def y_def[symmetric] Let_def)
    then show ?thesis
    proof cases
      case 1
      show ?thesis
      proof (cases "sm_Number msg = int (length (ex_Stream y)) \<and> UnescapeData (sm_Data msg) \<noteq> None")
        case False
        with 1 y show ?thesis by (auto simp: dueData_def intro: covered_more split: if_splits)
      next
        case True
        then obtain u chunk where u: "nextChunk i now (y\<lparr>ex_Stream := ex_Stream y @ u\<rparr>) = (chunk, x')"
          "texts = ackText i (length (ex_Stream y @ u)) # chunk"
          using 1 by (auto simp: dueData_def Let_def split: prod.splits)
        from nextChunk_covered[OF covered_more[OF covered_extend[OF y]] u(1) b,
            of "[(a, ackText i (length (ex_Stream y @ u)))]" a] u(2)
        show ?thesis by simp
      qed
    next
      case 2
      show ?thesis
      proof (cases "int (ex_Acked y) \<le> sm_Number msg \<and> sm_Number msg \<le> int (ex_Acked y + inFlight y) \<and> ex_Flight y \<noteq> None")
        case False
        with 2 y show ?thesis by (auto simp: dueAck_def intro: covered_more split: if_splits)
      next
        case True
        then have n: "nextChunk i now (y\<lparr>ex_Acked := nat (sm_Number msg), ex_Flight := None, ex_Armed := False\<rparr>) = (texts, x')"
          using 2 by (auto simp: dueAck_def)
        have "covered i (y\<lparr>ex_Acked := nat (sm_Number msg), ex_Flight := None\<rparr>) sent"
          using True by (intro covered_acked[OF y]) linarith
        then have "covered i (y\<lparr>ex_Acked := nat (sm_Number msg), ex_Flight := None, ex_Armed := False\<rparr>) sent"
          by (simp add: covered_def)
        from nextChunk_covered[OF this n b] show ?thesis .
      qed
    qed
  qed
qed

lemma RecieveMessage_covered:
  assumes ok: "session_ok recv s" and ev: "event_ok ev" and run: "RecieveMessage now ev s = Ok (r, s')"
    and cov: "covered (ss_ID s) (exchangeOf recv s) (ss_Sent s)"
  shows "covered (ss_ID s') (exchangeOf (accepted recv ev) s') (ss_Sent s')"
proof -
  obtain texts where t: "due (ss_ID s) now ev (exchangeOf recv s) = (r, texts, exchangeOf (accepted recv ev) s')"
      "ss_ID s' = ss_ID s" "ss_Sent s' = ss_Sent s @ map (Pair (ss_Address s')) texts"
    using RecieveMessage_sends[OF ok ev run] by blast
  have "session_base (accepted recv ev) s'" using RecieveMessage_ok[OF ok ev, of now] run by auto
  then have "0 \<le> ss_ID s" "ss_ID s \<le> maxInteger" "int (length (ex_Stream (exchangeOf (accepted recv ev) s'))) \<le> maxInteger"
    using t(2) by (simp_all add: session_base_def exchangeOf_def)
  from due_covered[OF cov t(1) this, of "ss_Address s'"] t(2,3) show ?thesis by simp
qed

section \<open>Whole runs\<close>

text \<open>The client's stream after a list of events.\<close>

fun acceptedAll :: "string \<Rightarrow> (int \<times> 'a SessionEvent) list \<Rightarrow> string" where
  "acceptedAll recv [] = recv"
| "acceptedAll recv ((now, ev) # evs) = acceptedAll (accepted recv ev) evs"

text \<open>A session in the middle of its life, and what holds also when its loop has just returned.\<close>

definition session_inv :: "string \<Rightarrow> 'a Session \<Rightarrow> bool" where
  "session_inv recv s \<longleftrightarrow> session_ok recv s \<and> covered (ss_ID s) (exchangeOf recv s) (ss_Sent s)"

lemma NewSession_inv: "0 \<le> i \<Longrightarrow> i \<le> maxInteger \<Longrightarrow> session_inv [] (NewSession a i)"
  by (simp add: session_inv_def NewSession_ok exchangeOf_New) (simp add: covered_def NewExchange_def)

lemma session_inv_step:
  assumes "session_inv recv s" "event_ok ev"
  obtains r s' texts where "RecieveMessage now ev s = Ok (r, s')" "session_base (accepted recv ev) s'"
    "r \<longrightarrow> session_inv (accepted recv ev) s'" "ss_ID s' = ss_ID s"
    "due (ss_ID s) now ev (exchangeOf recv s) = (r, texts, exchangeOf (accepted recv ev) s')"
    "ss_Sent s' = ss_Sent s @ map (Pair (ss_Address s')) texts"
proof -
  have ok: "session_ok recv s" and cov: "covered (ss_ID s) (exchangeOf recv s) (ss_Sent s)"
    using assms(1) by (simp_all add: session_inv_def)
  obtain r s' where s': "RecieveMessage now ev s = Ok (r, s')" "session_base (accepted recv ev) s'"
    "r \<longrightarrow> session_ok (accepted recv ev) s'" using RecieveMessage_ok[OF ok assms(2), of now] by blast
  obtain texts where t: "due (ss_ID s) now ev (exchangeOf recv s) = (r, texts, exchangeOf (accepted recv ev) s')"
    "ss_ID s' = ss_ID s" "ss_Sent s' = ss_Sent s @ map (Pair (ss_Address s')) texts"
    using RecieveMessage_sends[OF ok assms(2) s'(1)] by blast
  have "r \<longrightarrow> session_inv (accepted recv ev) s'"
    using s'(3) RecieveMessage_covered[OF ok assms(2) s'(1) cov] by (simp add: session_inv_def)
  from that[OF s'(1,2) this t(2,1,3)] show ?thesis .
qed

lemma sessionRun_ok:
  assumes "session_inv recv s" "\<forall>(now, ev)\<in>set evs. event_ok ev"
  shows "\<exists>running s' n sent. sessionRun evs s = Ok (running, s') \<and> n \<le> length evs \<and> (running \<longrightarrow> n = length evs) \<and>
           session_base (acceptedAll recv (take n evs)) s' \<and> (running \<longrightarrow> session_inv (acceptedAll recv (take n evs)) s') \<and>
           ss_ID s' = ss_ID s \<and> ss_Sent s' = ss_Sent s @ sent \<and>
           exchange (ss_ID s) evs (exchangeOf recv s) = (running, sent, exchangeOf (acceptedAll recv (take n evs)) s')"
  using assms
proof (induction evs arbitrary: recv s)
  case Nil
  then show ?case by (auto simp: session_inv_def session_ok_def)
next
  case (Cons e evs)
  obtain now ev where e: "e = (now, ev)" by force
  have armed: "ex_Armed (exchangeOf recv s) = ss_Timer s" by (simp add: exchangeOf_def)
  show ?case
  proof (cases "ev = TimerFired \<and> \<not> ss_Timer s")
    case True
    then obtain r s' n sent where "sessionRun evs s = Ok (r, s')" "n \<le> length evs" "r \<longrightarrow> n = length evs"
      "session_base (acceptedAll recv (take n evs)) s'" "r \<longrightarrow> session_inv (acceptedAll recv (take n evs)) s'"
      "ss_ID s' = ss_ID s" "ss_Sent s' = ss_Sent s @ sent"
      "exchange (ss_ID s) evs (exchangeOf recv s) = (r, sent, exchangeOf (acceptedAll recv (take n evs)) s')"
      using Cons.IH[OF Cons.prems(1)] Cons.prems(2) by fastforce
    with True e armed show ?thesis
      by (intro exI[of _ r] exI[of _ s'] exI[of _ "Suc n"] exI[of _ sent]) simp
  next
    case False
    have "event_ok ev" using Cons.prems(2) e by simp
    with Cons.prems(1) obtain r s1 texts where
      s1: "RecieveMessage now ev s = Ok (r, s1)" "session_base (accepted recv ev) s1"
        "r \<longrightarrow> session_inv (accepted recv ev) s1" "ss_ID s1 = ss_ID s"
        "due (ss_ID s) now ev (exchangeOf recv s) = (r, texts, exchangeOf (accepted recv ev) s1)"
        "ss_Sent s1 = ss_Sent s @ map (Pair (ss_Address s1)) texts"
      by (rule session_inv_step)
    have run: "sessionRun (e # evs) s = (if r then sessionRun evs s1 else Ok (False, s1))"
      using False s1(1) by (auto simp: e)
    have client: "ex_Client (exchangeOf (accepted recv ev) s1) = ss_Address s1" by (simp add: exchangeOf_def)
    let ?sent = "map (Pair (ss_Address s1)) texts" and ?x1 = "exchangeOf (accepted recv ev) s1"
    have exch: "exchange (ss_ID s) (e # evs) (exchangeOf recv s) =
        (if r then let (running, later, x2) = exchange (ss_ID s) evs ?x1 in (running, ?sent @ later, x2)
         else (False, ?sent, ?x1))"
      using False s1(5) client armed by (auto simp: e Let_def)
    show ?thesis
    proof (cases r)
      case True
      then obtain r' s' n sent where "sessionRun evs s1 = Ok (r', s')" "n \<le> length evs" "r' \<longrightarrow> n = length evs"
        "session_base (acceptedAll (accepted recv ev) (take n evs)) s'"
        "r' \<longrightarrow> session_inv (acceptedAll (accepted recv ev) (take n evs)) s'"
        "ss_ID s' = ss_ID s1" "ss_Sent s' = ss_Sent s1 @ sent"
        "exchange (ss_ID s1) evs (exchangeOf (accepted recv ev) s1) =
           (r', sent, exchangeOf (acceptedAll (accepted recv ev) (take n evs)) s')"
        using Cons.IH[of "accepted recv ev" s1] s1(3) Cons.prems(2) by fastforce
      then show ?thesis using True s1(4,6) unfolding run exch
        by (intro exI[of _ r'] exI[of _ s'] exI[of _ "Suc n"] exI[of _ "?sent @ sent"]) (simp add: e)
    next
      case stop: False
      then show ?thesis using s1(2,4,6) unfolding run exch
        by (intro exI[of _ False] exI[of _ s1] exI[of _ "Suc 0"] exI[of _ ?sent]) (simp add: e)
    qed
  qed
qed

lemma sessionRun_new:
  assumes "0 \<le> i" "i \<le> maxInteger" "\<forall>(now, ev)\<in>set evs. event_ok ev"
  shows "\<exists>running s n. sessionRun evs (NewSession a i) = Ok (running, s) \<and> n \<le> length evs \<and> (running \<longrightarrow> n = length evs) \<and>
           session_base (acceptedAll [] (take n evs)) s \<and> (running \<longrightarrow> session_inv (acceptedAll [] (take n evs)) s) \<and>
           ss_ID s = i \<and>
           exchange i evs (NewExchange a) = (running, ss_Sent s, exchangeOf (acceptedAll [] (take n evs)) s)"
proof -
  have "ss_ID (NewSession a i) = i" "ss_Sent (NewSession a i) = []" by (simp_all add: NewSession_def)
  with sessionRun_ok[OF NewSession_inv[OF assms(1,2), of a] assms(3)] show ?thesis
    unfolding exchangeOf_New by (metis append_Nil)
qed

lemma sessionRun_new_running:
  assumes "0 \<le> i" "i \<le> maxInteger" "\<forall>(now, ev)\<in>set evs. event_ok ev"
    and "sessionRun evs (NewSession a i) = Ok (True, s)"
  shows "session_inv (acceptedAll [] evs) s" "session_ok (acceptedAll [] evs) s" "ss_ID s = i"
  using sessionRun_new[OF assms(1-3), of a] assms(4) by (auto simp: session_inv_def)

section \<open>A client that acknowledges\<close>

definition clientAcks :: "int \<Rightarrow> int list \<Rightarrow> (int \<times> 'a SessionEvent) list" where
  "clientAcks now ns = map (\<lambda>n. (now, FromChannel (AckMessage n None))) ns"

lemma clientAcks_simps [simp]:
  "clientAcks now [] = []"
  "clientAcks now (n # ns) = (now, FromChannel (AckMessage n None)) # clientAcks now ns"
  by (simp_all add: clientAcks_def)

text \<open>The acknowledgement of the chunk in flight: it names the end of a chunk that has been sent.\<close>

lemma ack_in_flight:
  assumes inv: "session_inv recv s" and ne: "ss_OutgoingBuffer s \<noteq> []"
  obtains s1 pos k where "RecieveMessage now (FromChannel (AckMessage (ss_MaxAck s) None)) s = Ok (True, s1)"
    "session_inv recv s1" "ss_ID s1 = ss_ID s" "length (ss_OutgoingBuffer s1) < length (ss_OutgoingBuffer s)"
    "ss_MaxAck s = int (pos + k)" "sentChunk (ss_ID s) (reversedStream recv) (ss_Sent s) pos k"
proof -
  let ?t = "s\<lparr>ss_LastMessage := now\<rparr>" and ?ev = "FromChannel (AckMessage (ss_MaxAck s) None) :: 'a SessionEvent"
  have ok: "session_ok recv s" using inv by (simp add: session_inv_def)
  have t: "session_ok recv ?t" using ok by (rule session_ok_frame)
  from HandleAck_full[OF t, of now] ne obtain s' where
    s': "HandleAck now ?t (ss_MaxAck s) = Ok s'" "length (ss_OutgoingBuffer s') < length (ss_OutgoingBuffer s)" by auto
  have run: "RecieveMessage now ?ev s = Ok (True, s')"
    using s'(1) by (simp add: RecieveMessage_def onMessage_def AckMessage_def)
  have same: "accepted recv ?ev = recv" and ev: "event_ok ?ev" by (simp_all add: AckMessage_def)
  obtain r s1 texts where s1: "RecieveMessage now ?ev s = Ok (r, s1)" "r \<longrightarrow> session_inv recv s1" "ss_ID s1 = ss_ID s"
    using session_inv_step[OF inv ev, of now] unfolding same by metis
  from ok ne obtain q where q: "ss_PendingData s = Some q" "pending_ok s q" "0 \<le> ss_WritePosition s"
    by (auto simp: session_ok_def session_base_def split: option.splits)
  have "sentChunk (ss_ID s) (reversedStream recv) (ss_Sent s) (nat (ss_WritePosition s)) (pd_Length q)"
    using inv q(1) by (simp add: session_inv_def covered_def exchangeOf_def)
  moreover have "ss_MaxAck s = int (nat (ss_WritePosition s) + pd_Length q)" using q(2,3) by (simp add: pending_ok_def)
  moreover have "s1 = s'" "r" using s1(1) run by simp_all
  ultimately show ?thesis using s1(2,3) run s'(2) by (intro that) simp_all
qed

lemma acks_drain:
  "session_inv recv s \<Longrightarrow>
   \<exists>ns s'. length ns \<le> length (ss_OutgoingBuffer s) \<and>
     (\<forall>j < length ns. \<exists>t pos k. sessionRun (clientAcks now (take j ns)) s = Ok (True, t) \<and>
        ns ! j = int (pos + k) \<and> sentChunk (ss_ID s) (reversedStream recv) (ss_Sent t) pos k) \<and>
     sessionRun (clientAcks now ns) s = Ok (True, s') \<and> session_inv recv s' \<and> ss_ID s' = ss_ID s \<and> ss_OutgoingBuffer s' = []"
proof (induction "length (ss_OutgoingBuffer s)" arbitrary: s rule: less_induct)
  case less
  show ?case
  proof (cases "ss_OutgoingBuffer s = []")
    case True
    then show ?thesis using less.prems by (intro exI[of _ "[]"]) simp
  next
    case False
    obtain s1 pos k where s1: "RecieveMessage now (FromChannel (AckMessage (ss_MaxAck s) None)) s = Ok (True, s1)"
      "session_inv recv s1" "ss_ID s1 = ss_ID s" "length (ss_OutgoingBuffer s1) < length (ss_OutgoingBuffer s)"
      "ss_MaxAck s = int (pos + k)" "sentChunk (ss_ID s) (reversedStream recv) (ss_Sent s) pos k"
      by (rule ack_in_flight[OF less.prems False])
    from less.hyps[OF s1(4,2)] obtain ns s' where
      ns: "length ns \<le> length (ss_OutgoingBuffer s1)"
        "\<forall>j < length ns. \<exists>t pos k. sessionRun (clientAcks now (take j ns)) s1 = Ok (True, t) \<and>
           ns ! j = int (pos + k) \<and> sentChunk (ss_ID s) (reversedStream recv) (ss_Sent t) pos k"
        "sessionRun (clientAcks now ns) s1 = Ok (True, s')" "session_inv recv s'" "ss_ID s' = ss_ID s" "ss_OutgoingBuffer s' = []"
      unfolding s1(3) by blast
    let ?ns = "ss_MaxAck s # ns"
    have "\<exists>t pos k. sessionRun (clientAcks now (take j ?ns)) s = Ok (True, t) \<and>
            ?ns ! j = int (pos + k) \<and> sentChunk (ss_ID s) (reversedStream recv) (ss_Sent t) pos k" if "j < length ?ns" for j
    proof (cases j)
      case 0
      with s1(5,6) show ?thesis by auto
    next
      case (Suc i)
      with ns(2) that s1(1) show ?thesis by simp
    qed
    then show ?thesis using ns(1,3-6) s1(1,4) by (intro exI[of _ ?ns] exI[of _ s']) simp
  qed
qed

section \<open>Properties\<close>

text \<open>C8: The session implements its contract, to the datagram: whatever messages, timer events and acknowledgements
  it handles, it never panics, and the list of datagrams it sends, with their destinations and in order, is exactly
  the one of the abstract exchange: every connect is acknowledged with 0, every piece of data with the length of the
  in-order stream after it, a close is answered with a close, and the reversed lines go out chunk by chunk, each the
  longest that fits, one in flight at a time, sent again when the timer fires and followed by the next when it is
  acknowledged. With \<open>recv\<close> the in-order data accepted (from the first \<open>n\<close> events, all of them unless the loop
  returned) the session keeps the unfinished line and the not yet acknowledged part of the reversed lines of \<open>recv\<close>.\<close>
theorem session_reverses_lines:
  assumes "0 \<le> i" "i \<le> maxInteger" "\<forall>(now, ev)\<in>set evs. event_ok ev"
  shows "\<exists>running s n recv x. sessionRun evs (NewSession a i) = Ok (running, s) \<and>
           exchange i evs (NewExchange a) = (running, ss_Sent s, x) \<and> ex_Stream x = recv \<and>
           n \<le> length evs \<and> (running \<longrightarrow> n = length evs) \<and> recv = acceptedAll [] (take n evs) \<and>
           ss_RecievedPosition s = int (length recv) \<and>
           ss_DataStore s = unfinishedLine recv \<and>
           ss_OutgoingBuffer s = drop (nat (ss_WritePosition s)) (reversedStream recv) \<and>
           ss_WritePosition s = int (ex_Acked x) \<and>
           (\<forall>(addr, w)\<in>set (ss_Sent s). legalDatagram i recv w)"
proof -
  from sessionRun_new[OF assms, of a] obtain running s n where
    r: "sessionRun evs (NewSession a i) = Ok (running, s)" "n \<le> length evs" "running \<longrightarrow> n = length evs"
    "session_base (acceptedAll [] (take n evs)) s" "ss_ID s = i"
    "exchange i evs (NewExchange a) = (running, ss_Sent s, exchangeOf (acceptedAll [] (take n evs)) s)" by blast
  let ?recv = "acceptedAll [] (take n evs)"
  show ?thesis
    by (rule exI[of _ running], rule exI[of _ s], rule exI[of _ n], rule exI[of _ ?recv], rule exI[of _ "exchangeOf ?recv s"])
      (use r in \<open>auto simp: session_base_def exchangeOf_def\<close>)
qed

definition demo_events :: "(int \<times> nat SessionEvent) list" where
  "demo_events =
     [(0, FromChannel (ConnectMessage (Some 1))),
      (1, FromChannel (DataMessage 0 (''ab'' @ [newline]) (Some 1))),
      (2, TimerFired)]"

theorem session_reverses_lines_witness:
  "\<exists>running s n recv x. sessionRun demo_events (NewSession 1 7) = Ok (running, s) \<and>
     exchange 7 demo_events (NewExchange 1) = (running, ss_Sent s, x) \<and> ex_Stream x = recv \<and>
     n \<le> length demo_events \<and> (running \<longrightarrow> n = length demo_events) \<and> recv = acceptedAll [] (take n demo_events) \<and>
     ss_RecievedPosition s = int (length recv) \<and> ss_DataStore s = unfinishedLine recv \<and>
     ss_OutgoingBuffer s = drop (nat (ss_WritePosition s)) (reversedStream recv) \<and> ss_WritePosition s = int (ex_Acked x) \<and>
     (\<forall>(addr, w)\<in>set (ss_Sent s). legalDatagram 7 recv w)"
  by (rule session_reverses_lines)
    (simp_all add: demo_events_def maxInteger_def ConnectMessage_def DataMessage_def)

text \<open>A session whose loop is running never has unsent data without a chunk in flight and an
  armed retransmission timer, acknowledgements beyond \<open>MaxAck\<close> are exactly those beyond the chunk,
  and its last acknowledged position is its write position.\<close>
theorem unsent_data_is_in_flight:
  assumes "0 \<le> i" "i \<le> maxInteger" "\<forall>(now, ev)\<in>set evs. event_ok ev"
    and "sessionRun evs (NewSession a i) = Ok (True, s)"
  shows "ss_LastAck s = ss_WritePosition s \<and>
         (case ss_PendingData s of
            None \<Rightarrow> ss_OutgoingBuffer s = [] \<and> ss_MaxAck s = ss_WritePosition s
          | Some p \<Rightarrow> ss_Timer s \<and> 0 < pd_Length p \<and> ss_MaxAck s = ss_WritePosition s + int (pd_Length p) \<and>
                      UnescapeData (lr_Data (pd_Payload p)) = Some (take (pd_Length p) (ss_OutgoingBuffer s)))"
  using sessionRun_new_running(2)[OF assms]
  by (auto simp: session_ok_def session_base_def pending_ok_def split: option.splits)

text \<open>C9: Whatever happened before, a running session delivers the whole reversed stream to a client that
  acknowledges what it is sent. There is a list of at most one acknowledgement per byte still outgoing, each the end of a chunk
  that the session had sent when the acknowledgement arrives, after which every byte of the reversed stream has been
  sent, in a chunk of the true bytes at their true position, and the session has nothing left to send.\<close>
theorem acks_complete_delivery:
  assumes "0 \<le> i" "i \<le> maxInteger" "\<forall>(now, ev)\<in>set evs. event_ok ev"
    and "sessionRun evs (NewSession a i) = Ok (True, s)"
  shows "\<exists>ns s'. length ns \<le> length (ss_OutgoingBuffer s) \<and>
     (\<forall>j < length ns. \<exists>t pos k. sessionRun (clientAcks now (take j ns)) s = Ok (True, t) \<and>
        ns ! j = int (pos + k) \<and> sentChunk i (reversedStream (acceptedAll [] evs)) (ss_Sent t) pos k) \<and>
     sessionRun (clientAcks now ns) s = Ok (True, s') \<and>
     (\<forall>p < length (reversedStream (acceptedAll [] evs)). byteSent i (reversedStream (acceptedAll [] evs)) (ss_Sent s') p) \<and>
     ss_OutgoingBuffer s' = [] \<and> ss_PendingData s' = None \<and> ss_WritePosition s' = int (length (reversedStream (acceptedAll [] evs)))"
proof -
  define stream where "stream = reversedStream (acceptedAll [] evs)"
  have i: "ss_ID s = i" by (rule sessionRun_new_running[OF assms(1-4)])
  from acks_drain[OF sessionRun_new_running(1)[OF assms(1-4)], of now] obtain ns s' where
    d: "length ns \<le> length (ss_OutgoingBuffer s)"
      "\<forall>j < length ns. \<exists>t pos k. sessionRun (clientAcks now (take j ns)) s = Ok (True, t) \<and>
         ns ! j = int (pos + k) \<and> sentChunk i stream (ss_Sent t) pos k"
      "sessionRun (clientAcks now ns) s = Ok (True, s')"
      "session_inv (acceptedAll [] evs) s'" "ss_ID s' = i" "ss_OutgoingBuffer s' = []" unfolding stream_def i by blast
  have ok: "session_ok (acceptedAll [] evs) s'" "covered i (exchangeOf (acceptedAll [] evs) s') (ss_Sent s')"
    using d(4,5) by (simp_all add: session_inv_def)
  have w: "ss_WritePosition s' = int (length stream)" and p: "ss_PendingData s' = None"
    using ok(1) d(6) by (auto simp: session_ok_def session_base_def pending_ok_def stream_def split: option.splits)
  have "\<forall>p < length stream. byteSent i stream (ss_Sent s') p"
    using ok(2) w by (simp add: covered_def exchangeOf_def stream_def)
  with d(1-3,6) w p show ?thesis unfolding stream_def by blast
qed

lemma demo_run_ok: "case sessionRun demo_events (NewSession (1 :: nat) 7) of Ok (r, s) \<Rightarrow> r | Panic \<Rightarrow> False"
  by code_simp

definition demo_session :: "nat Session" where
  "demo_session = (case sessionRun demo_events (NewSession 1 7) of Ok (r, s) \<Rightarrow> s | Panic \<Rightarrow> NewSession 0 0)"

lemma demo_session: "sessionRun demo_events (NewSession 1 7) = Ok (True, demo_session)"
  using demo_run_ok unfolding demo_session_def by (auto split: outcome.splits)

lemma demo_stream: "acceptedAll [] demo_events = ''ab'' @ [newline]" by code_simp
lemma demo_out: "ss_OutgoingBuffer demo_session = ''ba'' @ [newline]" by code_simp

lemma demo_events_ok: "\<forall>(now, ev)\<in>set demo_events. event_ok ev"
  by (simp add: demo_events_def maxInteger_def ConnectMessage_def DataMessage_def)

theorem unsent_data_is_in_flight_witness:
  "ss_LastAck demo_session = ss_WritePosition demo_session \<and>
   (case ss_PendingData demo_session of
      None \<Rightarrow> ss_OutgoingBuffer demo_session = [] \<and> ss_MaxAck demo_session = ss_WritePosition demo_session
    | Some p \<Rightarrow> ss_Timer demo_session \<and> 0 < pd_Length p \<and>
        ss_MaxAck demo_session = ss_WritePosition demo_session + int (pd_Length p) \<and>
        UnescapeData (lr_Data (pd_Payload p)) = Some (take (pd_Length p) (ss_OutgoingBuffer demo_session)))"
  by (rule unsent_data_is_in_flight[OF _ _ demo_events_ok demo_session]) (simp_all add: maxInteger_def)

theorem acks_complete_delivery_witness:
  "\<exists>ns s'. length ns \<le> 3 \<and>
     (\<forall>j < length ns. \<exists>t pos k. sessionRun (clientAcks 3 (take j ns)) demo_session = Ok (True, t) \<and>
        ns ! j = int (pos + k) \<and> sentChunk 7 (''ba'' @ [newline]) (ss_Sent t) pos k) \<and>
     sessionRun (clientAcks 3 ns) demo_session = Ok (True, s') \<and>
     (\<forall>p < length (''ba'' @ [newline]). byteSent 7 (''ba'' @ [newline]) (ss_Sent s') p) \<and>
     ss_OutgoingBuffer s' = [] \<and> ss_PendingData s' = None \<and> ss_WritePosition s' = 3"
proof -
  have "length (ss_OutgoingBuffer demo_session) = 3" by (simp add: demo_out)
  moreover have "reversedStream (acceptedAll [] demo_events) = ''ba'' @ [newline]" unfolding demo_stream by code_simp
  ultimately show ?thesis
    using acks_complete_delivery[OF _ _ demo_events_ok demo_session, of 3] by (simp add: maxInteger_def)
qed

section \<open>Data with escapes\<close>





end
