(* ===== verification/LR_Manager.thy ===== *)
theory LR_Manager
  imports LR_Contract
begin

text \<open>
  \<open>internal/linereversal/sessionmanager.go\<close> and \<open>linereversal.go\<close>: the table of sessions, the
  dispatch of a decoded datagram, and the server as a transition system of the dispatcher, the
  session actors and the monitor.

  Sessions are objects: \<open>lm_Actors\<close> is the store of every session ever created, and
  \<open>lm_sessions\<close> maps a session id to the address of its object, so a closed session that has been
  replaced in the map still runs if its loop has not returned. Each object has its channel (capacity
  20; a send to a full channel blocks the dispatcher, a send to a closed channel and a second
  \<open>close\<close> panic) and, as a history variable, the events its loop has handled.

  The dispatcher, the monitor and the loop of each session run concurrently and share the table without a lock.
  \<open>SendMessage\<close> tests the session and then sends, the monitor tests a session and then closes its channel; what
  each of the two is in the middle of is part of the state, and the others can run between test and effect. One
  access of the table, and one pass of a session's loop body, is one step.
\<close>

section \<open>State\<close>

definition channelCap :: nat where "channelCap = 20"

record 'a Actor =
  ac_Session :: "'a Session"
  ac_Channel :: "'a SessionMessage list"
  ac_Closed :: bool
  ac_Running :: bool
  ac_Origin :: 'a
  ac_Log :: "(int \<times> 'a SessionEvent) list"

text \<open>
  The dispatcher waits for a datagram, is about to call \<open>SendMessage\<close>, or has passed its tests and is in the
  channel operation on an object.
\<close>

datatype 'a Dispatch = Waiting | Checked int "'a SessionMessage" | Sending nat "'a SessionMessage"

record 'a SessionManager =
  lm_sessions :: "int \<Rightarrow> nat option"
  lm_Actors :: "'a Actor list"
  lm_Replies :: "('a \<times> string) list"
  lm_Incoming :: "(string \<times> 'a) list"
  lm_Dispatcher :: "'a Dispatch"
  lm_Monitor :: "nat option"

definition NewSessionManager :: "'a SessionManager" where
  "NewSessionManager = \<lparr>lm_sessions = (\<lambda>_. None), lm_Actors = [], lm_Replies = [],
                         lm_Incoming = [], lm_Dispatcher = Waiting, lm_Monitor = None\<rparr>"

text \<open>What a step can do: return, wait for room in a channel, or panic.\<close>

datatype 'm attempt = Done 'm | Blocks | Panics

abbreviation sessionAt :: "'a SessionManager \<Rightarrow> nat \<Rightarrow> 'a Session" where
  "sessionAt sm r \<equiv> ac_Session (lm_Actors sm ! r)"

section \<open>Operations\<close>

definition SessionExists :: "'a SessionManager \<Rightarrow> int \<Rightarrow> bool" where
  "SessionExists sm ident =
     (case lm_sessions sm ident of None \<Rightarrow> False | Some r \<Rightarrow> \<not> ss_IsClosed (sessionAt sm r))"

definition newActor :: "'a \<Rightarrow> int \<Rightarrow> 'a Actor" where
  "newActor address ident =
     \<lparr>ac_Session = NewSession address ident, ac_Channel = [], ac_Closed = False, ac_Running = True,
      ac_Origin = address, ac_Log = []\<rparr>"

definition CreateSession :: "'a SessionManager \<Rightarrow> 'a \<Rightarrow> int \<Rightarrow> 'a SessionManager" where
  "CreateSession sm address ident =
     (let created = sm\<lparr>lm_Actors := lm_Actors sm @ [newActor address ident],
                       lm_sessions := (lm_sessions sm)(ident \<mapsto> length (lm_Actors sm))\<rparr> in
      case lm_sessions sm ident of
        Some r \<Rightarrow> if ss_IsClosed (sessionAt sm r) then created else sm
      | None \<Rightarrow> created)"

text \<open>The tests of \<open>SendMessage\<close>; its two errors change nothing and the callers ignore them.\<close>

definition SendMessage :: "'a SessionManager \<Rightarrow> int \<Rightarrow> 'a SessionMessage \<Rightarrow> 'a SessionManager" where
  "SendMessage sm ident msg =
     (case lm_sessions sm ident of
        None \<Rightarrow> sm\<lparr>lm_Dispatcher := Waiting\<rparr>
      | Some r \<Rightarrow>
          if ss_IsClosed (sessionAt sm r) then sm\<lparr>lm_Dispatcher := Waiting\<rparr>
          else sm\<lparr>lm_Dispatcher := Sending r msg\<rparr>)"

text \<open>Its send, on the channel of the object it looked up.\<close>

definition channelSend :: "'a SessionManager \<Rightarrow> nat \<Rightarrow> 'a SessionMessage \<Rightarrow> 'a SessionManager attempt" where
  "channelSend sm r msg =
     (let ac = lm_Actors sm ! r in
      if ac_Closed ac then Panics
      else if length (ac_Channel ac) \<ge> channelCap then Blocks
      else Done (sm\<lparr>lm_Actors := (lm_Actors sm)[r := ac\<lparr>ac_Channel := ac_Channel ac @ [msg]\<rparr>], lm_Dispatcher := Waiting\<rparr>))"

text \<open>\<open>sendCloseResponse\<close>: \<open>outputBuffer\<close> has capacity 999.\<close>

definition sendCloseResponse :: "'a SessionManager \<Rightarrow> int \<Rightarrow> 'a \<Rightarrow> 'a SessionManager attempt" where
  "sendCloseResponse sm ident sender =
     (case Encode (plainMessage ''close'' ident) [] of
        None \<Rightarrow> Done sm
      | Some (encodedBytes, written) \<Rightarrow>
          if encodedBytes \<le> 999
          then Done (sm\<lparr>lm_Replies := lm_Replies sm @ [(sender, take encodedBytes written)]\<rparr>)
          else Panics)"

text \<open>\<open>handleRequest\<close> up to its call of \<open>SendMessage\<close>.\<close>

definition handleRequest :: "LRMessage \<Rightarrow> 'a \<Rightarrow> 'a SessionManager \<Rightarrow> 'a SessionManager attempt" where
  "handleRequest message sender sm =
     (let ident = lr_Session message in
      if lr_Type message = ''connect'' then
        Done ((CreateSession sm sender ident)\<lparr>lm_Dispatcher := Checked ident (ConnectMessage (Some sender))\<rparr>)
      else if lr_Type message = ''data'' then
        (if \<not> SessionExists sm ident then sendCloseResponse sm ident sender
         else Done (sm\<lparr>lm_Dispatcher := Checked ident (DataMessage (lr_Position message) (lr_Data message) (Some sender))\<rparr>))
      else if lr_Type message = ''ack'' then
        (if \<not> SessionExists sm ident then sendCloseResponse sm ident sender
         else Done (sm\<lparr>lm_Dispatcher := Checked ident (AckMessage (lr_Length message) (Some sender))\<rparr>))
      else if lr_Type message = ''close'' then
        (if \<not> SessionExists sm ident then sendCloseResponse sm ident sender
         else Done (sm\<lparr>lm_Dispatcher := Checked ident (CloseMessage (Some sender))\<rparr>))
      else Done sm)"

text \<open>The body of \<open>incomingBuffer\<close>'s loop: a datagram that does not decode is dropped.\<close>

definition incomingDatagram :: "string \<Rightarrow> 'a \<Rightarrow> 'a SessionManager \<Rightarrow> 'a SessionManager attempt" where
  "incomingDatagram data sender sm =
     (case DecodeLRMessage data of
        Inl err \<Rightarrow> Done sm
      | Inr decodedMessage \<Rightarrow> handleRequest decodedMessage sender sm)"

text \<open>
  The body of the loop in \<open>MonitorSessions\<close> for the object of one session, in two steps: the test, and closing the
  channel with the deletion from the table. The monitor takes the sessions in an order Go does not fix.
\<close>

definition monitorTest :: "nat \<Rightarrow> 'a SessionManager \<Rightarrow> 'a SessionManager" where
  "monitorTest r sm = (if ss_IsClosed (sessionAt sm r) then sm\<lparr>lm_Monitor := Some r\<rparr> else sm)"

definition removeSession :: "nat \<Rightarrow> 'a SessionManager \<Rightarrow> 'a SessionManager attempt" where
  "removeSession r sm =
     (let ac = lm_Actors sm ! r in
      if ac_Closed ac then Panics
      else Done (sm\<lparr>lm_Actors := (lm_Actors sm)[r := ac\<lparr>ac_Closed := True\<rparr>],
                    lm_sessions := (lm_sessions sm)(ss_ID (ac_Session ac) := None), lm_Monitor := None\<rparr>))"

section \<open>The session actors\<close>

text \<open>What the loop of an object can receive now, with the channel after it.\<close>

definition nextMessage :: "'a Actor \<Rightarrow> ('a SessionEvent \<times> 'a SessionMessage list) option" where
  "nextMessage ac =
     (case ac_Channel ac of
        msg # rest \<Rightarrow> Some (FromChannel msg, rest)
      | [] \<Rightarrow> if ac_Closed ac then Some (ChannelClosed, []) else None)"

definition actorHandle ::
  "int \<Rightarrow> 'a SessionEvent \<Rightarrow> 'a SessionMessage list \<Rightarrow> 'a Actor \<Rightarrow> 'a Actor attempt" where
  "actorHandle now ev channel ac =
     (case RecieveMessage now ev (ac_Session ac) of
        Panic \<Rightarrow> Panics
      | Ok (running, s) \<Rightarrow>
          Done (ac\<lparr>ac_Session := s, ac_Channel := channel, ac_Running := running,
                   ac_Log := ac_Log ac @ [(now, ev)]\<rparr>))"

definition setActor :: "'a SessionManager \<Rightarrow> nat \<Rightarrow> 'a Actor \<Rightarrow> 'a SessionManager" where
  "setActor sm r ac = sm\<lparr>lm_Actors := (lm_Actors sm)[r := ac]\<rparr>"

text \<open>The steps, with the result of the call that makes the step. The datagrams that have arrived are recorded first.\<close>

definition arrived :: "string \<Rightarrow> 'a \<Rightarrow> 'a SessionManager \<Rightarrow> 'a SessionManager" where
  "arrived data sender sm = sm\<lparr>lm_Incoming := lm_Incoming sm @ [(data, sender)]\<rparr>"

inductive lr_call :: "'a SessionManager \<Rightarrow> 'a SessionManager attempt \<Rightarrow> bool" where
  Datagram: "lm_Dispatcher sm = Waiting \<Longrightarrow> lr_call sm (incomingDatagram data sender (arrived data sender sm))"
| Check: "lm_Dispatcher sm = Checked ident msg \<Longrightarrow> lr_call sm (Done (SendMessage sm ident msg))"
| Send: "lm_Dispatcher sm = Sending r msg \<Longrightarrow> lr_call sm (channelSend sm r msg)"
| Observe: "lm_Monitor sm = None \<Longrightarrow> lm_sessions sm key = Some r \<Longrightarrow> lr_call sm (Done (monitorTest r sm))"
| Remove: "lm_Monitor sm = Some r \<Longrightarrow> lr_call sm (removeSession r sm)"
| TimerTick: "r < length (lm_Actors sm) \<Longrightarrow> ac = lm_Actors sm ! r \<Longrightarrow> ac_Running ac \<Longrightarrow>
    ss_Timer (ac_Session ac) \<Longrightarrow>
    lr_call sm (case actorHandle now TimerFired (ac_Channel ac) ac of
                  Done ac' \<Rightarrow> Done (setActor sm r ac') | Blocks \<Rightarrow> Blocks | Panics \<Rightarrow> Panics)"
| Deliver: "r < length (lm_Actors sm) \<Longrightarrow> ac = lm_Actors sm ! r \<Longrightarrow> ac_Running ac \<Longrightarrow>
    nextMessage ac = Some (ev, channel) \<Longrightarrow>
    lr_call sm (case actorHandle now ev channel ac of
                  Done ac' \<Rightarrow> Done (setActor sm r ac') | Blocks \<Rightarrow> Blocks | Panics \<Rightarrow> Panics)"

inductive lr_reachable :: "'a SessionManager \<Rightarrow> bool" where
  Start: "lr_reachable NewSessionManager"
| Step: "lr_reachable sm \<Longrightarrow> lr_call sm (Done sm') \<Longrightarrow> lr_reachable sm'"

section \<open>What a session keeps\<close>

text \<open>The id never changes and a closed session stays closed.\<close>

definition keeps :: "'a Session \<Rightarrow> 'a Session \<Rightarrow> bool" where
  "keeps s s' \<longleftrightarrow> ss_ID s' = ss_ID s \<and> (ss_IsClosed s \<longrightarrow> ss_IsClosed s')"

lemma sendEncoded_keeps: "sendEncoded s m = Ok s' \<Longrightarrow> keeps s s' \<and> ss_IsClosed s' = ss_IsClosed s"
  by (auto simp: sendEncoded_def keeps_def split: option.splits if_splits)

lemma Close_keeps: "Close s = Ok s' \<Longrightarrow> keeps s s' \<and> ss_IsClosed s'"
  using sendEncoded_keeps by (fastforce simp: Close_def SendCloseMessage_def and_then_Ok keeps_def)

lemma HandleOutgoingBuffer_keeps: "HandleOutgoingBuffer now s = Ok s' \<Longrightarrow> keeps s s'"
  by (auto simp: HandleOutgoingBuffer_def SendDataMessage_def and_then_Ok keeps_def Let_def
      dest!: sendEncoded_keeps split: if_splits prod.splits)

lemma HandleAck_keeps: "HandleAck now s n = Ok s' \<Longrightarrow> keeps s s'"
  by (auto simp: HandleAck_def sliceFrom_def and_then_Ok keeps_def Let_def
      dest!: HandleOutgoingBuffer_keeps Close_keeps split: if_splits option.splits)

lemma HandleRecieveData_keeps: "HandleRecieveData now s d p = Ok s' \<Longrightarrow> keeps s s'"
  by (auto simp: HandleRecieveData_def CheckDataStore_def reverseLines_spec SendAckMessage_def and_then_Ok keeps_def Let_def
      dest!: HandleOutgoingBuffer_keeps sendEncoded_keeps split: if_splits option.splits prod.splits)

lemma onTimer_keeps: "onTimer now s = Ok (r, s') \<Longrightarrow> keeps s s' \<and> (\<not> r \<longrightarrow> ss_IsClosed s')"
  by (auto simp: onTimer_def SendDataMessage_def and_then_Ok keeps_def Let_def
      dest!: Close_keeps sendEncoded_keeps split: if_splits option.splits)

lemma onMessage_keeps: 
  assumes "onMessage now s msg = Ok (r, s')"
  shows "keeps s s' \<and> (\<not> r \<longrightarrow> ss_IsClosed s')"
proof -
  define t where "t = (case sm_Address msg of None \<Rightarrow> s\<lparr>ss_LastMessage := now\<rparr>
                       | Some a \<Rightarrow> s\<lparr>ss_LastMessage := now\<rparr>\<lparr>ss_Address := a\<rparr>)"
  have "keeps s t" by (auto simp: t_def keeps_def split: option.splits)
  moreover have "keeps t s' \<and> (\<not> r \<longrightarrow> ss_IsClosed s')"
    using assms unfolding onMessage_def t_def[symmetric] Let_def SendAckMessage_def
    by (auto simp: and_then_Ok dest: Close_keeps sendEncoded_keeps HandleRecieveData_keeps HandleAck_keeps 
        split: if_splits) (simp add: keeps_def)
  ultimately show ?thesis by (auto simp: keeps_def)
qed

lemma RecieveMessage_keeps:
  "RecieveMessage now ev s = Ok (r, s') \<Longrightarrow>
   ss_ID s' = ss_ID s \<and> (ss_IsClosed s \<longrightarrow> ss_IsClosed s') \<and> (\<not> r \<longrightarrow> ss_IsClosed s' \<or> ev = ChannelClosed)"
  using onTimer_keeps[of now s r s'] onMessage_keeps[of now s _ r s']
  by (auto simp: RecieveMessage_def keeps_def split: SessionEvent.splits)

section \<open>The invariant of the server\<close>

lemma sessionRun_snoc:
  "sessionRun evs s = Ok (True, s1) \<Longrightarrow> ev = TimerFired \<longrightarrow> ss_Timer s1 \<Longrightarrow>
   sessionRun (evs @ [(now, ev)]) s = RecieveMessage now ev s1"
proof (induction evs s rule: sessionRun.induct)
  case (1 s)
  then show ?case by (cases "RecieveMessage now ev s") auto
next
  case (2 t e evs s)
  then show ?case by (auto simp: and_then_Ok split: if_splits prod.splits)
qed

definition actor_ok :: "'a Actor \<Rightarrow> bool" where
  "actor_ok ac \<longleftrightarrow>
     0 \<le> ss_ID (ac_Session ac) \<and> ss_ID (ac_Session ac) \<le> maxInteger \<and>
     (\<forall>(now, ev)\<in>set (ac_Log ac). event_ok ev) \<and>
     (\<forall>msg\<in>set (ac_Channel ac). event_ok (FromChannel msg)) \<and>
     length (ac_Channel ac) \<le> channelCap \<and>
     sessionRun (ac_Log ac) (NewSession (ac_Origin ac) (ss_ID (ac_Session ac))) = Ok (ac_Running ac, ac_Session ac) \<and>
     (ac_Closed ac \<longrightarrow> ss_IsClosed (ac_Session ac)) \<and> (\<not> ac_Running ac \<longrightarrow> ss_IsClosed (ac_Session ac))"

definition manager_ok :: "'a SessionManager \<Rightarrow> bool" where
  "manager_ok sm \<longleftrightarrow>
     (\<forall>r < length (lm_Actors sm). actor_ok (lm_Actors sm ! r)) \<and>
     (\<forall>i r. lm_sessions sm i = Some r \<longrightarrow>
        r < length (lm_Actors sm) \<and> ss_ID (sessionAt sm r) = i \<and> \<not> ac_Closed (lm_Actors sm ! r)) \<and>
     (\<forall>i msg. lm_Dispatcher sm = Checked i msg \<longrightarrow> event_ok (FromChannel msg)) \<and>
     (\<forall>r msg. lm_Dispatcher sm = Sending r msg \<longrightarrow> r < length (lm_Actors sm) \<and> event_ok (FromChannel msg)) \<and>
     (\<forall>r. lm_Monitor sm = Some r \<longrightarrow>
        r < length (lm_Actors sm) \<and> ss_IsClosed (sessionAt sm r) \<and> \<not> ac_Closed (lm_Actors sm ! r))"

lemma newActor_ok: "0 \<le> i \<Longrightarrow> i \<le> maxInteger \<Longrightarrow> actor_ok (newActor a i)"
  by (simp add: actor_ok_def newActor_def NewSession_def channelCap_def)

lemma actorHandle_ok:
  assumes ok: "actor_ok ac" and run: "ac_Running ac" and ev: "event_ok ev" "ev = TimerFired \<longrightarrow> ss_Timer (ac_Session ac)"
    "ev = ChannelClosed \<longrightarrow> ac_Closed ac"
    and ch: "set channel \<subseteq> set (ac_Channel ac)" "length channel \<le> length (ac_Channel ac)"
  shows "\<exists>ac'. actorHandle now ev channel ac = Done ac' \<and> actor_ok ac' \<and>
           ss_ID (ac_Session ac') = ss_ID (ac_Session ac) \<and> ac_Closed ac' = ac_Closed ac \<and>
           (ss_IsClosed (ac_Session ac) \<longrightarrow> ss_IsClosed (ac_Session ac'))"
proof -
  let ?i = "ss_ID (ac_Session ac)"
  have i: "0 \<le> ?i" "?i \<le> maxInteger" and log: "\<forall>(now, ev)\<in>set (ac_Log ac). event_ok ev"
    and sr: "sessionRun (ac_Log ac) (NewSession (ac_Origin ac) ?i) = Ok (True, ac_Session ac)"
    using ok run by (auto simp: actor_ok_def)
  have s: "session_ok (acceptedAll [] (ac_Log ac)) (ac_Session ac)"
    by (rule sessionRun_new_running(2)[OF i log sr])
  obtain r s' where s': "RecieveMessage now ev (ac_Session ac) = Ok (r, s')"
    using RecieveMessage_ok[OF s ev(1)] by blast
  note keep = RecieveMessage_keeps[OF s']
  have "sessionRun (ac_Log ac @ [(now, ev)]) (NewSession (ac_Origin ac) ?i) = Ok (r, s')"
    using sessionRun_snoc[OF sr ev(2), of now] s' by simp
  then show ?thesis
    using s' keep ok ev(1,3) ch by (auto simp: actorHandle_def actor_ok_def)
qed

lemma manager_ok_set:
  "manager_ok sm \<Longrightarrow> r < length (lm_Actors sm) \<Longrightarrow> actor_ok ac \<Longrightarrow>
   ss_ID (ac_Session ac) = ss_ID (sessionAt sm r) \<Longrightarrow> ac_Closed ac = ac_Closed (lm_Actors sm ! r) \<Longrightarrow>
   (ss_IsClosed (sessionAt sm r) \<longrightarrow> ss_IsClosed (ac_Session ac)) \<Longrightarrow> manager_ok (setActor sm r ac)"
  by (auto simp: manager_ok_def setActor_def nth_list_update)

lemma manager_ok_dispatcher:
  "manager_ok sm \<Longrightarrow> event_ok (FromChannel msg) \<Longrightarrow> manager_ok (sm\<lparr>lm_Dispatcher := Checked i msg\<rparr>)"
  "manager_ok sm \<Longrightarrow> manager_ok (sm\<lparr>lm_Dispatcher := Waiting\<rparr>)"
  "manager_ok sm \<Longrightarrow> event_ok (FromChannel msg) \<Longrightarrow> r < length (lm_Actors sm) \<Longrightarrow>
   manager_ok (sm\<lparr>lm_Dispatcher := Sending r msg\<rparr>)"
  by (simp_all add: manager_ok_def)

lemma CreateSession_ok:
  assumes "manager_ok sm" "0 \<le> i" "i \<le> maxInteger"
  shows "manager_ok (CreateSession sm a i)"
proof -
  let ?c = "sm\<lparr>lm_Actors := lm_Actors sm @ [newActor a i], lm_sessions := (lm_sessions sm)(i \<mapsto> length (lm_Actors sm))\<rparr>"
  have "manager_ok ?c"
    using assms newActor_ok[OF assms(2,3), of a] unfolding manager_ok_def
    by (auto simp: nth_append less_Suc_eq newActor_def NewSession_def)
  then show ?thesis using assms(1) by (auto simp: CreateSession_def Let_def split: option.splits)
qed

lemma SendMessage_ok:
  "manager_ok sm \<Longrightarrow> event_ok (FromChannel msg) \<Longrightarrow> manager_ok (SendMessage sm i msg)"
  by (auto simp: SendMessage_def intro!: manager_ok_dispatcher split: option.split) (auto simp: manager_ok_def)

lemma channelSend_ok:
  assumes ok: "manager_ok sm" and r: "lm_Dispatcher sm = Sending r msg"
  shows "channelSend sm r msg = Blocks \<or> (channelSend sm r msg = Panics \<and> ac_Closed (lm_Actors sm ! r)) \<or>
    (\<exists>sm'. channelSend sm r msg = Done sm' \<and> manager_ok sm')"
proof (cases "ac_Closed (lm_Actors sm ! r) \<or> length (ac_Channel (lm_Actors sm ! r)) \<ge> channelCap")
  case True
  then show ?thesis by (auto simp: channelSend_def Let_def)
next
  case False
  let ?ac = "lm_Actors sm ! r"
  have r: "r < length (lm_Actors sm)" "event_ok (FromChannel msg)" "actor_ok ?ac" using ok r by (auto simp: manager_ok_def)
  then have "actor_ok (?ac\<lparr>ac_Channel := ac_Channel ?ac @ [msg]\<rparr>)" using False by (auto simp: actor_ok_def)
  from manager_ok_dispatcher(2)[OF manager_ok_set[OF ok r(1) this]] False show ?thesis
    by (simp add: channelSend_def Let_def setActor_def)
qed

lemma sendCloseResponse_ok:
  "0 \<le> i \<Longrightarrow> i \<le> maxInteger \<Longrightarrow>
   \<exists>w. wireText (plainMessage ''close'' i) = Some w \<and>
       sendCloseResponse sm i sender = Done (sm\<lparr>lm_Replies := lm_Replies sm @ [(sender, w)]\<rparr>)"
  using wire_close_length[of i] by (auto simp: sendCloseResponse_def Encode_def)

lemma manager_ok_replies [simp]:
  "manager_ok (sm\<lparr>lm_Replies := rs\<rparr>) = manager_ok sm"
  "manager_ok (arrived data sender sm) = manager_ok sm"
  by (simp_all add: manager_ok_def arrived_def)

lemma handleRequest_ok:
  assumes ok: "manager_ok sm" and m: "Validate m"
  shows "\<exists>sm'. handleRequest m sender sm = Done sm' \<and> manager_ok sm'"
proof -
  have i: "0 \<le> lr_Session m" "lr_Session m \<le> maxInteger" using m by (auto simp: Validate_def split: if_splits)
  have close: "\<exists>sm'. sendCloseResponse sm (lr_Session m) sender = Done sm' \<and> manager_ok sm'"
    using sendCloseResponse_ok[OF i, of sm sender] ok by auto
  have d: "event_ok (FromChannel (DataMessage (lr_Position m) (lr_Data m) (Some sender)))" if "lr_Type m = ''data''"
    using m that by (auto simp: Validate_def DataMessage_def split: if_splits)
  have e: "event_ok (FromChannel (ConnectMessage x))" "event_ok (FromChannel (AckMessage n x))"
    "event_ok (FromChannel (CloseMessage x))" for n and x :: "'a option"
    by (simp_all add: ConnectMessage_def AckMessage_def CloseMessage_def)
  show ?thesis
    using manager_ok_dispatcher(1)[OF CreateSession_ok[OF ok i, of sender] e(1)] manager_ok_dispatcher(1)[OF ok e(2)]
      manager_ok_dispatcher(1)[OF ok e(3)] manager_ok_dispatcher(1)[OF ok d] close ok
    unfolding handleRequest_def Let_def by simp
qed

lemma decoded_valid: "DecodeLRMessage w = Inr m \<Longrightarrow> Validate m"
  by (auto simp: DecodeLRMessage_def split: if_splits sum.splits)

lemma monitorTest_ok: "manager_ok sm \<Longrightarrow> lm_sessions sm key = Some r \<Longrightarrow> manager_ok (monitorTest r sm)"
  unfolding monitorTest_def by (auto simp: manager_ok_def)

lemma removeSession_ok:
  assumes "manager_ok sm" "lm_Monitor sm = Some r"
  shows "\<exists>sm'. removeSession r sm = Done sm' \<and> manager_ok sm'"
proof -
  let ?ac = "lm_Actors sm ! r"
  have r: "r < length (lm_Actors sm)" "ss_IsClosed (ac_Session ?ac)" "\<not> ac_Closed ?ac" "actor_ok ?ac"
    using assms by (auto simp: manager_ok_def)
  then have "actor_ok (?ac\<lparr>ac_Closed := True\<rparr>)" by (simp add: actor_ok_def)
  moreover have "i = ss_ID (ac_Session ?ac)" if "lm_sessions sm i = Some r" for i
    using assms(1) that unfolding manager_ok_def by blast
  ultimately have "manager_ok (sm\<lparr>lm_Actors := (lm_Actors sm)[r := ?ac\<lparr>ac_Closed := True\<rparr>],
      lm_sessions := (lm_sessions sm)(ss_ID (ac_Session ?ac) := None), lm_Monitor := None\<rparr>)"
    using assms(1) r(1) unfolding manager_ok_def by (auto simp: nth_list_update)
  then show ?thesis using r(3) by (simp add: removeSession_def Let_def)
qed

lemma nextMessage_Some:
  "nextMessage ac = Some (ev, channel) \<Longrightarrow>
   (\<exists>msg. ev = FromChannel msg \<and> ac_Channel ac = msg # channel) \<or>
   (ev = ChannelClosed \<and> ac_Closed ac \<and> channel = [] \<and> ac_Channel ac = [])"
  by (auto simp: nextMessage_def split: list.splits if_splits)

lemma lr_call_ok:
  "lr_call sm res \<Longrightarrow> manager_ok sm \<Longrightarrow>
   res = Blocks \<or> (res = Panics \<and> (\<exists>r msg. lm_Dispatcher sm = Sending r msg \<and> ac_Closed (lm_Actors sm ! r))) \<or>
   (\<exists>sm'. res = Done sm' \<and> manager_ok sm')"
proof (induction rule: lr_call.induct)
  case (Datagram sm data sender)
  then have ok: "manager_ok (arrived data sender sm)" by simp
  show ?case
  proof (cases "DecodeLRMessage data")
    case (Inl e)
    then show ?thesis using ok by (simp add: incomingDatagram_def)
  next
    case (Inr m)
    from handleRequest_ok[OF ok decoded_valid[OF Inr], of sender] Inr show ?thesis
      by (simp add: incomingDatagram_def)
  qed
next
  case (Check sm ident msg)
  then have "event_ok (FromChannel msg)" unfolding manager_ok_def by blast
  then show ?case using SendMessage_ok[OF Check.prems] by blast
next
  case (Send sm r msg)
  from channelSend_ok[OF Send.prems Send.hyps(1)] Send.hyps(1) show ?case by blast
next
  case (Observe sm key r)
  then show ?case using monitorTest_ok by blast
next
  case (Remove sm r)
  then show ?case using removeSession_ok by blast
next
  case (TimerTick r sm ac now)
  then have a: "actor_ok ac" by (simp add: manager_ok_def)
  have "\<exists>ac'. actorHandle now TimerFired (ac_Channel ac) ac = Done ac' \<and> actor_ok ac' \<and>
           ss_ID (ac_Session ac') = ss_ID (ac_Session ac) \<and> ac_Closed ac' = ac_Closed ac \<and>
           (ss_IsClosed (ac_Session ac) \<longrightarrow> ss_IsClosed (ac_Session ac'))"
    by (rule actorHandle_ok[OF a]) (simp_all add: TimerTick.hyps(3,4))
  then obtain ac' where "actorHandle now TimerFired (ac_Channel ac) ac = Done ac'" "manager_ok (setActor sm r ac')"
    using manager_ok_set[OF TimerTick.prems TimerTick.hyps(1)] unfolding TimerTick.hyps(2) by blast
  then show ?case by simp
next
  case (Deliver r sm ac ev channel now)
  then have a: "actor_ok ac" by (simp add: manager_ok_def)
  have e: "event_ok ev" "set channel \<subseteq> set (ac_Channel ac)" "length channel \<le> length (ac_Channel ac)"
    "ev = TimerFired \<longrightarrow> ss_Timer (ac_Session ac)" "ev = ChannelClosed \<longrightarrow> ac_Closed ac"
    using nextMessage_Some[OF Deliver.hyps(4)] a by (auto simp: actor_ok_def)
  have "\<exists>ac'. actorHandle now ev channel ac = Done ac' \<and> actor_ok ac' \<and>
           ss_ID (ac_Session ac') = ss_ID (ac_Session ac) \<and> ac_Closed ac' = ac_Closed ac \<and>
           (ss_IsClosed (ac_Session ac) \<longrightarrow> ss_IsClosed (ac_Session ac'))"
    by (rule actorHandle_ok[OF a Deliver.hyps(3) e(1,4,5,2,3)])
  then obtain ac' where "actorHandle now ev channel ac = Done ac'" "manager_ok (setActor sm r ac')"
    using manager_ok_set[OF Deliver.prems Deliver.hyps(1)] unfolding Deliver.hyps(2) by blast
  then show ?case by simp
qed

lemma lr_reachable_ok: "lr_reachable sm \<Longrightarrow> manager_ok sm"
proof (induction rule: lr_reachable.induct)
  case Start
  then show ?case by (simp add: manager_ok_def NewSessionManager_def)
next
  case (Step sm sm')
  from lr_call_ok[OF Step.hyps(2) Step.IH] show ?case by simp
qed

section \<open>Properties\<close>

text \<open>A concrete run: a client connects and sends a line.\<close>

definition demo_connect :: string where
  "demo_connect = slash # ''connect'' @ slash # itoa 7 @ [slash]"

lemma demo_connect_decodes: "DecodeLRMessage demo_connect = Inr (plainMessage ''connect'' 7)"
  unfolding demo_connect_def
  by (rule decode_delimited[OF decodeFields_control])
    (simp_all add: constructLRMessage_def atoi_bounded plainMessage_def Validate_def maxInteger_def)

text \<open>The server with \<open>n\<close> connect messages in the channel of session 7, which has handled none of them.\<close>

definition demo_waiting :: "nat \<Rightarrow> nat SessionManager" where
  "demo_waiting n =
     \<lparr>lm_sessions = [7 \<mapsto> 0],
      lm_Actors = [(newActor 1 7)\<lparr>ac_Channel := replicate n (ConnectMessage (Some 1))\<rparr>], lm_Replies = [],
      lm_Incoming = replicate n (demo_connect, 1),
      lm_Dispatcher = Waiting, lm_Monitor = None\<rparr>"

definition demo_sending :: "nat \<Rightarrow> nat SessionManager" where
  "demo_sending n = (demo_waiting n)\<lparr>lm_Incoming := replicate (Suc n) (demo_connect, 1), lm_Dispatcher := Sending 0 (ConnectMessage (Some 1))\<rparr>"

abbreviation demo_manager :: "nat SessionManager" where
  "demo_manager \<equiv> demo_waiting 1"

lemma lr_steps:
  "lr_reachable sm \<Longrightarrow> lm_Dispatcher sm = Waiting \<Longrightarrow> incomingDatagram data sender (arrived data sender sm) = Done sm' \<Longrightarrow> lr_reachable sm'"
  "lr_reachable sm \<Longrightarrow> lm_Dispatcher sm = Checked i msg \<Longrightarrow> lr_reachable (SendMessage sm i msg)"
  "lr_reachable sm \<Longrightarrow> lm_Dispatcher sm = Sending r msg \<Longrightarrow> channelSend sm r msg = Done sm' \<Longrightarrow> lr_reachable sm'"
  "lr_reachable sm \<Longrightarrow> lm_Monitor sm = None \<Longrightarrow> lm_sessions sm key = Some r \<Longrightarrow> lr_reachable (monitorTest r sm)"
  "lr_reachable sm \<Longrightarrow> lm_Monitor sm = Some r \<Longrightarrow> removeSession r sm = Done sm' \<Longrightarrow> lr_reachable sm'"
  by (metis lr_call.intros lr_reachable.Step)+

lemma demo_request:
  assumes "lr_reachable sm" "lm_Dispatcher sm = Waiting"
    "(CreateSession (arrived demo_connect 1 sm) 1 7)\<lparr>lm_Dispatcher := Sending 0 (ConnectMessage (Some 1))\<rparr> = demo_sending n"
    "lm_sessions (CreateSession (arrived demo_connect 1 sm) 1 7) 7 = Some 0" "\<not> ss_IsClosed (sessionAt (CreateSession (arrived demo_connect 1 sm) 1 7) 0)"
  shows "lr_reachable (demo_sending n)"
proof -
  let ?c = "(CreateSession (arrived demo_connect 1 sm) 1 7)\<lparr>lm_Dispatcher := Checked 7 (ConnectMessage (Some 1))\<rparr>"
  have "incomingDatagram demo_connect 1 (arrived demo_connect 1 sm) = Done ?c"
    by (simp add: incomingDatagram_def demo_connect_decodes handleRequest_def plainMessage_def)
  from lr_steps(1)[OF assms(1,2) this] have "lr_reachable ?c" .
  from lr_steps(2)[OF this, of 7 "ConnectMessage (Some 1)"] show ?thesis
    using assms(3-5) by (simp add: SendMessage_def)
qed

lemma demo_reachable: "n \<le> channelCap \<Longrightarrow> lr_reachable (demo_sending n)"
proof (induction n)
  case 0
  show ?case
    by (rule demo_request[OF lr_reachable.Start])
      (simp_all add: NewSessionManager_def arrived_def CreateSession_def newActor_def NewSession_def demo_waiting_def demo_sending_def)
next
  case (Suc n)
  then have "channelSend (demo_sending n) 0 (ConnectMessage (Some 1)) = Done (demo_waiting (Suc n))"
    by (simp add: channelSend_def demo_sending_def demo_waiting_def newActor_def replicate_append_same)
  from lr_steps(3)[OF Suc.IH _ this] Suc.prems have "lr_reachable (demo_waiting (Suc n))" by (simp add: demo_sending_def)
  then show ?case
    by (rule demo_request)
      (simp_all add: demo_sending_def demo_waiting_def arrived_def CreateSession_def newActor_def NewSession_def replicate_append_same)
qed

lemma demo_manager_reachable: "lr_reachable demo_manager"
  by (rule lr_steps(3)[OF demo_reachable[of 0], of 0 "ConnectMessage (Some 1)"])
    (simp_all add: channelSend_def demo_sending_def demo_waiting_def newActor_def channelCap_def)

text \<open>A session whose timer fires before it has handled a message closes: the moment of its last message is zero.\<close>

lemma demo_closes:
  obtains ac where "lr_reachable ((demo_sending n)\<lparr>lm_Actors := [ac]\<rparr>)" "ss_IsClosed (ac_Session ac)" "\<not> ac_Running ac"
    "length (ac_Channel ac) = n" "\<not> ac_Closed ac" "ss_ID (ac_Session ac) = 7" | "channelCap < n"
proof (cases "n \<le> channelCap")
  case True
  let ?s = "(NewSession 1 7)\<lparr>ss_Timer := False\<rparr> :: nat Session"
  let ?ac = "lm_Actors (demo_sending n) ! 0"
  obtain w where "wireText (plainMessage ''close'' (ss_ID ?s)) = Some w" "length w \<le> 999"
    using wire_close_length[of 7] by (auto simp: NewSession_def maxInteger_def)
  then obtain s' where s': "Close ?s = Ok s'" by (auto simp: Close_def SendCloseMessage_def sendEncoded_wire)
  have c: "ss_IsClosed s'" "ss_ID s' = 7" using Close_keeps[OF s'] by (simp_all add: keeps_def NewSession_def)
  have "RecieveMessage (SessionTimeout + 1) TimerFired (ac_Session ?ac) = Ok (False, s')"
    using s' by (simp add: RecieveMessage_def onTimer_def demo_sending_def demo_waiting_def newActor_def NewSession_def)
  then obtain ac where ac: "actorHandle (SessionTimeout + 1) TimerFired (ac_Channel ?ac) ?ac = Done ac"
    "ac_Session ac = s'" "\<not> ac_Running ac" "ac_Channel ac = ac_Channel ?ac" "ac_Closed ac = ac_Closed ?ac"
    by (simp add: actorHandle_def)
  have "lr_call (demo_sending n) (Done (setActor (demo_sending n) 0 ac))"
    using lr_call.TimerTick[of 0 "demo_sending n" ?ac "SessionTimeout + 1"] ac(1)
    by (simp add: demo_sending_def demo_waiting_def newActor_def NewSession_def)
  then have "lr_reachable (setActor (demo_sending n) 0 ac)" using demo_reachable[OF True] by (rule lr_reachable.Step[rotated])
  then show ?thesis using that(1)[of ac] ac(2-5) c
    by (simp add: setActor_def demo_sending_def demo_waiting_def newActor_def)
qed (use that(2) in simp)

text \<open>C10: The server can panic in one way only: from every reachable state, whatever datagram arrives, whichever session is
  handled and whatever the monitor does, there is no second close of a channel and no slice out of range, and a send
  panics only when the dispatcher had found the session open, and since then the session has ended and the
  monitor has closed its channel.\<close>
theorem only_late_sends_panic:
  assumes "lr_reachable sm" "lr_call sm Panics"
  shows "\<exists>r msg. lm_Dispatcher sm = Sending r msg \<and> r < length (lm_Actors sm) \<and> ac_Closed (lm_Actors sm ! r) \<and> ss_IsClosed (sessionAt sm r)"
  using lr_call_ok[OF assms(2) lr_reachable_ok[OF assms(1)]] lr_reachable_ok[OF assms(1)]
  by (auto simp: manager_ok_def actor_ok_def)

text \<open>It does happen: the dispatcher is about to send, the session times out, and the monitor comes by.\<close>

lemma late_send_possible: "\<exists>sm :: nat SessionManager. lr_reachable sm \<and> lr_call sm Panics"
proof (rule demo_closes[of 0])
  fix ac assume ac: "lr_reachable ((demo_sending 0)\<lparr>lm_Actors := [ac]\<rparr>)" "ss_IsClosed (ac_Session ac)"
    "\<not> ac_Closed ac" "ss_ID (ac_Session ac) = 7"
  let ?sm = "(demo_sending 0)\<lparr>lm_Actors := [ac]\<rparr>"
  let ?gone = "?sm\<lparr>lm_Actors := [ac\<lparr>ac_Closed := True\<rparr>], lm_sessions := (lm_sessions ?sm)(7 := None), lm_Monitor := None\<rparr>"
  have "lr_reachable (?sm\<lparr>lm_Monitor := Some 0\<rparr>)"
    using lr_steps(4)[OF ac(1), of 7 0] ac(2) by (simp add: demo_sending_def demo_waiting_def monitorTest_def)
  from lr_steps(5)[OF this, of 0 ?gone] have "lr_reachable ?gone" using ac(3,4) by (simp add: removeSession_def)
  moreover have "lr_call ?gone Panics"
    using lr_call.Send[of ?gone 0 "ConnectMessage (Some 1)"] by (simp add: demo_sending_def channelSend_def)
  ultimately show ?thesis by blast
qed (simp add: channelCap_def)

theorem only_late_sends_panic_witness:
  "\<exists>(sm :: nat SessionManager) r. lr_call sm Panics \<and> ac_Closed (lm_Actors sm ! r) \<and> ss_IsClosed (sessionAt sm r)"
  using late_send_possible only_late_sends_panic by meson

text \<open>
  A dispatcher that waits for room in the channel of a session that has ended waits for ever, or until the monitor
  closes the channel and the process dies: no datagram is handled any more.
\<close>

definition stuck_dispatcher :: "'a SessionManager \<Rightarrow> bool" where
  "stuck_dispatcher sm \<longleftrightarrow>
     (\<exists>r msg. lm_Dispatcher sm = Sending r msg \<and> r < length (lm_Actors sm) \<and>
        \<not> ac_Running (lm_Actors sm ! r) \<and> channelCap \<le> length (ac_Channel (lm_Actors sm ! r)))"

lemma update_at: "xs[i := x] ! j = (if i = j \<and> i < length xs then x else xs ! j)"
  by (cases "i < length xs") (auto simp: nth_list_update not_less list_update_beyond)

theorem stuck_for_ever: "lr_call sm res \<Longrightarrow> stuck_dispatcher sm \<Longrightarrow> (\<exists>sm'. res = Done sm' \<and> stuck_dispatcher sm') \<or> res \<in> {Blocks, Panics}"
proof (induction rule: lr_call.induct)
  case (Send sm r msg)
  then show ?case by (auto simp: stuck_dispatcher_def channelSend_def Let_def)
next
  case (Observe sm key r)
  then show ?case by (auto simp: stuck_dispatcher_def monitorTest_def)
next
  case (Remove sm r)
  then show ?case by (auto simp: stuck_dispatcher_def removeSession_def Let_def update_at)
next
  case (TimerTick r sm ac now)
  then have "stuck_dispatcher (setActor sm r ac')" for ac'
    by (auto simp: stuck_dispatcher_def setActor_def update_at)
  then show ?case by (auto split: attempt.split)
next
  case (Deliver r sm ac ev channel now)
  then have "stuck_dispatcher (setActor sm r ac')" for ac'
    by (auto simp: stuck_dispatcher_def setActor_def update_at)
  then show ?case by (auto split: attempt.split)
qed (auto simp: stuck_dispatcher_def)

theorem dispatcher_can_be_stuck: "\<exists>sm :: nat SessionManager. lr_reachable sm \<and> stuck_dispatcher sm"
proof (rule demo_closes[of channelCap])
  fix ac assume ac: "lr_reachable ((demo_sending channelCap)\<lparr>lm_Actors := [ac]\<rparr>)" "\<not> ac_Running ac" "length (ac_Channel ac) = channelCap"
  then have "stuck_dispatcher ((demo_sending channelCap)\<lparr>lm_Actors := [ac]\<rparr>)"
    by (simp add: stuck_dispatcher_def demo_sending_def)
  then show ?thesis using ac(1) by blast
qed simp

text \<open>A data, acknowledgement or close message for a session that does not exist or has closed is
  answered with exactly one close message to its sender, and changes nothing else.\<close>
theorem unknown_session_answered:
  assumes "Validate m" "lr_Type m \<in> {''data'', ''ack'', ''close''}" "\<not> SessionExists sm (lr_Session m)"
  shows "\<exists>w. Encode (plainMessage ''close'' (lr_Session m)) [] = Some (length w, w) \<and>
           handleRequest m sender sm = Done (sm\<lparr>lm_Replies := lm_Replies sm @ [(sender, w)]\<rparr>)"
proof -
  have i: "0 \<le> lr_Session m" "lr_Session m \<le> maxInteger" using assms(1) by (auto simp: Validate_def split: if_splits)
  have "handleRequest m sender sm = sendCloseResponse sm (lr_Session m) sender"
    using assms(2,3) by (auto simp: handleRequest_def)
  then show ?thesis using sendCloseResponse_ok[OF i, of sm sender] by (auto simp: Encode_def)
qed

theorem unknown_session_answered_witness:
  "\<exists>w. Encode (plainMessage ''close'' 9) [] = Some (length w, w) \<and>
       handleRequest (plainMessage ''data'' 9) 3 (NewSessionManager :: nat SessionManager) =
         Done (NewSessionManager\<lparr>lm_Replies := [(3, w)]\<rparr>)"
  using unknown_session_answered[of "plainMessage ''data'' 9" "NewSessionManager :: nat SessionManager" 3]
  by (simp add: plainMessage_def Validate_def maxInteger_def SessionExists_def NewSessionManager_def)

text \<open>
  Between its test and the deletion, which is by id, the monitor can be overtaken by a new connect: then it deletes the
  new session, which is open and runs, but no message reaches it any more.
\<close>

theorem monitor_drops_new_session:
  "\<exists>sm :: nat SessionManager. lr_reachable sm \<and> lm_sessions sm 7 = None \<and> ss_ID (sessionAt sm 1) = 7 \<and>
     \<not> ss_IsClosed (sessionAt sm 1) \<and> ac_Running (lm_Actors sm ! 1)"
proof (rule demo_closes[of 0])
  fix ac assume ac: "lr_reachable ((demo_sending 0)\<lparr>lm_Actors := [ac]\<rparr>)" "ss_IsClosed (ac_Session ac)"
    "length (ac_Channel ac) = 0" "\<not> ac_Closed ac" "ss_ID (ac_Session ac) = 7"
  let ?ac = "ac\<lparr>ac_Channel := [ConnectMessage (Some 1)]\<rparr>"
  let ?s1 = "(demo_waiting 1)\<lparr>lm_Actors := [?ac]\<rparr>"
  let ?s2 = "?s1\<lparr>lm_Monitor := Some 0\<rparr>"
  let ?s3 = "?s2\<lparr>lm_Incoming := replicate 2 (demo_connect, 1), lm_Actors := [?ac, newActor 1 7], lm_sessions := [7 \<mapsto> 1], lm_Dispatcher := Checked 7 (ConnectMessage (Some 1))\<rparr>"
  let ?s4 = "?s3\<lparr>lm_Actors := [?ac\<lparr>ac_Closed := True\<rparr>, newActor 1 7], lm_sessions := (lm_sessions ?s3)(7 := None), lm_Monitor := None\<rparr>"
  have "lr_reachable ?s1"
    by (rule lr_steps(3)[OF ac(1), of 0 "ConnectMessage (Some 1)"])
      (use ac(3,4) in \<open>simp_all add: demo_sending_def demo_waiting_def channelSend_def channelCap_def\<close>)
  from lr_steps(4)[OF this, of 7 0] have s2: "lr_reachable ?s2" using ac(2) by (simp add: demo_waiting_def monitorTest_def)
  have s3: "lr_reachable ?s3"
    by (rule lr_steps(1)[OF s2, of demo_connect 1])
      (use ac(2) in \<open>simp_all add: demo_waiting_def arrived_def numeral_2_eq_2 incomingDatagram_def demo_connect_decodes handleRequest_def plainMessage_def CreateSession_def\<close>)
  from lr_steps(5)[OF s3, of 0 ?s4] have "lr_reachable ?s4" using ac(4,5) by (simp add: removeSession_def demo_waiting_def)
  then show ?thesis by (intro exI[of _ ?s4]) (simp add: demo_waiting_def newActor_def NewSession_def)
qed (simp add: channelCap_def)

end
