(* ===== verification/LR_Routing.thy ===== *)
theory LR_Routing
  imports LR_Manager "HOL-Library.Sublist"
begin

text \<open>
  Which datagrams reach which session of the line reversal server: the messages an object has received, compared with
  the datagrams that have arrived, through every interleaving of the dispatcher, the session loops and the monitor.
\<close>

section \<open>What a session should receive\<close>

text \<open>The message a session gets for a datagram.\<close>

definition messageOf :: "LRMessage \<Rightarrow> 'a \<Rightarrow> 'a SessionMessage list" where
  "messageOf m sender =
     (if lr_Type m = ''connect'' then [ConnectMessage (Some sender)]
      else if lr_Type m = ''data'' then [DataMessage (lr_Position m) (lr_Data m) (Some sender)]
      else if lr_Type m = ''ack'' then [AckMessage (lr_Length m) (Some sender)]
      else if lr_Type m = ''close'' then [CloseMessage (Some sender)]
      else [])"

definition messagesFor :: "int \<Rightarrow> (string \<times> 'a) list \<Rightarrow> 'a SessionMessage list" where
  "messagesFor ident datagrams =
     concat (map (\<lambda>(data, sender).
       case DecodeLRMessage data of
         Inl err \<Rightarrow> []
       | Inr m \<Rightarrow> if lr_Session m = ident then messageOf m sender else []) datagrams)"

text \<open>A connect for the session from \<open>origin\<close> comes first.\<close>

definition opened :: "'a \<Rightarrow> int \<Rightarrow> (string \<times> 'a) list \<Rightarrow> bool" where
  "opened origin ident datagrams \<longleftrightarrow>
     (\<exists>data rest m. datagrams = (data, origin) # rest \<and> DecodeLRMessage data = Inr m \<and>
        lr_Type m = ''connect'' \<and> lr_Session m = ident)"

section \<open>What it has received\<close>

fun fromChannel :: "'a SessionEvent \<Rightarrow> 'a SessionMessage list" where
  "fromChannel (FromChannel msg) = [msg]"
| "fromChannel _ = []"

text \<open>The messages its loop has handled, in order, and those waiting in its channel.\<close>

definition receivedBy :: "'a Actor \<Rightarrow> 'a SessionMessage list" where
  "receivedBy ac = concat (map (\<lambda>(now, ev). fromChannel ev) (ac_Log ac)) @ ac_Channel ac"

text \<open>The message the dispatcher is carrying to it.\<close>

definition carried :: "'a SessionManager \<Rightarrow> nat \<Rightarrow> 'a SessionMessage list" where
  "carried sm r =
     (case lm_Dispatcher sm of
        Waiting \<Rightarrow> []
      | Checked ident msg \<Rightarrow> if lm_sessions sm ident = Some r then [msg] else []
      | Sending r' msg \<Rightarrow> if r' = r then [msg] else [])"

section \<open>The invariant\<close>

text \<open>
  Since the connect that created it, an object has received messages of its own id only, in the order of the
  datagrams, and all of them as long as it is open and in the table.
\<close>

definition current :: "'a SessionManager \<Rightarrow> nat \<Rightarrow> bool" where
  "current sm r \<longleftrightarrow> lm_sessions sm (ss_ID (sessionAt sm r)) = Some r \<and> \<not> ss_IsClosed (sessionAt sm r)"

definition routed :: "'a SessionManager \<Rightarrow> nat \<Rightarrow> bool" where
  "routed sm r \<longleftrightarrow>
     (let ac = lm_Actors sm ! r; ident = ss_ID (ac_Session ac) in
      \<exists>earlier since. lm_Incoming sm = earlier @ since \<and> opened (ac_Origin ac) ident since \<and>
        subseq (receivedBy ac @ carried sm r) (messagesFor ident since) \<and>
        (current sm r \<longrightarrow> receivedBy ac @ carried sm r = messagesFor ident since))"

lemma messagesFor_append: "messagesFor i (ds @ es) = messagesFor i ds @ messagesFor i es"
  by (simp add: messagesFor_def)

lemma messagesFor_Nil [simp]: "messagesFor i [] = []"
  by (simp add: messagesFor_def)

lemma routed_step:
  assumes "routed sm r" and "lm_Incoming sm' = lm_Incoming sm @ new"
    and "ac_Origin (lm_Actors sm' ! r) = ac_Origin (lm_Actors sm ! r)" "ss_ID (sessionAt sm' r) = ss_ID (sessionAt sm r)"
    and "subseq (receivedBy (lm_Actors sm' ! r) @ carried sm' r)
           (receivedBy (lm_Actors sm ! r) @ carried sm r @ messagesFor (ss_ID (sessionAt sm r)) new)"
    and "current sm' r \<Longrightarrow> current sm r \<and>
           receivedBy (lm_Actors sm' ! r) @ carried sm' r =
             receivedBy (lm_Actors sm ! r) @ carried sm r @ messagesFor (ss_ID (sessionAt sm r)) new"
  shows "routed sm' r"
proof -
  let ?i = "ss_ID (sessionAt sm r)" and ?ac = "lm_Actors sm ! r"
  from assms(1) obtain earlier since where s: "lm_Incoming sm = earlier @ since" "opened (ac_Origin ?ac) ?i since"
    "subseq (receivedBy ?ac @ carried sm r) (messagesFor ?i since)"
    "current sm r \<longrightarrow> receivedBy ?ac @ carried sm r = messagesFor ?i since"
    by (auto simp: routed_def Let_def)
  have "subseq (receivedBy ?ac @ carried sm r @ messagesFor ?i new) (messagesFor ?i (since @ new))"
    using list_emb_append_mono[OF s(3), of "messagesFor ?i new" "messagesFor ?i new"] by (simp add: messagesFor_append)
  with assms(5) have sub: "subseq (receivedBy (lm_Actors sm' ! r) @ carried sm' r) (messagesFor ?i (since @ new))"
    by (rule subseq_order.trans)
  have all: "receivedBy (lm_Actors sm' ! r) @ carried sm' r = messagesFor ?i (since @ new)" if "current sm' r"
    using assms(6)[OF that] s(4) by (auto simp: messagesFor_append)
  have "opened (ac_Origin ?ac) ?i (since @ new)" using s(2) by (auto simp: opened_def)
  then show ?thesis unfolding routed_def Let_def assms(3,4)
    using sub all s(1) assms(2) by (intro exI[of _ earlier] exI[of _ "since @ new"]) simp
qed

lemma routed_same:
  assumes "routed sm r" "lm_Incoming sm' = lm_Incoming sm"
    and "ac_Origin (lm_Actors sm' ! r) = ac_Origin (lm_Actors sm ! r)" "ss_ID (sessionAt sm' r) = ss_ID (sessionAt sm r)"
    and "receivedBy (lm_Actors sm' ! r) @ carried sm' r = receivedBy (lm_Actors sm ! r) @ carried sm r"
    and "current sm' r \<Longrightarrow> current sm r"
  shows "routed sm' r"
  by (rule routed_step[of sm r sm' "[]"]) (use assms in auto)

text \<open>While the dispatcher sends to an object, no other object takes its id.\<close>

definition routing_ok :: "'a SessionManager \<Rightarrow> bool" where
  "routing_ok sm \<longleftrightarrow>
     (\<forall>r < length (lm_Actors sm). routed sm r) \<and>
     (\<forall>r msg r'. lm_Dispatcher sm = Sending r msg \<longrightarrow> lm_sessions sm (ss_ID (sessionAt sm r)) = Some r' \<longrightarrow> r' = r)"

section \<open>Every step keeps it\<close>

lemma messagesFor_one:
  "messagesFor i [(data, sender)] =
     (case DecodeLRMessage data of Inl err \<Rightarrow> [] | Inr m \<Rightarrow> if lr_Session m = i then messageOf m sender else [])"
  by (simp add: messagesFor_def)

lemma manager_ok_table:
  "manager_ok sm \<Longrightarrow> lm_sessions sm i = Some r \<Longrightarrow> r < length (lm_Actors sm) \<and> ss_ID (sessionAt sm r) = i"
  by (simp add: manager_ok_def)

lemma subseq_prefix_of: "subseq xs (xs @ ys)"
  by (induction xs) auto

text \<open>A datagram that is answered by the dispatcher itself, or dropped.\<close>

lemma routed_unsent:
  assumes "routed sm r" "lm_Dispatcher sm = Waiting" "lm_Dispatcher sm' = Waiting" "lm_Actors sm' = lm_Actors sm"
    "lm_sessions sm' = lm_sessions sm" "lm_Incoming sm' = lm_Incoming sm @ [(data, sender)]"
    and "current sm r \<Longrightarrow> messagesFor (ss_ID (sessionAt sm r)) [(data, sender)] = []"
  shows "routed sm' r"
proof (rule routed_step[OF assms(1,6)])
  show "subseq (receivedBy (lm_Actors sm' ! r) @ carried sm' r)
          (receivedBy (lm_Actors sm ! r) @ carried sm r @ messagesFor (ss_ID (sessionAt sm r)) [(data, sender)])"
    using assms(2-4) by (simp add: carried_def subseq_prefix_of)
  show "current sm r \<and> receivedBy (lm_Actors sm' ! r) @ carried sm' r =
          receivedBy (lm_Actors sm ! r) @ carried sm r @ messagesFor (ss_ID (sessionAt sm r)) [(data, sender)]"
    if "current sm' r"
    using that assms(2-5,7) by (simp add: carried_def current_def)
qed (simp_all add: assms(4))

text \<open>A datagram for a session of the table that is open.\<close>

lemma routed_checked:
  assumes "routed sm r" "manager_ok sm" "r < length (lm_Actors sm)" "lm_Dispatcher sm = Waiting"
    and "DecodeLRMessage data = Inr m" "messageOf m sender = [msg]"
    and "sm' = sm\<lparr>lm_Incoming := lm_Incoming sm @ [(data, sender)], lm_Dispatcher := Checked (lr_Session m) msg\<rparr>"
  shows "routed sm' r"
proof (rule routed_step[OF assms(1)])
  have new: "messagesFor i [(data, sender)] = (if lr_Session m = i then [msg] else [])" for i
    by (simp add: messagesFor_one assms(5,6))
  have c: "carried sm' r = (if lm_sessions sm (lr_Session m) = Some r then [msg] else [])" "carried sm r = []"
    by (simp_all add: carried_def assms(4,7))
  have i: "lr_Session m = ss_ID (sessionAt sm r)" if "lm_sessions sm (lr_Session m) = Some r"
    using manager_ok_table[OF assms(2) that] by simp
  have ac: "lm_Actors sm' = lm_Actors sm" by (simp add: assms(7))
  show "subseq (receivedBy (lm_Actors sm' ! r) @ carried sm' r)
      (receivedBy (lm_Actors sm ! r) @ carried sm r @ messagesFor (ss_ID (sessionAt sm r)) [(data, sender)])"
    using i unfolding c new ac by (cases "lm_sessions sm (lr_Session m) = Some r") (simp_all add: subseq_prefix_of)
  assume cur: "current sm' r"
  then have "lm_sessions sm (ss_ID (sessionAt sm r)) = Some r" "current sm r" by (simp_all add: current_def assms(7))
  then show "current sm r \<and> receivedBy (lm_Actors sm' ! r) @ carried sm' r =
      receivedBy (lm_Actors sm ! r) @ carried sm r @ messagesFor (ss_ID (sessionAt sm r)) [(data, sender)]"
    using i unfolding c new ac by (cases "lr_Session m = ss_ID (sessionAt sm r)") auto
qed (simp_all add: assms(7))

text \<open>A connect that creates the session.\<close>

lemma routed_created:
  assumes ok: "manager_ok sm" and all: "\<forall>r < length (lm_Actors sm). routed sm r" and wait: "lm_Dispatcher sm = Waiting"
    and m: "DecodeLRMessage data = Inr m" "lr_Type m = ''connect''"
    and sm': "sm' = sm\<lparr>lm_Incoming := lm_Incoming sm @ [(data, sender)],
                lm_Actors := lm_Actors sm @ [newActor sender (lr_Session m)],
                lm_sessions := (lm_sessions sm)(lr_Session m \<mapsto> length (lm_Actors sm)),
                lm_Dispatcher := Checked (lr_Session m) (ConnectMessage (Some sender))\<rparr>"
    and r: "r < length (lm_Actors sm')"
  shows "routed sm' r"
proof (cases "r = length (lm_Actors sm)")
  case True
  have "messagesFor (lr_Session m) [(data, sender)] = [ConnectMessage (Some sender)]"
    by (simp add: messagesFor_one m messageOf_def)
  with True m show ?thesis unfolding routed_def Let_def
    by (intro exI[of _ "lm_Incoming sm"] exI[of _ "[(data, sender)]"])
      (simp add: sm' newActor_def NewSession_def opened_def receivedBy_def carried_def)
next
  case False
  with r have r: "r < length (lm_Actors sm)" by (simp add: sm')
  have ac: "lm_Actors sm' ! r = lm_Actors sm ! r" using r by (simp add: sm' nth_append)
  have c: "carried sm' r = []" "carried sm r = []" using r by (simp_all add: carried_def sm' wait)
  show ?thesis
  proof (rule routed_step[of sm r sm' "[(data, sender)]"])
    show "subseq (receivedBy (lm_Actors sm' ! r) @ carried sm' r)
            (receivedBy (lm_Actors sm ! r) @ carried sm r @ messagesFor (ss_ID (sessionAt sm r)) [(data, sender)])"
      by (simp add: ac c subseq_prefix_of)
    assume "current sm' r"
    then have "current sm r" "lr_Session m \<noteq> ss_ID (sessionAt sm r)"
      using r by (auto simp: current_def ac) (auto simp: sm' split: if_splits)
    then show "current sm r \<and> receivedBy (lm_Actors sm' ! r) @ carried sm' r =
        receivedBy (lm_Actors sm ! r) @ carried sm r @ messagesFor (ss_ID (sessionAt sm r)) [(data, sender)]"
      by (simp add: ac c messagesFor_one m)
  qed (use all r in \<open>simp_all add: ac\<close>, simp add: sm')
qed

lemma SessionExists_current: "manager_ok sm \<Longrightarrow> SessionExists sm i \<longleftrightarrow> (\<exists>r. current sm r \<and> ss_ID (sessionAt sm r) = i)"
  by (auto simp: SessionExists_def current_def dest: manager_ok_table split: option.splits)

lemma handleRequest_sends:
  assumes "messageOf m sender = [msg]" "SessionExists sm (lr_Session m)"
  shows "handleRequest m sender sm = Done (sm\<lparr>lm_Dispatcher := Checked (lr_Session m) msg\<rparr>)"
proof -
  have "CreateSession sm sender (lr_Session m) = sm" if "SessionExists sm (lr_Session m)"
    using that by (auto simp: CreateSession_def SessionExists_def Let_def split: option.splits)
  with assms show ?thesis by (auto simp: handleRequest_def messageOf_def Let_def split: if_splits)
qed

lemma handleRequest_answers:
  assumes "handleRequest m sender sm = Done sm'" "lr_Type m = ''connect'' \<Longrightarrow> False"
    and "messageOf m sender \<noteq> [] \<Longrightarrow> \<not> SessionExists sm (lr_Session m)"
  shows "lm_Dispatcher sm' = lm_Dispatcher sm \<and> lm_Actors sm' = lm_Actors sm \<and> lm_sessions sm' = lm_sessions sm \<and>
    lm_Incoming sm' = lm_Incoming sm"
  using assms by (auto simp: handleRequest_def messageOf_def sendCloseResponse_def Let_def split: if_splits option.splits)

lemma messageOf_one: "messageOf m sender \<noteq> [] \<Longrightarrow> \<exists>msg. messageOf m sender = [msg]"
  by (simp add: messageOf_def split: if_splits)

lemma datagram_routed:
  assumes ok: "manager_ok sm" and all: "\<forall>r < length (lm_Actors sm). routed sm r" and wait: "lm_Dispatcher sm = Waiting"
    and run: "incomingDatagram data sender (arrived data sender sm) = Done sm'"
  shows "(\<forall>r < length (lm_Actors sm'). routed sm' r) \<and> (\<forall>r msg. lm_Dispatcher sm' \<noteq> Sending r msg)"
proof -
  let ?A = "arrived data sender sm"
  have exists: "SessionExists ?A i = SessionExists sm i" for i by (simp add: SessionExists_def arrived_def cong: option.case_cong)
  have connect: "lr_Type m = ''connect'' \<Longrightarrow> messageOf m sender \<noteq> []" for m by (simp add: messageOf_def)
  consider e where "DecodeLRMessage data = Inl e"
    | m where "DecodeLRMessage data = Inr m" "messageOf m sender \<noteq> []" "SessionExists sm (lr_Session m)"
    | m where "DecodeLRMessage data = Inr m" "lr_Type m = ''connect''" "\<not> SessionExists sm (lr_Session m)"
    | m where "DecodeLRMessage data = Inr m" "lr_Type m \<noteq> ''connect''"
        "messageOf m sender = [] \<or> \<not> SessionExists sm (lr_Session m)"
    using connect by (cases "DecodeLRMessage data") blast+
  then show ?thesis
  proof cases
    case 1
    then have "sm' = ?A" using run by (simp add: incomingDatagram_def)
    then have same: "lm_Dispatcher sm' = Waiting" "lm_Actors sm' = lm_Actors sm"
      "lm_sessions sm' = lm_sessions sm" "lm_Incoming sm' = lm_Incoming sm @ [(data, sender)]"
      by (simp_all add: arrived_def wait)
    have "routed sm' r" if "r < length (lm_Actors sm)" for r
      by (rule routed_unsent[OF all[rule_format, OF that] wait same]) (simp add: messagesFor_one 1)
    then show ?thesis unfolding same(1,2) by simp
  next
    case (2 m)
    from messageOf_one[OF 2(2)] obtain msg where msg: "messageOf m sender = [msg]" by blast
    have "SessionExists ?A (lr_Session m)" using 2(3) exists by blast
    from handleRequest_sends[OF msg this] run have "sm' = ?A\<lparr>lm_Dispatcher := Checked (lr_Session m) msg\<rparr>"
      by (simp add: incomingDatagram_def 2(1))
    then have sm': "sm' = sm\<lparr>lm_Incoming := lm_Incoming sm @ [(data, sender)], lm_Dispatcher := Checked (lr_Session m) msg\<rparr>"
      by (simp add: arrived_def)
    have "routed sm' r" if "r < length (lm_Actors sm)" for r
      by (rule routed_checked[OF all[rule_format, OF that] ok that wait 2(1) msg sm'])
    then show ?thesis unfolding sm' by simp
  next
    case (3 m)
    then have "CreateSession ?A sender (lr_Session m) =
        ?A\<lparr>lm_Actors := lm_Actors ?A @ [newActor sender (lr_Session m)],
           lm_sessions := (lm_sessions ?A)(lr_Session m \<mapsto> length (lm_Actors ?A))\<rparr>"
      using exists[of "lr_Session m"]
      by (auto simp: CreateSession_def SessionExists_def Let_def split: option.splits)
    then have sm': "sm' = sm\<lparr>lm_Incoming := lm_Incoming sm @ [(data, sender)],
                lm_Actors := lm_Actors sm @ [newActor sender (lr_Session m)],
                lm_sessions := (lm_sessions sm)(lr_Session m \<mapsto> length (lm_Actors sm)),
                lm_Dispatcher := Checked (lr_Session m) (ConnectMessage (Some sender))\<rparr>"
      using run 3 by (simp add: incomingDatagram_def handleRequest_def Let_def arrived_def)
    have "routed sm' r" if "r < length (lm_Actors sm')" for r
      by (rule routed_created[OF ok all wait 3(1,2) sm' that])
    then show ?thesis by (simp add: sm')
  next
    case (4 m)
    then have req: "handleRequest m sender ?A = Done sm'" using run by (simp add: incomingDatagram_def)
    from handleRequest_answers[OF req] 4 have same: "lm_Dispatcher sm' = lm_Dispatcher sm" "lm_Actors sm' = lm_Actors sm"
      "lm_sessions sm' = lm_sessions sm" "lm_Incoming sm' = lm_Incoming sm @ [(data, sender)]"
      by (auto simp: exists) (auto simp: arrived_def)
    have "messagesFor (ss_ID (sessionAt sm r)) [(data, sender)] = []" if "current sm r" for r
      using 4 that SessionExists_current[OF ok] by (auto simp: messagesFor_one)
    then have "routed sm' r" if "r < length (lm_Actors sm)" for r
      using routed_unsent[OF all[rule_format, OF that] wait same(1)[unfolded wait] same(2-4)] by blast
    then show ?thesis unfolding same(1,2) wait by simp
  qed
qed

text \<open>The tests of the dispatcher.\<close>

lemma check_routed:
  assumes ok: "manager_ok sm" and rt: "routing_ok sm" and d: "lm_Dispatcher sm = Checked i msg"
  shows "routing_ok (SendMessage sm i msg)"
proof (cases "\<exists>r. lm_sessions sm i = Some r \<and> \<not> ss_IsClosed (sessionAt sm r)")
  case True
  then obtain r0 where r0: "lm_sessions sm i = Some r0" "\<not> ss_IsClosed (sessionAt sm r0)" by blast
  then have s: "SendMessage sm i msg = sm\<lparr>lm_Dispatcher := Sending r0 msg\<rparr>" by (simp add: SendMessage_def)
  have "routed (SendMessage sm i msg) r" if "r < length (lm_Actors sm)" for r
    by (rule routed_same[of sm]) (use rt that r0 d in \<open>simp_all add: s routing_ok_def carried_def current_def\<close>)
  moreover have "r' = r0" if "lm_sessions sm (ss_ID (sessionAt sm r0)) = Some r'" for r'
    using manager_ok_table[OF ok r0(1)] that r0(1) by simp
  ultimately show ?thesis by (simp add: routing_ok_def s)
next
  case False
  then have s: "SendMessage sm i msg = sm\<lparr>lm_Dispatcher := Waiting\<rparr>"
    by (auto simp: SendMessage_def split: option.splits)
  have "routed (SendMessage sm i msg) r" if r: "r < length (lm_Actors sm)" for r
  proof (rule routed_step[of sm r _ "[]"])
    show "subseq (receivedBy (lm_Actors (SendMessage sm i msg) ! r) @ carried (SendMessage sm i msg) r)
        (receivedBy (lm_Actors sm ! r) @ carried sm r @ messagesFor (ss_ID (sessionAt sm r)) [])"
      by (simp add: s carried_def[of "sm\<lparr>lm_Dispatcher := Waiting\<rparr>"] subseq_prefix_of)
    assume "current (SendMessage sm i msg) r"
    then have cur: "current sm r" by (simp add: s current_def)
    then have "lm_sessions sm i \<noteq> Some r" using False by (auto simp: current_def)
    then have "carried sm r = []" by (simp add: carried_def d)
    then show "current sm r \<and> receivedBy (lm_Actors (SendMessage sm i msg) ! r) @ carried (SendMessage sm i msg) r =
        receivedBy (lm_Actors sm ! r) @ carried sm r @ messagesFor (ss_ID (sessionAt sm r)) []"
      using cur by (simp add: s carried_def)
  qed (use rt r in \<open>simp_all add: s routing_ok_def\<close>)
  then show ?thesis by (simp add: routing_ok_def s)
qed

text \<open>The send.\<close>

lemma send_routed:
  assumes ok: "manager_ok sm" and rt: "routing_ok sm" and d: "lm_Dispatcher sm = Sending r0 msg"
    and run: "channelSend sm r0 msg = Done sm'"
  shows "routing_ok sm'"
proof -
  let ?ac = "lm_Actors sm ! r0"
  have r0: "r0 < length (lm_Actors sm)" using ok d by (simp add: manager_ok_def)
  have s: "sm' = sm\<lparr>lm_Actors := (lm_Actors sm)[r0 := ?ac\<lparr>ac_Channel := ac_Channel ?ac @ [msg]\<rparr>], lm_Dispatcher := Waiting\<rparr>"
    using run by (auto simp: channelSend_def Let_def split: if_splits)
  have "routed sm' r" if "r < length (lm_Actors sm)" for r
  proof -
    have rr: "routed sm r" using rt that by (simp add: routing_ok_def)
    have ac: "ac_Origin (lm_Actors sm' ! r) = ac_Origin (lm_Actors sm ! r)" "sessionAt sm' r = sessionAt sm r"
      "receivedBy (lm_Actors sm' ! r) = receivedBy (lm_Actors sm ! r) @ (if r0 = r then [msg] else [])"
      using r0 by (auto simp: s receivedBy_def update_at)
    have "carried sm' r = []" "carried sm r = (if r0 = r then [msg] else [])" by (simp_all add: carried_def s d)
    then show ?thesis by (intro routed_same[OF rr]) (simp_all add: ac current_def, simp_all add: s)
  qed
  then show ?thesis by (simp add: routing_ok_def s)
qed

lemma routed_frame: "routed (sm\<lparr>lm_Monitor := x\<rparr>) r = routed sm r"
proof -
  have "carried (sm\<lparr>lm_Monitor := x\<rparr>) r = carried sm r" by (cases "lm_Dispatcher sm") (simp_all add: carried_def)
  moreover have "current (sm\<lparr>lm_Monitor := x\<rparr>) r = current sm r" by (simp add: current_def)
  ultimately show ?thesis by (simp add: routed_def Let_def)
qed

lemma remove_routed:
  assumes ok: "manager_ok sm" and rt: "routing_ok sm" and m: "lm_Monitor sm = Some r0" and run: "removeSession r0 sm = Done sm'"
  shows "routing_ok sm'"
proof -
  let ?ac = "lm_Actors sm ! r0" and ?i = "ss_ID (sessionAt sm r0)"
  have r0: "r0 < length (lm_Actors sm)" using ok m by (simp add: manager_ok_def)
  have s: "sm' = sm\<lparr>lm_Actors := (lm_Actors sm)[r0 := ?ac\<lparr>ac_Closed := True\<rparr>], lm_sessions := (lm_sessions sm)(?i := None),
                    lm_Monitor := None\<rparr>"
    using run by (auto simp: removeSession_def Let_def split: if_splits)
  have ac: "receivedBy (lm_Actors sm' ! r) = receivedBy (lm_Actors sm ! r)" "sessionAt sm' r = sessionAt sm r"
    "ac_Origin (lm_Actors sm' ! r) = ac_Origin (lm_Actors sm ! r)" for r
    using r0 by (auto simp: s receivedBy_def nth_list_update update_at)
  have "routed sm' r" if r: "r < length (lm_Actors sm)" for r
  proof (rule routed_step[of sm r _ "[]"])
    have c: "carried sm' r = carried sm r \<or> carried sm' r = []"
      by (auto simp: carried_def s split: Dispatch.splits)
    then show "subseq (receivedBy (lm_Actors sm' ! r) @ carried sm' r)
        (receivedBy (lm_Actors sm ! r) @ carried sm r @ messagesFor (ss_ID (sessionAt sm r)) [])"
      by (auto simp: ac subseq_prefix_of)
    assume cur: "current sm' r"
    then have i: "ss_ID (sessionAt sm r) \<noteq> ?i" "current sm r" by (auto simp: current_def ac) (auto simp: s split: if_splits)
    have "carried sm' r = carried sm r"
      using i(1) manager_ok_table[OF ok, of ?i r] by (auto simp: carried_def s split: Dispatch.splits)
    with i(2) show "current sm r \<and> receivedBy (lm_Actors sm' ! r) @ carried sm' r =
        receivedBy (lm_Actors sm ! r) @ carried sm r @ messagesFor (ss_ID (sessionAt sm r)) []" by (simp add: ac)
  qed (use rt r in \<open>simp_all add: ac routing_ok_def\<close>, simp add: s)
  then show ?thesis using rt by (auto simp: routing_ok_def ac) (auto simp: s split: if_splits)
qed

text \<open>The loop of a session takes its messages from the head of its channel.\<close>

lemma handle_routed:
  assumes rt: "routing_ok sm" and r0: "r0 < length (lm_Actors sm)"
    and run: "actorHandle now ev channel (lm_Actors sm ! r0) = Done ac"
    and ch: "fromChannel ev @ channel = ac_Channel (lm_Actors sm ! r0)"
  shows "routing_ok (setActor sm r0 ac)"
proof -
  let ?old = "lm_Actors sm ! r0" and ?sm = "setActor sm r0 ac"
  obtain running t where t: "RecieveMessage now ev (ac_Session ?old) = Ok (running, t)"
    "ac = ?old\<lparr>ac_Session := t, ac_Channel := channel, ac_Running := running, ac_Log := ac_Log ?old @ [(now, ev)]\<rparr>"
    using run by (auto simp: actorHandle_def split: outcome.splits prod.splits)
  have rc: "receivedBy ac = receivedBy ?old" by (simp add: t(2) receivedBy_def ch[symmetric])
  note keep = RecieveMessage_keeps[OF t(1)]
  have at: "lm_Actors ?sm ! r0 = ac" "r \<noteq> r0 \<Longrightarrow> lm_Actors ?sm ! r = lm_Actors sm ! r" for r
    using r0 by (simp_all add: setActor_def)
  have "ac_Origin ac = ac_Origin ?old" "ac_Session ac = t" by (simp_all add: t(2))
  then have same: "receivedBy (lm_Actors ?sm ! r) = receivedBy (lm_Actors sm ! r)" "ss_ID (sessionAt ?sm r) = ss_ID (sessionAt sm r)"
    "ac_Origin (lm_Actors ?sm ! r) = ac_Origin (lm_Actors sm ! r)"
    "\<not> ss_IsClosed (sessionAt ?sm r) \<Longrightarrow> \<not> ss_IsClosed (sessionAt sm r)" for r
    using rc keep at by (cases "r = r0"; auto)+
  have frame: "lm_sessions ?sm = lm_sessions sm" "lm_Dispatcher ?sm = lm_Dispatcher sm" "lm_Incoming ?sm = lm_Incoming sm"
    "length (lm_Actors ?sm) = length (lm_Actors sm)" by (simp_all add: setActor_def)
  have "routed ?sm r" if "r < length (lm_Actors sm)" for r
  proof (rule routed_same[of sm])
    show "current ?sm r \<Longrightarrow> current sm r" using same(2,4) by (auto simp: current_def frame)
    show "receivedBy (lm_Actors ?sm ! r) @ carried ?sm r = receivedBy (lm_Actors sm ! r) @ carried sm r"
      unfolding same(1) carried_def frame ..
  qed (use rt that in \<open>simp_all add: routing_ok_def same frame\<close>)
  then show ?thesis using rt by (simp add: routing_ok_def same frame)
qed

lemma lr_call_routed:
  "lr_call sm res \<Longrightarrow> res = Done sm' \<Longrightarrow> manager_ok sm \<Longrightarrow> routing_ok sm \<Longrightarrow> routing_ok sm'"
proof (induction rule: lr_call.induct)
  case (Datagram sm data sender)
  then show ?case using datagram_routed[of sm data sender sm'] by (simp add: routing_ok_def)
next
  case (Check sm ident msg)
  then show ?case using check_routed by blast
next
  case (Send sm r msg)
  then show ?case using send_routed by blast
next
  case (Observe sm key r)
  then show ?case by (auto simp: monitorTest_def routing_ok_def routed_frame split: if_splits)
next
  case (Remove sm r)
  then show ?case using remove_routed by blast
next
  case (TimerTick r sm ac now)
  then obtain ac' where "actorHandle now TimerFired (ac_Channel ac) ac = Done ac'" "sm' = setActor sm r ac'"
    by (auto split: attempt.splits)
  then show ?case using TimerTick handle_routed[of sm r now TimerFired "ac_Channel ac" ac'] by simp
next
  case (Deliver r sm ac ev channel now)
  then obtain ac' where "actorHandle now ev channel ac = Done ac'" "sm' = setActor sm r ac'"
    by (auto split: attempt.splits)
  moreover have "fromChannel ev @ channel = ac_Channel ac" using nextMessage_Some[OF Deliver.hyps(4)] by auto
  ultimately show ?case using Deliver handle_routed[of sm r now ev channel ac'] by simp
qed

lemma lr_reachable_routed: "lr_reachable sm \<Longrightarrow> routing_ok sm"
proof (induction rule: lr_reachable.induct)
  case Start
  then show ?case by (simp add: routing_ok_def NewSessionManager_def)
next
  case (Step sm sm')
  then show ?case using lr_call_routed[OF Step.hyps(2) refl lr_reachable_ok] by blast
qed

section \<open>Property\<close>

text \<open>C11: Sessions are independent, and each gets what is addressed to it. In every reachable state of the server, each
  session object is exactly what its own run over the events it has handled makes it. The messages among these events,
  followed by those in its channel and the one the dispatcher is carrying to it, are made, in order, from datagrams
  that carry its id and arrived since the connect that created it; and as long as it is open and in the table they are the messages
  of all of these datagrams, with their contents and senders: none is lost, doubled, reordered or sent elsewhere.\<close>
theorem sessions_are_independent_runs:
  assumes "lr_reachable sm" "r < length (lm_Actors sm)"
  shows "sessionRun (ac_Log (lm_Actors sm ! r)) (NewSession (ac_Origin (lm_Actors sm ! r)) (ss_ID (sessionAt sm r))) =
           Ok (ac_Running (lm_Actors sm ! r), sessionAt sm r) \<and>
         (\<exists>earlier since. lm_Incoming sm = earlier @ since \<and>
            opened (ac_Origin (lm_Actors sm ! r)) (ss_ID (sessionAt sm r)) since \<and>
            subseq (receivedBy (lm_Actors sm ! r) @ carried sm r) (messagesFor (ss_ID (sessionAt sm r)) since) \<and>
            (lm_sessions sm (ss_ID (sessionAt sm r)) = Some r \<and> \<not> ss_IsClosed (sessionAt sm r) \<longrightarrow>
               receivedBy (lm_Actors sm ! r) @ carried sm r = messagesFor (ss_ID (sessionAt sm r)) since))"
proof -
  have "actor_ok (lm_Actors sm ! r)" using lr_reachable_ok[OF assms(1)] assms(2) by (simp add: manager_ok_def)
  moreover have "routed sm r" using lr_reachable_routed[OF assms(1)] assms(2) by (simp add: routing_ok_def)
  ultimately show ?thesis by (simp add: actor_ok_def routed_def current_def Let_def)
qed

theorem sessions_are_independent_runs_witness:
  "sessionRun (ac_Log (lm_Actors demo_manager ! 0)) (NewSession (ac_Origin (lm_Actors demo_manager ! 0)) (ss_ID (sessionAt demo_manager 0))) =
     Ok (ac_Running (lm_Actors demo_manager ! 0), sessionAt demo_manager 0) \<and>
   (\<exists>earlier since. lm_Incoming demo_manager = earlier @ since \<and>
      opened (ac_Origin (lm_Actors demo_manager ! 0)) (ss_ID (sessionAt demo_manager 0)) since \<and>
      receivedBy (lm_Actors demo_manager ! 0) @ carried demo_manager 0 = messagesFor (ss_ID (sessionAt demo_manager 0)) since)"
proof -
  have "lm_sessions demo_manager (ss_ID (sessionAt demo_manager 0)) = Some 0" "\<not> ss_IsClosed (sessionAt demo_manager 0)"
    "0 < length (lm_Actors demo_manager)"
    by (simp_all add: demo_waiting_def newActor_def NewSession_def)
  with sessions_are_independent_runs[OF demo_manager_reachable, of 0] show ?thesis by blast
qed

end
