(* ===== verification/ISL_Codec.thy ===== *)
theory ISL_Codec
  imports Go_Prelude
begin

unbundle bit_operations_syntax


text \<open>
  \<open>internal/insecuresocketslayer/codec.go\<close>: cipher specifications, their parser, and the encoder
  and decoder on bytes of 8 bits (arithmetic wraps as Go's does). The number of processors is an
  argument, and the goroutines of \<open>decodeParallel\<close> are a schedule: an order of all the byte
  updates they make on the shared slice.
\<close>

section \<open>Ciphers\<close>

definition opEnd :: byte where "opEnd = 0x00"
definition opReverseBits :: byte where "opReverseBits = 0x01"
definition opXor :: byte where "opXor = 0x02"
definition opXorPos :: byte where "opXorPos = 0x03"
definition opAdd :: byte where "opAdd = 0x04"
definition opAddPos :: byte where "opAddPos = 0x05"

lemmas opcode_defs = opEnd_def opReverseBits_def opXor_def opXorPos_def opAdd_def opAddPos_def

definition DummyMessage :: bytes where
  "DummyMessage = map word_of_nat [32..<127]"

record Instruction =
  in_OpCode :: byte
  in_Operand :: byte

record Cipher =
  cp_encodeOps :: "Instruction list"
  cp_decodeOps :: "Instruction list"
  cp_rawCipherSpec :: bytes
  cp_Valid :: bool

text \<open>\<open>init\<close>: eight rounds shift the lowest bit of the element into the result.\<close>

definition reverseRound :: "byte \<times> byte \<Rightarrow> byte \<times> byte" where
  "reverseRound p =
     (case p of (result, element) \<Rightarrow> (push_bit 1 result OR (element AND 1), drop_bit 1 element))"

definition reverseBits :: "nat \<Rightarrow> byte" where
  "reverseBits i = fst ((reverseRound ^^ 8) (0, word_of_nat i))"

definition bitReverseTable :: bytes where
  "bitReverseTable = map reverseBits [0..<256]"

section \<open>Applying instructions\<close>

text \<open>\<open>byte(position)\<close> keeps the low eight bits.\<close>

definition byteOf :: "int \<Rightarrow> byte" where
  "byteOf position = word_of_int position"

definition applyEncode :: "Instruction \<Rightarrow> int \<Rightarrow> byte \<Rightarrow> byte outcome" where
  "applyEncode inst position element =
     (if in_OpCode inst = opReverseBits then Ok (bitReverseTable ! unat element)
      else if in_OpCode inst = opXor then Ok (element XOR in_Operand inst)
      else if in_OpCode inst = opXorPos then Ok (element XOR byteOf position)
      else if in_OpCode inst = opAdd then Ok (element + in_Operand inst)
      else if in_OpCode inst = opAddPos then Ok (element + byteOf position)
      else Panic)"

definition applyDecode :: "Instruction \<Rightarrow> int \<Rightarrow> byte \<Rightarrow> byte outcome" where
  "applyDecode inst position element =
     (if in_OpCode inst = opReverseBits then Ok (bitReverseTable ! unat element)
      else if in_OpCode inst = opXor then Ok (element XOR in_Operand inst)
      else if in_OpCode inst = opXorPos then Ok (element XOR byteOf position)
      else if in_OpCode inst = opAdd then Ok (element - in_Operand inst)
      else if in_OpCode inst = opAddPos then Ok (element - byteOf position)
      else Panic)"

text \<open>The inner loop over the instructions, for an operation \<open>apply1\<close>.\<close>

fun applyAll ::
  "(Instruction \<Rightarrow> int \<Rightarrow> byte \<Rightarrow> byte outcome) \<Rightarrow> Instruction list \<Rightarrow> int \<Rightarrow> byte \<Rightarrow> byte outcome" where
  "applyAll apply1 [] position element = Ok element"
| "applyAll apply1 (inst # insts) position element =
     and_then (apply1 inst position element) (applyAll apply1 insts position)"

text \<open>
  The loop over the bytes from index \<open>i\<close> on. It replaces the elements of the copy one by one and
  reads each before it writes it, so the result is built here in order.
\<close>

fun codeBytes ::
  "(Instruction \<Rightarrow> int \<Rightarrow> byte \<Rightarrow> byte outcome) \<Rightarrow> Instruction list \<Rightarrow> int \<Rightarrow> bytes \<Rightarrow> bytes outcome" where
  "codeBytes apply1 insts position [] = Ok []"
| "codeBytes apply1 insts position (b # bs) =
     and_then (applyAll apply1 insts position b) (\<lambda>e.
     and_then (codeBytes apply1 insts (position + 1) bs) (\<lambda>es. Ok (e # es)))"

definition EncodeData :: "Cipher \<Rightarrow> int \<Rightarrow> bytes \<Rightarrow> bytes outcome" where
  "EncodeData c startPos data = codeBytes applyEncode (cp_encodeOps c) startPos data"

definition decodeSequential :: "Cipher \<Rightarrow> int \<Rightarrow> bytes \<Rightarrow> bytes outcome" where
  "decodeSequential c startPos data = codeBytes applyDecode (cp_decodeOps c) startPos data"

section \<open>Parallel decoding\<close>

definition parallelDecodeThreshold :: nat where "parallelDecodeThreshold = 2048"

text \<open>The indices of each worker, for \<open>n\<close> bytes.\<close>

definition workerChunks :: "nat \<Rightarrow> nat \<Rightarrow> nat list list" where
  "workerChunks numWorkers n =
     (let chunkSize = (n + numWorkers - 1) div numWorkers in
      map (\<lambda>i. let chunkStart = i * chunkSize;
                   chunkEnd = (if chunkStart + chunkSize > n then n else chunkStart + chunkSize)
               in if chunkStart \<ge> chunkEnd then [] else [chunkStart..<chunkEnd])
          [0..<numWorkers])"

definition decodeAt :: "Cipher \<Rightarrow> int \<Rightarrow> nat \<Rightarrow> bytes \<Rightarrow> bytes outcome" where
  "decodeAt c startPos j decoded =
     and_then (applyAll applyDecode (cp_decodeOps c) (startPos + int j) (decoded ! j)) (\<lambda>element.
       Ok (decoded[j := element]))"

fun runSchedule :: "Cipher \<Rightarrow> int \<Rightarrow> nat list \<Rightarrow> bytes \<Rightarrow> bytes outcome" where
  "runSchedule c startPos [] decoded = Ok decoded"
| "runSchedule c startPos (j # js) decoded =
     and_then (decodeAt c startPos j decoded) (runSchedule c startPos js)"

text \<open>A schedule makes every update of every worker once.\<close>

definition schedule_ok :: "nat \<Rightarrow> nat \<Rightarrow> nat list \<Rightarrow> bool" where
  "schedule_ok numWorkers n js \<longleftrightarrow> mset js = mset (concat (workerChunks numWorkers n))"

definition decodeParallel :: "nat list \<Rightarrow> Cipher \<Rightarrow> int \<Rightarrow> bytes \<Rightarrow> bytes outcome" where
  "decodeParallel schedule c startPos data = runSchedule c startPos schedule data"

definition DecodeData :: "nat \<Rightarrow> (nat \<Rightarrow> nat list) \<Rightarrow> Cipher \<Rightarrow> int \<Rightarrow> bytes \<Rightarrow> bytes outcome" where
  "DecodeData numCPU schedule c startPos data =
     (if length data < parallelDecodeThreshold \<or> numCPU \<le> 1 then decodeSequential c startPos data
      else decodeParallel (schedule (length data)) c startPos data)"

section \<open>Specifications\<close>

datatype specError = UnexpectedEnd byte | UnknownOperation byte | NoEnd

text \<open>The loop of \<open>parseCipherSpec\<close>: \<open>data[index:]\<close>, the operations so far, \<open>index\<close>.\<close>

fun parseLoop :: "bytes \<Rightarrow> Instruction list \<Rightarrow> nat \<Rightarrow> specError + (Instruction list \<times> nat)" where
  "parseLoop [] operations index = Inl NoEnd"
| "parseLoop (opCode # rest) operations index =
     (if opCode = opEnd then Inr (operations, index + 1)
      else if opCode = opReverseBits \<or> opCode = opXorPos \<or> opCode = opAddPos then
        parseLoop rest (operations @ [\<lparr>in_OpCode = opCode, in_Operand = 0\<rparr>]) (index + 1)
      else if opCode = opXor \<or> opCode = opAdd then
        (case rest of
           [] \<Rightarrow> Inl (UnexpectedEnd opCode)
         | operand # rest' \<Rightarrow>
             parseLoop rest' (operations @ [\<lparr>in_OpCode = opCode, in_Operand = operand\<rparr>]) (index + 2))
      else Inl (UnknownOperation opCode))"

definition parseCipherSpec :: "bytes \<Rightarrow> specError + (Instruction list \<times> nat)" where
  "parseCipherSpec data = parseLoop data [] 0"

definition isValidCipher :: "Cipher \<Rightarrow> bool outcome" where
  "isValidCipher c =
     (if length (cp_rawCipherSpec c) = 1 \<and> cp_rawCipherSpec c ! 0 = opEnd then Ok False
      else and_then (EncodeData c 0 DummyMessage) (\<lambda>encoded. Ok (DummyMessage \<noteq> encoded)))"

text \<open>The loop that fills \<open>decodeOps\<close> from the back; an entry not yet filled is nil.\<close>

fun fillDecodeOps :: "nat \<Rightarrow> nat \<Rightarrow> Instruction list \<Rightarrow> Instruction option list \<Rightarrow> Instruction option list" where
  "fillDecodeOps n i [] ops = ops"
| "fillDecodeOps n i (inst # insts) ops = fillDecodeOps n (i + 1) insts (ops[n - 1 - i := Some inst])"

definition NewCipher :: "bytes \<Rightarrow> (specError + Cipher) outcome" where
  "NewCipher data =
     (case parseCipherSpec data of
        Inl err \<Rightarrow> Ok (Inl err)
      | Inr (encodeOps, specLen) \<Rightarrow>
          let decodeOps = fillDecodeOps (length encodeOps) 0 encodeOps (replicate (length encodeOps) None);
              cipher = \<lparr>cp_encodeOps = encodeOps, cp_decodeOps = map the decodeOps,
                        cp_rawCipherSpec = take specLen data, cp_Valid = False\<rparr>
          in and_then (isValidCipher cipher) (\<lambda>valid. Ok (Inr (cipher\<lparr>cp_Valid := valid\<rparr>))))"


section \<open>Bit reversal\<close>

lemma reverseRounds:
  "case (reverseRound ^^ k) (0, b) of (r, e) \<Rightarrow>
     (\<forall>n<8. bit e n = bit b (n + k)) \<and> (\<forall>n<8. bit r n = (n < k \<and> bit b (k - 1 - n)))"
proof (induction k)
  case 0
  then show ?case by simp
next
  case (Suc k)
  obtain r e where re: "(reverseRound ^^ k) (0, b) = (r, e)" by force
  with Suc have e: "bit e n = bit b (n + k)" and r: "bit r n = (n < k \<and> bit b (k - 1 - n))" if "n < 8" for n
    using that by auto
  have big: "\<not> bit b n" if "8 \<le> n" for n using that bit_imp_le_length[of b n] by auto
  have "bit (drop_bit 1 e) n = bit b (n + Suc k)" if "n < 8" for n
  proof (cases "n < 7")
    case True
    then show ?thesis using e[of "Suc n"] by (simp add: bit_simps)
  next
    case False
    then have "\<not> bit b (n + Suc k)" using big by simp
    moreover have "\<not> bit e (Suc n)" using False bit_imp_le_length[of e "Suc n"] by auto
    ultimately show ?thesis by (simp add: bit_simps)
  qed
  moreover have "bit (push_bit 1 r OR (e AND 1)) n = (n < Suc k \<and> bit b (Suc k - 1 - n))" if "n < 8" for n
  proof -
    have "bit (push_bit 1 r) n = (1 \<le> n \<and> bit r (n - 1))"
      using that by (simp only: bit_push_bit_iff possible_bit_word) simp
    then show ?thesis using that r[of "n - 1"] e[of 0] by (cases n) (auto simp: bit_or_iff bit_and_iff bit_1_iff)
  qed
  moreover have "(reverseRound ^^ Suc k) (0, b) = (push_bit 1 r OR (e AND 1), drop_bit 1 e)"
    using re by (simp add: reverseRound_def[of "(r, e)"])
  ultimately show ?case by (simp only: prod.case) blast
qed

lemma bit_reverseBits: "n < 8 \<Longrightarrow> bit (reverseBits i) n = bit (word_of_nat i :: byte) (7 - n)"
  using reverseRounds[where k = 8 and b = "word_of_nat i"] by (auto simp: reverseBits_def split: prod.splits)

lemma table_nth: "bitReverseTable ! unat (b :: byte) = reverseBits (unat b)"
proof -
  have "unat b < 256" using unsigned_less[of b, where ?'a = nat] by simp
  then show ?thesis by (simp add: bitReverseTable_def)
qed

lemma bit_table: "n < 8 \<Longrightarrow> bit (bitReverseTable ! unat (b :: byte)) n = bit b (7 - n)"
  by (simp add: table_nth bit_reverseBits)

lemma table_involution [simp]: "bitReverseTable ! unat (bitReverseTable ! unat b) = b"
proof (rule bit_word_eqI)
  fix n assume "n < LENGTH(8)"
  then have "n < 8" by simp
  then show "bit (bitReverseTable ! unat (bitReverseTable ! unat b)) n = bit b n"
    by (simp add: bit_table)
qed

section \<open>Instructions that a parsed specification can hold\<close>

definition inst_ok :: "Instruction \<Rightarrow> bool" where
  "inst_ok inst \<longleftrightarrow> in_OpCode inst \<in> {opReverseBits, opXor, opXorPos, opAdd, opAddPos}"

lemma applyEncode_ok: "inst_ok inst \<Longrightarrow> \<exists>e. applyEncode inst p x = Ok e"
  by (auto simp: inst_ok_def applyEncode_def)

lemma applyDecode_ok: "inst_ok inst \<Longrightarrow> \<exists>e. applyDecode inst p x = Ok e"
  by (auto simp: inst_ok_def applyDecode_def)

lemma decode_encode1: "applyEncode inst p x = Ok e \<Longrightarrow> applyDecode inst p e = Ok x"
  by (auto simp: applyEncode_def applyDecode_def opcode_defs xor.assoc split: if_splits)

lemma encode_decode1: "applyDecode inst p x = Ok e \<Longrightarrow> applyEncode inst p e = Ok x"
  by (auto simp: applyEncode_def applyDecode_def opcode_defs xor.assoc split: if_splits)

lemma applyAll_append:
  "applyAll f (xs @ ys) p x = and_then (applyAll f xs p x) (applyAll f ys p)"
proof (induction xs arbitrary: x)
  case (Cons inst xs)
  then show ?case by (cases "f inst p x") auto
qed simp

lemma applyAll_ok:
  assumes "\<And>inst x. inst \<in> set insts \<Longrightarrow> \<exists>e. f inst p x = Ok e"
  shows "\<exists>e. applyAll f insts p x = Ok e"
  using assms
proof (induction insts arbitrary: x)
  case (Cons inst insts)
  then obtain e where "f inst p x = Ok e" by (meson list.set_intros(1))
  with Cons show ?case by auto
qed simp

lemma applyAll_inverse:
  assumes inv: "\<And>inst x e. f inst p x = Ok e \<Longrightarrow> g inst p e = Ok x"
  shows "applyAll f insts p x = Ok e \<Longrightarrow> applyAll g (rev insts) p e = Ok x"
proof (induction insts arbitrary: x)
  case (Cons inst insts)
  then obtain y where y: "f inst p x = Ok y" "applyAll f insts p y = Ok e"
    by (cases "f inst p x") auto
  from Cons.IH[OF y(2)] inv[OF y(1)] show ?case by (simp add: applyAll_append)
qed simp

lemma codeBytes_ok:
  assumes "\<And>inst p x. inst \<in> set insts \<Longrightarrow> \<exists>e. f inst p x = Ok e"
  shows "\<exists>es. codeBytes f insts p xs = Ok es \<and> length es = length xs"
proof (induction xs arbitrary: p)
  case (Cons x xs)
  obtain e where "applyAll f insts p x = Ok e" using applyAll_ok[of insts f p x] assms by blast
  moreover obtain es where "codeBytes f insts (p + 1) xs = Ok es" "length es = length xs" using Cons.IH by blast
  ultimately show ?case by simp
qed simp

lemma codeBytes_inverse:
  assumes "\<And>inst p x e. f inst p x = Ok e \<Longrightarrow> g inst p e = Ok x"
  shows "codeBytes f insts p xs = Ok es \<Longrightarrow> codeBytes g (rev insts) p es = Ok xs"
proof (induction xs arbitrary: p es)
  case (Cons x xs)
  then obtain e fs where "applyAll f insts p x = Ok e" "codeBytes f insts (p + 1) xs = Ok fs" "es = e # fs"
    by (cases "applyAll f insts p x"; cases "codeBytes f insts (p + 1) xs") auto
  with Cons.IH applyAll_inverse[of f p g, OF assms] show ?case by fastforce
qed simp

lemma codeBytes_append:
  "codeBytes f insts p (xs @ ys) =
   and_then (codeBytes f insts p xs) (\<lambda>es.
   and_then (codeBytes f insts (p + int (length xs)) ys) (\<lambda>fs. Ok (es @ fs)))"
proof (induction xs arbitrary: p)
  case Nil
  then show ?case by (cases "codeBytes f insts p ys") auto
next
  case (Cons x xs)
  then show ?case
    by (cases "applyAll f insts p x"; cases "codeBytes f insts (p + 1) xs"; 
        cases "codeBytes f insts (p + 1 + int (length xs)) ys") (auto simp: ac_simps)
qed

lemma codeBytes_nth:
  "codeBytes f insts p xs = Ok es \<Longrightarrow>
   length es = length xs \<and> (\<forall>i < length xs. applyAll f insts (p + int i) (xs ! i) = Ok (es ! i))"
proof (induction xs arbitrary: p es)
  case (Cons x xs)
  then obtain e fs where e: "applyAll f insts p x = Ok e" "codeBytes f insts (p + 1) xs = Ok fs" "es = e # fs"
    by (cases "applyAll f insts p x"; cases "codeBytes f insts (p + 1) xs") auto
  from Cons.IH[OF e(2)] e show ?case
    by (auto simp: nth_Cons split: nat.splits) (simp add: ac_simps)
qed simp

section \<open>Ciphers made by NewCipher\<close>

lemma fillDecodeOps_rev:
  "n = length ops \<Longrightarrow> i + length insts = n \<Longrightarrow>
   fillDecodeOps n i insts ops = map Some (rev insts) @ drop (length insts) ops"
proof (induction insts arbitrary: i ops)
  case Nil
  then show ?case by simp
next
  case (Cons inst insts)
  from Cons.prems have "fillDecodeOps n i (inst # insts) ops =
      map Some (rev insts) @ drop (length insts) (ops[n - 1 - i := Some inst])"
    using Cons.IH[of "ops[n - 1 - i := Some inst]" "i + 1"] by simp
  moreover have "n - 1 - i = length insts" using Cons.prems by simp
  moreover have "drop (length insts) (ops[length insts := Some inst]) = Some inst # drop (Suc (length insts)) ops"
    using Cons.prems Cons_nth_drop_Suc[of "length insts" "ops[length insts := Some inst]"] by simp
  ultimately show ?case by simp
qed

lemma decodeOps_rev: "map the (fillDecodeOps (length ops) 0 ops (replicate (length ops) None)) = rev ops"
  by (simp add: fillDecodeOps_rev)

lemma parseLoop_ok:
  "parseLoop data ops index = Inr (ops', n) \<Longrightarrow> \<forall>inst\<in>set ops. inst_ok inst \<Longrightarrow>
   (\<forall>inst\<in>set ops'. inst_ok inst) \<and> index < n \<and> n \<le> index + length data"
proof (induction data ops index rule: parseLoop.induct)
  case (2 opCode rest operations index)
  show ?case
  proof (cases "opCode = opXor \<or> opCode = opAdd")
    case True
    then have ne: "\<not> (opCode = opReverseBits \<or> opCode = opXorPos \<or> opCode = opAddPos)" "opCode \<noteq> opEnd"
      by (auto simp: opcode_defs)
    with True "2.prems"(1) obtain operand rest' where r: "rest = operand # rest'"
      "parseLoop rest' (operations @ [\<lparr>in_OpCode = opCode, in_Operand = operand\<rparr>]) (index + 2) = Inr (ops', n)"
      by (auto split: list.splits)
    have "\<forall>inst\<in>set (operations @ [\<lparr>in_OpCode = opCode, in_Operand = operand\<rparr>]). inst_ok inst"
      using "2.prems"(2) True by (auto simp: inst_ok_def)
    from "2.IH"(2)[OF ne(2,1) True r(1,2) this] r(1) show ?thesis by simp
  next
    case False
    show ?thesis
    proof (cases "opCode = opEnd")
      case True
      then show ?thesis using "2.prems" by simp
    next
      case ne: False
      with False "2.prems"(1) have o: "opCode = opReverseBits \<or> opCode = opXorPos \<or> opCode = opAddPos" 
        by (auto split: if_splits)
      with ne "2.prems"(1) have r: "parseLoop rest (operations @ [\<lparr>in_OpCode = opCode, in_Operand = 0\<rparr>]) (index + 1) = Inr (ops', n)"
        by simp
      have "\<forall>inst\<in>set (operations @ [\<lparr>in_OpCode = opCode, in_Operand = 0\<rparr>]). inst_ok inst"
        using "2.prems"(2) o by (auto simp: inst_ok_def)
      from "2.IH"(1)[OF ne o r this] show ?thesis by simp
    qed
  qed
qed simp

definition cipher_ok :: "Cipher \<Rightarrow> bool" where
  "cipher_ok c \<longleftrightarrow> (\<forall>inst\<in>set (cp_encodeOps c). inst_ok inst) \<and> cp_decodeOps c = rev (cp_encodeOps c)"

lemma EncodeData_ok: "cipher_ok c \<Longrightarrow> \<exists>es. EncodeData c p xs = Ok es \<and> length es = length xs"
  unfolding EncodeData_def by (rule codeBytes_ok) (auto simp: cipher_ok_def applyEncode_ok)

lemma decodeSequential_ok: "cipher_ok c \<Longrightarrow> \<exists>es. decodeSequential c p xs = Ok es \<and> length es = length xs"
  unfolding decodeSequential_def by (rule codeBytes_ok) (auto simp: cipher_ok_def applyDecode_ok)

lemma NewCipher_total: "\<exists>r. NewCipher data = Ok r"
proof (cases "parseCipherSpec data")
  case (Inl e)
  then show ?thesis by (simp add: NewCipher_def)
next
  case (Inr p)
  obtain ops n where p: "p = (ops, n)" by force
  with Inr have "\<forall>inst\<in>set ops. inst_ok inst" using parseLoop_ok[of data "[]" 0 ops n] by (simp add: parseCipherSpec_def)
  then have "cipher_ok \<lparr>cp_encodeOps = ops, cp_decodeOps = rev ops, cp_rawCipherSpec = take n data, cp_Valid = False\<rparr>"
    by (simp add: cipher_ok_def)
  from EncodeData_ok[OF this, of 0 DummyMessage] Inr p show ?thesis
    by (auto simp: NewCipher_def decodeOps_rev isValidCipher_def Let_def)
qed

lemma NewCipher_ok: "NewCipher data = Ok (Inr c) \<Longrightarrow> cipher_ok c"
proof (cases "parseCipherSpec data")
  case (Inr p)
  assume c: "NewCipher data = Ok (Inr c)"
  obtain ops n where p: "p = (ops, n)" by force
  with Inr have "\<forall>inst\<in>set ops. inst_ok inst" using parseLoop_ok[of data "[]" 0 ops n] by (simp add: parseCipherSpec_def)
  then show ?thesis
    using c Inr p by (auto simp: NewCipher_def decodeOps_rev Let_def cipher_ok_def and_then_def split: outcome.splits)
qed (simp add: NewCipher_def)

section \<open>Parallel decoding is sequential decoding\<close>

lemma upt_glue: "i \<le> j \<Longrightarrow> j \<le> k \<Longrightarrow> [i..<j] @ [j..<k] = [i..<k]"
  using upt_add_eq_append[of i j "k - j"] by simp

lemma chunks_prefix:
  "concat (map (\<lambda>i. let chunkStart = i * cs;
                        chunkEnd = (if chunkStart + cs > n then n else chunkStart + cs)
                    in if chunkStart \<ge> chunkEnd then [] else [chunkStart..<chunkEnd]) [0..<k]) =
   [0..<min n (k * cs)]"
proof (induction k)
  case 0
  then show ?case by simp
next
  case (Suc k)
  show ?case
  proof (cases "k * cs < n \<and> 0 < cs")
    case True
    then have "[0..<k * cs] @ [k * cs..<k * cs + cs] = [0..<k * cs + cs]" "[0..<k * cs] @ [k * cs..<n] = [0..<n]"
      by (simp_all add: upt_glue)
    with Suc True show ?thesis
      by (cases "k * cs + cs > n") (auto simp: Let_def min_def add.commute[of cs])
  next
    case False
    with Suc show ?thesis by (auto simp: Let_def min_def)
  qed
qed

lemma concat_workerChunks: "0 < w \<Longrightarrow> concat (workerChunks w n) = [0..<n]"
proof -
  assume w: "0 < w"
  define cs where "cs = (n + w - 1) div w"
  have "n \<le> w * cs"
  proof -
    have "(n + w - 1) mod w < w" using w by simp
    moreover have "n + w - 1 = w * cs + (n + w - 1) mod w" by (simp add: cs_def)
    ultimately show ?thesis by linarith
  qed
  then show ?thesis
    unfolding workerChunks_def Let_def cs_def[symmetric] using chunks_prefix[of cs n w]
    by (simp add: Let_def min_def)
qed

lemma runSchedule_ok:
  assumes c: "cipher_ok c"
  shows "distinct js \<Longrightarrow> \<forall>j\<in>set js. j < length d \<Longrightarrow>
    \<exists>d'. runSchedule c p js d = Ok d' \<and> length d' = length d \<and>
      (\<forall>i < length d. if i \<in> set js then applyAll applyDecode (cp_decodeOps c) (p + int i) (d ! i) = Ok (d' ! i)
                      else d' ! i = d ! i)"
proof (induction js arbitrary: d)
  case Nil
  then show ?case by simp
next
  case (Cons j js)
  obtain e where e: "applyAll applyDecode (cp_decodeOps c) (p + int j) (d ! j) = Ok e"
    using applyAll_ok[of "cp_decodeOps c" applyDecode] applyDecode_ok c by (force simp: cipher_ok_def)
  from Cons.IH[of "d[j := e]"] Cons.prems obtain d' where
    d': "runSchedule c p js (d[j := e]) = Ok d'" "length d' = length d"
      "\<forall>i < length d. if i \<in> set js then applyAll applyDecode (cp_decodeOps c) (p + int i) (d[j := e] ! i) = Ok (d' ! i)
                      else d' ! i = d[j := e] ! i" by auto
  have "if i \<in> set (j # js) then applyAll applyDecode (cp_decodeOps c) (p + int i) (d ! i) = Ok (d' ! i)
        else d' ! i = d ! i" if "i < length d" for i
    using d'(3)[rule_format, OF that] Cons.prems e that by (cases "i = j") (auto split: if_splits)
  with d'(1,2) e show ?case by (intro exI[of _ d']) (simp add: decodeAt_def)
qed

lemma decodeParallel_sequential:
  assumes c: "cipher_ok c" and w: "0 < w" and s: "schedule_ok w (length data) js"
  shows "decodeParallel js c p data = decodeSequential c p data"
proof -
  have m: "mset js = mset [0..<length data]" using s concat_workerChunks[OF w] by (simp add: schedule_ok_def)
  then have set: "set js = {0..<length data}" by (metis mset_eq_setD set_upt)
  have "distinct js" using m by (metis distinct_upt mset_eq_imp_distinct_iff)
  from runSchedule_ok[OF c this, of data p] set obtain d' where
    d': "runSchedule c p js data = Ok d'" "length d' = length data"
      "\<forall>i < length data. applyAll applyDecode (cp_decodeOps c) (p + int i) (data ! i) = Ok (d' ! i)" by auto
  obtain es where es: "decodeSequential c p data = Ok es" using decodeSequential_ok[OF c] by blast
  from codeBytes_nth[OF es[unfolded decodeSequential_def]] d' have "d' = es"
    by (metis nth_equalityI outcome.inject)
  with d' es show ?thesis by (simp add: decodeParallel_def)
qed

lemma DecodeData_sequential:
  assumes "cipher_ok c" "schedule_ok numCPU (length data) (schedule (length data))"
  shows "DecodeData numCPU schedule c p data = decodeSequential c p data"
  using decodeParallel_sequential[OF assms(1) _ assms(2)] by (auto simp: DecodeData_def)

lemma decode_of_encode:
  assumes "cipher_ok c" "EncodeData c p xs = Ok es"
  shows "decodeSequential c p es = Ok xs"
  using codeBytes_inverse[OF decode_encode1 assms(2)[unfolded EncodeData_def]] assms(1)
  by (simp add: decodeSequential_def cipher_ok_def)

lemma encode_of_decode:
  assumes "cipher_ok c" "decodeSequential c p es = Ok xs"
  shows "EncodeData c p xs = Ok es"
  using codeBytes_inverse[OF encode_decode1 assms(2)[unfolded decodeSequential_def]] assms(1)
  by (simp add: EncodeData_def cipher_ok_def)

lemma decodeSequential_append:
  "decodeSequential c p (xs @ ys) =
   and_then (decodeSequential c p xs) (\<lambda>es.
   and_then (decodeSequential c (p + int (length xs)) ys) (\<lambda>fs. Ok (es @ fs)))"
  by (simp add: decodeSequential_def codeBytes_append)

section \<open>Properties\<close>

lemma NewCipher_valid_iff:
  assumes "NewCipher spec = Ok (Inr c)"
  shows "cp_Valid c \<longleftrightarrow> EncodeData c 0 DummyMessage \<noteq> Ok DummyMessage"
proof -
  from assms obtain ops n where p: "parseCipherSpec spec = Inr (ops, n)"
    by (auto simp: NewCipher_def split: sum.splits)
  define c0 where "c0 = \<lparr>cp_encodeOps = ops, cp_decodeOps = rev ops, cp_rawCipherSpec = take n spec, cp_Valid = False\<rparr>"
  have v: "and_then (isValidCipher c0) (\<lambda>valid. Ok (Inr (c0\<lparr>cp_Valid := valid\<rparr>) :: specError + Cipher)) = Ok (Inr c)"
    using assms p by (simp add: NewCipher_def decodeOps_rev Let_def c0_def)
  then obtain b where b: "isValidCipher c0 = Ok b" "c = c0\<lparr>cp_Valid := b\<rparr>"
    by (cases "isValidCipher c0") auto
  have e: "EncodeData c 0 DummyMessage = EncodeData c0 0 DummyMessage" by (simp add: b(2) EncodeData_def)
  show ?thesis
  proof (cases "length (cp_rawCipherSpec c0) = 1 \<and> cp_rawCipherSpec c0 ! 0 = opEnd")
    case True
    then obtain rest where "spec = opEnd # rest" by (cases spec) (auto simp: c0_def take_Cons split: nat.splits)
    then have "ops = []" using p by (simp add: parseCipherSpec_def)
    have "codeBytes applyEncode [] q xs = Ok xs" for q xs by (induction xs arbitrary: q) auto
    then have "EncodeData c0 0 DummyMessage = Ok DummyMessage" using \<open>ops = []\<close> by (simp add: EncodeData_def c0_def)
    with True b e show ?thesis by (simp add: isValidCipher_def)
  next
    case False
    have "cipher_ok c" by (rule NewCipher_ok[OF assms])
    from EncodeData_ok[OF this, of 0 DummyMessage] obtain es where "EncodeData c0 0 DummyMessage = Ok es" using e by auto
    with b(1)[unfolded isValidCipher_def if_not_P[OF False]] have "b = (DummyMessage \<noteq> es)" by auto
    then show ?thesis using b(2) \<open>EncodeData c0 0 DummyMessage = Ok es\<close> e by auto
  qed
qed

text \<open>C18: With any cipher \<open>NewCipher\<close> accepts, at any stream position, on any number of processors and
  whatever the order in which the decoding goroutines run, decoding what was encoded gives back
  exactly the original bytes, and encoding what was decoded the received ones; neither panics.\<close>
theorem cipher_roundtrip:
  assumes "NewCipher spec = Ok (Inr c)"
    and "\<forall>n. schedule_ok numCPU n (schedule n)"
  shows "(\<exists>es. EncodeData c p xs = Ok es \<and> length es = length xs \<and> DecodeData numCPU schedule c p es = Ok xs) \<and>
         (\<exists>es. DecodeData numCPU schedule c p xs = Ok es \<and> EncodeData c p es = Ok xs)"
proof -
  have c: "cipher_ok c" by (rule NewCipher_ok[OF assms(1)])
  have d: "DecodeData numCPU schedule c p ys = decodeSequential c p ys" for ys
    by (rule DecodeData_sequential[OF c]) (simp add: assms(2))
  show ?thesis
    using EncodeData_ok[OF c, of p xs] decodeSequential_ok[OF c, of p xs] decode_of_encode[OF c] encode_of_decode[OF c]
    unfolding d by fast
qed

text \<open>C17: The parallel decoder computes what the sequential one does: the workers' chunks cover every
  index once, so every order of their updates gives the same bytes.\<close>
theorem parallel_decode_is_sequential:
  assumes "NewCipher spec = Ok (Inr c)" "0 < numWorkers" "schedule_ok numWorkers (length data) js"
  shows "decodeParallel js c p data = decodeSequential c p data \<and>
         concat (workerChunks numWorkers (length data)) = [0..<length data]"
  using decodeParallel_sequential[OF NewCipher_ok[OF assms(1)] assms(2,3)] concat_workerChunks[OF assms(2)] by blast

text \<open>A cipher is accepted exactly when it changes the dummy message at position 0; in particular
  every cipher that changes nothing is refused.\<close>
theorem valid_iff_dummy_changes:
  assumes "NewCipher spec = Ok (Inr c)"
  shows "(cp_Valid c \<longleftrightarrow> EncodeData c 0 DummyMessage \<noteq> Ok DummyMessage) \<and>
         ((\<forall>p xs. EncodeData c p xs = Ok xs) \<longrightarrow> \<not> cp_Valid c)"
  using NewCipher_valid_iff[OF assms] by auto

definition demo_spec :: bytes where "demo_spec = [2, 1, 1, 0]"

definition demo_cipher :: Cipher where
  "demo_cipher = (case NewCipher demo_spec of Ok (Inr c) \<Rightarrow> c | _ \<Rightarrow> \<lparr>cp_encodeOps = [], cp_decodeOps = [], cp_rawCipherSpec = [], cp_Valid = False\<rparr>)"

lemma demo_cipher: "NewCipher demo_spec = Ok (Inr demo_cipher)"
proof -
  have "parseCipherSpec demo_spec = Inr ([\<lparr>in_OpCode = 2, in_Operand = 1\<rparr>, \<lparr>in_OpCode = 1, in_Operand = 0\<rparr>], 4)"
    by (simp add: parseCipherSpec_def demo_spec_def opcode_defs)
  then have "\<exists>c. NewCipher demo_spec = Ok (Inr c)"
    using NewCipher_total[of demo_spec] by (auto simp: NewCipher_def Let_def and_then_def split: outcome.splits)
  then show ?thesis by (auto simp: demo_cipher_def)
qed

lemma workerChunks_1: "schedule_ok 1 n [0..<n]"
  using concat_workerChunks[of 1 n] by (simp add: schedule_ok_def)

theorem cipher_roundtrip_witness:
  "\<exists>es. EncodeData demo_cipher 0 [104, 105] = Ok es \<and> length es = 2 \<and> DecodeData 1 (\<lambda>n. [0..<n]) demo_cipher 0 es = Ok [104, 105]"
  using cipher_roundtrip[OF demo_cipher, of 1 "\<lambda>n. [0..<n]" 0 "[104, 105]"] workerChunks_1
  by (simp add: numeral_2_eq_2)

lemma demo_schedule: "schedule_ok 2 3 [2, 0, 1]"
  by (simp add: schedule_ok_def concat_workerChunks upt_rec)

theorem parallel_decode_is_sequential_witness:
  "decodeParallel [2, 0, 1] demo_cipher 5 [7, 8, 9] = decodeSequential demo_cipher 5 [7, 8, 9]"
  using parallel_decode_is_sequential[OF demo_cipher, of 2 "[7, 8, 9]" "[2, 0, 1]" 5] demo_schedule
  by (simp add: numeral_3_eq_3)

theorem valid_iff_dummy_changes_witness:
  "cp_Valid demo_cipher \<longleftrightarrow> EncodeData demo_cipher 0 DummyMessage \<noteq> Ok DummyMessage"
  using valid_iff_dummy_changes[OF demo_cipher] by simp


section \<open>A cipher that is refused although it is not a no-op\<close>

text \<open>It subtracts 32, adds in the position, reverses the bits, adds in the position, adds 32: on the
  dummy message, whose byte at position \<open>i\<close> is \<open>32 + i\<close>, this is the identity.\<close>

definition blind_spec :: bytes where "blind_spec = [4, 224, 3, 1, 3, 4, 32, 0]"

definition blind_ops :: "Instruction list" where
  "blind_ops = [\<lparr>in_OpCode = 4, in_Operand = 224\<rparr>, \<lparr>in_OpCode = 3, in_Operand = 0\<rparr>, \<lparr>in_OpCode = 1, in_Operand = 0\<rparr>,
                \<lparr>in_OpCode = 3, in_Operand = 0\<rparr>, \<lparr>in_OpCode = 4, in_Operand = 32\<rparr>]"

lemma blind_parse: "parseCipherSpec blind_spec = Inr (blind_ops, 8)"
  by (simp add: parseCipherSpec_def blind_spec_def blind_ops_def opcode_defs)

lemma table_0: "bitReverseTable ! 0 = 0"
  using table_nth[of 0] bit_reverseBits[of _ 0] by (auto intro!: bit_word_eqI)

lemma blind_apply:
  "applyAll applyEncode blind_ops p x =
   Ok (((bitReverseTable ! unat ((x + 224) XOR byteOf p)) XOR byteOf p) + 32)"
  by (simp add: blind_ops_def applyEncode_def opcode_defs)

lemma blind_dummy: "codeBytes applyEncode blind_ops (int k) (map word_of_nat [32 + k..<127]) = Ok (map word_of_nat [32 + k..<127])"
  if "k \<le> 95"
  using that
proof (induction "95 - k" arbitrary: k)
  case 0
  then show ?case by simp
next
  case (Suc n)
  then have u: "[32 + k..<127] = (32 + k) # [32 + Suc k..<127]" by (simp add: upt_conv_Cons)
  have z: "word_of_nat (32 + k) + 224 = (word_of_nat k :: byte)"
  proof -
    have "word_of_nat (32 + k) + 224 = word_of_nat k + (256 :: byte)" by simp
    also have "(256 :: byte) = 0" by simp
    finally show ?thesis by simp
  qed
  have "applyAll applyEncode blind_ops (int k) (word_of_nat (32 + k)) = Ok (word_of_nat (32 + k))"
    unfolding blind_apply z byteOf_def by (simp add: table_0)
  moreover have "codeBytes applyEncode blind_ops (int (Suc k)) (map word_of_nat [32 + Suc k..<127]) = Ok (map word_of_nat [32 + Suc k..<127])"
    using Suc by (intro Suc.hyps(1)) auto
  ultimately show ?case unfolding u by (simp add: add.commute)
qed

text \<open>The dummy test does not only refuse no-ops: this cipher is refused as invalid although it
  changes the byte 1 at position 0.\<close>
theorem non_noop_cipher_refused:
  "\<exists>c. NewCipher blind_spec = Ok (Inr c) \<and> \<not> cp_Valid c \<and> EncodeData c 0 [1] \<noteq> Ok [1]"
proof -
  obtain c where c: "NewCipher blind_spec = Ok (Inr c)"
    using NewCipher_total[of blind_spec] blind_parse by (auto simp: NewCipher_def Let_def and_then_def split: outcome.splits)
  then have ops: "cp_encodeOps c = blind_ops"
    using blind_parse by (auto simp: NewCipher_def Let_def and_then_def split: outcome.splits)
  have "EncodeData c 0 DummyMessage = Ok DummyMessage"
    using blind_dummy[of 0] by (simp add: EncodeData_def ops DummyMessage_def)
  then have "\<not> cp_Valid c" using NewCipher_valid_iff[OF c] by simp
  moreover have "bitReverseTable ! unat (225 :: byte) = 135"
    unfolding table_nth by code_simp
  then have "EncodeData c 0 [1] \<noteq> Ok [1]" by (simp add: EncodeData_def ops blind_apply byteOf_def)
  ultimately show ?thesis using c by blast
qed

end
