(* ===== verification/Go_Framing.thy ===== *)
theory Go_Framing
  imports Go_Strings
begin

text \<open>
  Cutting messages out of a byte stream. Several servers keep a buffer, append what the socket
  delivers and then take complete messages off its front in a loop. The interface of such a
  decoder is the locale \<open>framer\<close>; what follows from it, whatever the messages are, is that the
  messages do not depend on how the stream was split into reads.
\<close>

section \<open>The loop\<close>

function frames :: "('b list \<Rightarrow> ('m \<times> 'b list) option) \<Rightarrow> 'b list \<Rightarrow> 'm list \<times> 'b list" where
  "frames dec buf =
     (case dec buf of
        None \<Rightarrow> ([], buf)
      | Some (m, rest) \<Rightarrow>
          if length rest < length buf then (let (ms, r) = frames dec rest in (m # ms, r)) else ([], buf))"
  by pat_completeness auto
termination
  by (relation "measure (\<lambda>(dec, buf). length buf)") auto

declare frames.simps [simp del]

text \<open>Feeding the buffer with one read after the other.\<close>

fun feed :: "('b list \<Rightarrow> ('m \<times> 'b list) option) \<Rightarrow> 'b list \<Rightarrow> 'b list list \<Rightarrow> 'm list \<times> 'b list" where
  "feed dec buf [] = ([], buf)"
| "feed dec buf (chunk # chunks) =
     (let (ms, buf1) = frames dec (buf @ chunk);
          (ms', buf2) = feed dec buf1 chunks
      in (ms @ ms', buf2))"

section \<open>The interface\<close>

locale framer =
  fixes dec :: "'b list \<Rightarrow> ('m \<times> 'b list) option"
  assumes consumes: "dec xs = Some (m, rest) \<Longrightarrow> length rest < length xs"
    and stable: "dec xs = Some (m, rest) \<Longrightarrow> dec (xs @ ys) = Some (m, rest @ ys)"
begin

lemma frames_None: "dec xs = None \<Longrightarrow> frames dec xs = ([], xs)"
  by (subst frames.simps) simp

lemma frames_Some:
  "dec xs = Some (m, rest) \<Longrightarrow> frames dec xs = (m # fst (frames dec rest), snd (frames dec rest))"
  by (subst frames.simps) (simp add: consumes split: prod.splits)

lemma frames_rest: "dec (snd (frames dec xs)) = None"
proof (induction "length xs" arbitrary: xs rule: less_induct)
  case less
  show ?case
  proof (cases "dec xs")
    case None
    then show ?thesis by (simp add: frames_None)
  next
    case (Some p)
    obtain m rest where "p = (m, rest)" by force
    with Some have d: "dec xs = Some (m, rest)" by simp
    show ?thesis using less.hyps[OF consumes[OF d]] frames_Some[OF d] by simp
  qed
qed

lemma frames_append:
  "frames dec (xs @ ys) =
   (fst (frames dec xs) @ fst (frames dec (snd (frames dec xs) @ ys)), snd (frames dec (snd (frames dec xs) @ ys)))"
proof (induction "length xs" arbitrary: xs rule: less_induct)
  case less
  show ?case
  proof (cases "dec xs")
    case None
    then show ?thesis by (simp add: frames_None)
  next
    case (Some p)
    obtain m rest where p: "p = (m, rest)" by force
    with Some have d: "dec xs = Some (m, rest)" by simp
    from less.hyps[OF consumes[OF d]] frames_Some[OF d] frames_Some[OF stable[OF d], of ys]
    show ?thesis by simp
  qed
qed

text \<open>The messages taken are those of the whole stream, and so is what is left.\<close>

lemma feed_concat: "dec buf = None \<Longrightarrow> feed dec buf chunks = frames dec (buf @ concat chunks)"
proof (induction chunks arbitrary: buf)
  case Nil
  then show ?case by (simp add: frames_None)
next
  case (Cons c chunks)
  have "dec (snd (frames dec (buf @ c))) = None" by (rule frames_rest)
  from Cons.IH[OF this] frames_append[of "buf @ c" "concat chunks"] show ?case
    by (cases "frames dec (buf @ c)") (auto simp: Let_def split: prod.splits)
qed

lemma chunking_irrelevant:
  "dec [] = None \<Longrightarrow> concat cs = concat ds \<Longrightarrow> feed dec [] cs = feed dec [] ds"
  by (simp add: feed_concat)

end

section \<open>Lines\<close>

text \<open>\<open>bytes.Index(buffer, []byte{sep})\<close> and the two slices the loops make of it.\<close>

definition takeLine :: "'b \<Rightarrow> 'b list \<Rightarrow> ('b list \<times> 'b list) option" where
  "takeLine sep buf =
     (case find_index (\<lambda>b. b = sep) buf of
        None \<Rightarrow> None
      | Some i \<Rightarrow> Some (take (i + 1) buf, drop (i + 1) buf))"

lemma takeLine_Some:
  "takeLine sep buf = Some (line, rest) \<Longrightarrow>
   buf = line @ rest \<and> line \<noteq> [] \<and> last line = sep \<and> sep \<notin> set (butlast line)"
proof -
  assume a: "takeLine sep buf = Some (line, rest)"
  then obtain i where i: "find_index (\<lambda>b. b = sep) buf = Some i" "line = take (i + 1) buf" "rest = drop (i + 1) buf"
    by (auto simp: takeLine_def split: option.splits)
  from find_index_Some[OF i(1)] have l: "i < length buf" "buf ! i = sep" "\<forall>j<i. buf ! j \<noteq> sep" by auto
  then have "line = take i buf @ [sep]" using i(2) by (simp add: take_Suc_conv_app_nth)
  moreover have "buf = take (i + 1) buf @ drop (i + 1) buf" by simp
  ultimately show ?thesis using i l by (auto simp: in_set_conv_nth simp del: append_take_drop_id)
qed

interpretation line_framer: framer "takeLine sep" for sep
proof unfold_locales
  show "length rest < length xs" if "takeLine sep xs = Some (m, rest)" for xs m rest
    using takeLine_Some[OF that] by (auto simp: neq_Nil_conv)
  show "takeLine sep (xs @ ys) = Some (m, rest @ ys)" if "takeLine sep xs = Some (m, rest)" for xs m rest ys
    using that by (auto simp: takeLine_def find_index_append dest: find_index_Some split: option.splits)
qed

lemma takeLine_Nil [simp]: "takeLine sep [] = None"
  by (simp add: takeLine_def)

end
