(* ===== verification/ISL_App.thy ===== *)
theory ISL_App
  imports Go_Framing
begin

text \<open>
  \<open>internal/insecuresocketslayer/application.go\<close>: the request line is a list of toys with counts,
  the answer is the toy with the largest count. Lines are lists of bytes.
\<close>

section \<open>Counts\<close>

definition maxSafeInt :: int where "maxSafeInt = (2 ^ 31 - 1) div 10"

fun parseCountLoop :: "bytes \<Rightarrow> int \<Rightarrow> int option" where
  "parseCountLoop [] cnt = Some cnt"
| "parseCountLoop (b # bs) cnt =
     (if b < 48 \<or> b > 57 then None
      else if cnt > maxSafeInt then None
      else parseCountLoop bs (cnt * 10 + uint (b - 48)))"

definition parseCount :: "bytes \<Rightarrow> int option" where
  "parseCount data = (if length data = 0 then None else parseCountLoop data 0)"

section \<open>The most common toy\<close>

datatype toyError = EmptyRequestLine | NoValidToy

definition trimBytes :: "bytes \<Rightarrow> bytes" where
  "trimBytes = TrimSpace word_of_nat"

text \<open>The part of the loop body up to the comparison; \<open>None\<close> is a \<open>continue\<close>.\<close>

definition toyEntry :: "bytes \<Rightarrow> (int \<times> bytes) option" where
  "toyEntry raw =
     (let entry = trimBytes raw in
      if length entry = 0 then None
      else
        (let entry = (if entry ! (length entry - 1) = 10 then take (length entry - 1) entry else entry) in
         case find_index (\<lambda>b. b = 120) entry of
           None \<Rightarrow> None
         | Some xIndex \<Rightarrow>
             if xIndex \<le> 0 \<or> xIndex = length entry - 1 then None
             else (case parseCount (take xIndex entry) of
                     None \<Rightarrow> None
                   | Some cnt \<Rightarrow> Some (cnt, entry))))"

text \<open>The loop; its state is \<open>maxCount\<close>, \<open>bestToy\<close> and \<open>foundValidToy\<close>.\<close>

fun toyLoop :: "bytes list \<Rightarrow> int \<times> bytes \<times> bool \<Rightarrow> int \<times> bytes \<times> bool" where
  "toyLoop [] st = st"
| "toyLoop (raw # entries) (maxCount, bestToy, found) =
     (case toyEntry raw of
        None \<Rightarrow> toyLoop entries (maxCount, bestToy, found)
      | Some (cnt, entry) \<Rightarrow>
          if \<not> found \<or> cnt > maxCount then toyLoop entries (cnt, entry, True)
          else toyLoop entries (maxCount, bestToy, found))"

definition MostCommonToy :: "bytes \<Rightarrow> toyError + bytes" where
  "MostCommonToy line =
     (if length (trimBytes line) = 0 then Inl EmptyRequestLine
      else
        (case toyLoop (splitOn 44 line) (0, [], False) of
           (maxCount, bestToy, found) \<Rightarrow> if \<not> found then Inl NoValidToy else Inr bestToy))"

section \<open>Facts\<close>

definition decimal :: "int \<Rightarrow> bytes \<Rightarrow> int" where
  "decimal = foldl (\<lambda>n b. n * 10 + uint (b - 48))"

lemma decimal_simps [simp]: "decimal n [] = n" "decimal n (b # bs) = decimal (n * 10 + uint (b - 48)) bs"
  by (simp_all add: decimal_def)

lemma decimal_ge: "0 \<le> n \<Longrightarrow> n \<le> decimal n bs"
proof (induction bs arbitrary: n)
  case (Cons b bs)
  have "n \<le> n * 10 + uint (b - 48)" using Cons.prems by (smt (verit) uint_nonnegative)
  moreover from this Cons have "n * 10 + uint (b - 48) \<le> decimal (n * 10 + uint (b - 48)) bs" by simp
  ultimately show ?case by simp
qed simp

lemma digit_range: "48 \<le> b \<Longrightarrow> b \<le> 57 \<Longrightarrow> 0 \<le> uint (b - 48) \<and> uint (b - 48) \<le> 9" for b :: byte
proof -
  assume "48 \<le> b" "b \<le> 57"
  then have "uint (b - 48) = uint b - 48" "uint b \<le> 57" "48 \<le> uint b"
    by (simp_all add: uint_sub_if' word_le_def)
  then show ?thesis by simp
qed

lemma parseCountLoop_spec:
  "0 \<le> n \<Longrightarrow> n \<le> 2147483649 \<Longrightarrow>
   parseCountLoop bs n =
   (if (\<forall>b\<in>set bs. 48 \<le> b \<and> b \<le> 57) \<and> decimal n bs \<le> 2147483649 then Some (decimal n bs) else None)"
proof (induction bs arbitrary: n)
  case Nil
  then show ?case by simp
next
  case (Cons b bs)
  show ?case
  proof (cases "48 \<le> b \<and> b \<le> 57")
    case False
    then show ?thesis by (auto simp: not_le)
  next
    case True
    then have d: "0 \<le> uint (b - 48)" "uint (b - 48) \<le> 9" using digit_range by blast+
    show ?thesis
    proof (cases "n > maxSafeInt")
      case large: True
      then have "n \<ge> 214748365" by (simp add: maxSafeInt_def)
      then have "n * 10 + uint (b - 48) > 2147483649" using d(1) by linarith
      moreover have "n * 10 + uint (b - 48) \<le> decimal (n * 10 + uint (b - 48)) bs"
        using Cons.prems d by (intro decimal_ge) simp
      ultimately show ?thesis using large by simp
    next
      case False
      then have "n * 10 + uint (b - 48) \<le> 2147483649" using d by (simp add: maxSafeInt_def)
      from Cons.IH[OF _ this] Cons.prems d False True show ?thesis by (auto simp: not_less not_le)
    qed
  qed
qed

lemma trimBytes_last: "trimBytes s \<noteq> [] \<Longrightarrow> last (trimBytes s) \<noteq> 10"
  using TrimSpace_last[where k = 10 and s = s and f = "word_of_nat :: nat \<Rightarrow> byte"] by (auto simp: trimBytes_def)

text \<open>The test for a newline after trimming never fires.\<close>

lemma toyEntry_eq:
  "toyEntry raw =
     (let entry = trimBytes raw in
      case find_index (\<lambda>b. b = 120) entry of
        None \<Rightarrow> None
      | Some i \<Rightarrow> if i = 0 \<or> i = length entry - 1 then None
                  else map_option (\<lambda>cnt. (cnt, entry)) (parseCount (take i entry)))"
  using trimBytes_last[of raw]
  by (auto simp: toyEntry_def Let_def last_conv_nth split: option.splits)

lemma toyEntry_slice: "toyEntry raw = Some (n, entry) \<Longrightarrow> entry = trimBytes raw \<and> entry \<noteq> []"
  by (auto simp: toyEntry_eq Let_def split: option.splits if_splits)

text \<open>The valid entries in order, with their counts.\<close>

definition validToys :: "bytes \<Rightarrow> (int \<times> bytes) list" where
  "validToys line = List.map_filter toyEntry (splitOn 44 line)"

text \<open>The first entry with the largest count.\<close>

definition firstMax :: "(int \<times> bytes) list \<Rightarrow> bytes \<Rightarrow> bool" where
  "firstMax vs toy \<longleftrightarrow>
     (\<exists>i < length vs. toy = snd (vs ! i) \<and> (\<forall>j < length vs. fst (vs ! j) \<le> fst (vs ! i)) \<and>
        (\<forall>j < i. fst (vs ! j) < fst (vs ! i)))"

text \<open>The loop's state describes the entries seen so far.\<close>

definition loopState :: "(int \<times> bytes) list \<Rightarrow> int \<times> bytes \<times> bool \<Rightarrow> bool" where
  "loopState vs st =
     (case st of (m, best, found) \<Rightarrow>
        found = (vs \<noteq> []) \<and>
        (found \<longrightarrow> (\<exists>i < length vs. vs ! i = (m, best) \<and> (\<forall>j < length vs. fst (vs ! j) \<le> m) \<and> (\<forall>j < i. fst (vs ! j) < m))))"

lemma loopState_snoc:
  assumes "loopState vs (m, best, found)"
  shows "loopState (vs @ [(c, e)]) (if \<not> found \<or> c > m then (c, e, True) else (m, best, found))"
proof (cases "\<not> found \<or> c > m")
  case True
  have "\<forall>j < length vs. fst (vs ! j) < c"
    using True assms by (force simp: loopState_def)
  then have "loopState (vs @ [(c, e)]) (c, e, True)"
    unfolding loopState_def by (auto simp: nth_append less_Suc_eq intro!: exI[of _ "length vs"])
  with True show ?thesis by simp
next
  case False
  with assms obtain i where "i < length vs" "vs ! i = (m, best)" "\<forall>j < length vs. fst (vs ! j) \<le> m" "\<forall>j < i. fst (vs ! j) < m"
    by (auto simp: loopState_def)
  with False have "loopState (vs @ [(c, e)]) (m, best, found)"
    unfolding loopState_def by (auto simp: nth_append less_Suc_eq intro!: exI[of _ i])
  with False show ?thesis by simp
qed

lemma toyLoop_state:
  "loopState vs st \<Longrightarrow> loopState (vs @ List.map_filter toyEntry entries) (toyLoop entries st)"
proof (induction entries st arbitrary: vs rule: toyLoop.induct)
  case (1 st)
  then show ?case by (simp add: List.map_filter_simps)
next
  case (2 raw entries m best found)
  show ?case
  proof (cases "toyEntry raw")
    case None
    with 2 show ?thesis by (simp add: List.map_filter_simps)
  next
    case (Some p)
    obtain c e where p: "p = (c, e)" by force
    note step = loopState_snoc[OF "2.prems", of c e]
    show ?thesis
    proof (cases "\<not> found \<or> c > m")
      case True
      with "2.IH"(2)[OF Some p[symmetric] True, of "vs @ [(c, e)]"] step Some p show ?thesis by (simp add: List.map_filter_simps)
    next
      case False
      with "2.IH"(3)[OF Some p[symmetric] False, of "vs @ [(c, e)]"] step Some p show ?thesis by (simp add: List.map_filter_simps)
    qed
  qed
qed

text \<open>A line of spaces has no entries.\<close>

lemma trimLeft_set: "set s \<subseteq> set (trimLeft E s) \<union> (\<Union>e\<in>set E. set e)"
proof (induction E s rule: trimLeft.induct)
  case (1 E s)
  show ?case
  proof (cases "List.find (\<lambda>e. e \<noteq> [] \<and> take (length e) s = e) E")
    case None
    then show ?thesis by (subst trimLeft.simps) auto
  next
    case (Some e)
    then have e: "e \<in> set E" "take (length e) s = e" by (auto simp: find_Some_iff)
    then have "set s \<subseteq> set e \<union> set (drop (length e) s)" by (metis append_take_drop_id set_append subset_refl)
    with "1.IH"[OF Some] e(1) Some show ?thesis by (subst trimLeft.simps) fastforce
  qed
qed

lemma trimRight_set: "set s \<subseteq> set (trimRight E s) \<union> (\<Union>e\<in>set E. set e)"
  using trimLeft_set[of "rev s" "map rev E"] by (simp add: trimRight_def)

lemma blank_no_comma: "trimBytes line = [] \<Longrightarrow> 44 \<notin> set line"
proof
  assume b: "trimBytes line = []" and c: "44 \<in> set line"
  let ?E = "map (map (word_of_nat :: nat \<Rightarrow> byte)) spaceEncodings"
  have n: "44 \<notin> (\<Union>e\<in>set ?E. set e)" by (simp add: spaceEncodings_def upt_rec)
  from c n have "44 \<in> set (trimLeft ?E line)" using trimLeft_set[of line ?E] by blast
  with n have "44 \<in> set (trimRight ?E (trimLeft ?E line))" using trimRight_set[of "trimLeft ?E line" ?E] by blast
  with b show False by (simp add: trimBytes_def TrimSpace_def Let_def)
qed

lemma blank_no_toys: "trimBytes line = [] \<Longrightarrow> validToys line = []"
  using blank_no_comma[of line]
  by (simp add: validToys_def splitOn_no_sep List.map_filter_simps toyEntry_def Let_def)

lemma MostCommonToy_cases:
  "if validToys line = [] then \<exists>err. MostCommonToy line = Inl err
   else \<exists>toy. MostCommonToy line = Inr toy \<and> firstMax (validToys line) toy"
proof -
  obtain m best found where st: "toyLoop (splitOn 44 line) (0, [], False) = (m, best, found)"
    by (metis prod_cases3)
  have "loopState (validToys line) (m, best, found)"
    using toyLoop_state[of "[]" "(0, [], False)" "splitOn 44 line"] st
    by (simp add: validToys_def loopState_def)
  then show ?thesis
    using st blank_no_toys[of line] by (auto simp: MostCommonToy_def loopState_def firstMax_def)
qed

lemma split_part_slice: "p \<in> set (splitOn sep s) \<Longrightarrow> \<exists>pre post. s = pre @ p @ post"
proof (induction s arbitrary: p)
  case Nil
  then show ?case by simp
next
  case (Cons c s)
  obtain q qs where q: "splitOn sep s = q # qs" by (cases "splitOn sep s") auto
  consider "c = sep" "p = []" | "c = sep" "p \<in> set (splitOn sep s)" | "c \<noteq> sep" "p = c # q" | "c \<noteq> sep" "p \<in> set qs"
    using Cons.prems q by (auto split: if_splits)
  then show ?case
  proof cases
    case 1
    then show ?thesis by (intro exI[of _ "[]"] exI[of _ "c # s"]) simp
  next
    case 2
    then obtain pre post where "s = pre @ p @ post" using Cons.IH by blast
    then show ?thesis by (intro exI[of _ "c # pre"] exI[of _ post]) simp
  next
    case 3
    have "s = q @ drop (length q) s"
      using join_split[of sep s] q by (cases qs) auto
    with 3 show ?thesis by (intro exI[of _ "[]"] exI[of _ "drop (length q) s"]) simp
  next
    case 4
    then obtain pre post where "s = pre @ p @ post" using Cons.IH q by fastforce
    then show ?thesis by (intro exI[of _ "c # pre"] exI[of _ post]) simp
  qed
qed

lemma validToys_slice:
  assumes "(n, entry) \<in> set (validToys line)"
  shows "\<exists>pre post. line = pre @ entry @ post"
proof -
  from assms obtain raw where raw: "raw \<in> set (splitOn 44 line)" "toyEntry raw = Some (n, entry)"
    by (auto simp: validToys_def List.map_filter_def)
  obtain a b where "line = a @ raw @ b" using split_part_slice[OF raw(1)] by blast
  moreover obtain c d where "raw = c @ entry @ d"
    using toyEntry_slice[OF raw(2)] TrimSpace_slice[of raw word_of_nat] by (auto simp: trimBytes_def)
  ultimately have "line = (a @ c) @ entry @ (d @ b)" by simp
  then show ?thesis by blast
qed

section \<open>Properties\<close>

text \<open>C19: The answer to a request line is the first of its valid entries with the largest count, and
  it is a slice of the line; there is an error exactly when no entry is valid.\<close>
theorem most_common_toy_is_first_max:
  "case MostCommonToy line of
     Inl err \<Rightarrow> validToys line = []
   | Inr toy \<Rightarrow> firstMax (validToys line) toy \<and> (\<exists>pre post. line = pre @ toy @ post)"
proof (cases "validToys line = []")
  case True
  then show ?thesis using MostCommonToy_cases[of line] by auto
next
  case False
  then obtain toy where toy: "MostCommonToy line = Inr toy" "firstMax (validToys line) toy"
    using MostCommonToy_cases[of line] by auto
  then obtain n where "(n, toy) \<in> set (validToys line)" unfolding firstMax_def by (metis nth_mem surjective_pairing)
  with toy validToys_slice show ?thesis by auto
qed

text \<open>\<open>parseCount\<close> accepts exactly the nonempty strings of decimal digits whose value is at most
  2147483649 and returns that value: the guard it calls overflow prevention lets two values beyond the 31-bit maximum
  pass, and never lets the count wrap.\<close>
theorem parse_count_exact:
  "parseCount ds = Some n \<longleftrightarrow>
   ds \<noteq> [] \<and> (\<forall>b\<in>set ds. 48 \<le> b \<and> b \<le> 57) \<and> n = decimal 0 ds \<and> n \<le> 2147483649"
  using parseCountLoop_spec[of 0 ds] by (auto simp: parseCount_def)

theorem parse_count_exact_witness: "parseCount [50, 49, 52, 55, 52, 56, 51, 54, 52, 57] = Some 2147483649"
proof -
  have "\<forall>b\<in>set [50, 49, 52, 55, 52, 56, 51, 54, 52, 57]. 48 \<le> b \<and> b \<le> (57 :: byte)" by simp
  then show ?thesis
    using parse_count_exact[of "[50, 49, 52, 55, 52, 56, 51, 54, 52, 57]" 2147483649] by (simp add: decimal_def)
qed

end
