(* ===== verification/ISL_Layer.thy ===== *)
theory ISL_Layer
  imports ISL_Codec ISL_App "HOL-Library.Sublist"
begin

text \<open>
  \<open>internal/insecuresocketslayer/insecuresocketlayer.go\<close>: the connection: reading the cipher
  specification, then decoding what each read delivers, answering every complete line.

  The bytes the client sends are a list. \<open>Read\<close> splits what follows the specification into
  nonempty pieces as it likes; \<open>writeFault n\<close> is the number of bytes the write of answer \<open>n\<close> still sends when it
  fails. The toy handed to
  \<open>append\<close> aliases the buffer: the newline \<open>append\<close> writes lands behind the toy inside the line
  that is answered, which the next statement drops (a toy is a slice of its line that does not
  reach the end, \<open>most_common_toy_is_first_max\<close> and the newline after it), so the rest of the buffer
  is not affected and the slices are modelled as values.
\<close>

section \<open>Reading the specification\<close>

definition BufferSize :: nat where "BufferSize = 5001"
definition maxCipherSpecSize :: nat where "maxCipherSpecSize = 80"

datatype readError = ReadFailed | InvalidOpcode byte | SpecTooLong

text \<open>The loop: what is still to come, \<open>specBytes\<close>, \<open>expectingOperand\<close>. On success, the rest too.\<close>

fun readSpecLoop :: "bytes \<Rightarrow> bytes \<Rightarrow> bool \<Rightarrow> readError + (bytes \<times> bytes)" where
  "readSpecLoop [] specBytes expecting =
     (if length specBytes < maxCipherSpecSize then Inl ReadFailed else Inl SpecTooLong)"
| "readSpecLoop (b # stream) specBytes expecting =
     (if length specBytes < maxCipherSpecSize then
        (if expecting then readSpecLoop stream (specBytes @ [b]) False
         else if b = 0 then Inr (specBytes @ [b], stream)
         else if b = 1 \<or> b = 3 \<or> b = 5 then readSpecLoop stream (specBytes @ [b]) False
         else if b = 2 \<or> b = 4 then readSpecLoop stream (specBytes @ [b]) True
         else Inl (InvalidOpcode b))
      else Inl SpecTooLong)"

definition readCipherSpecBytes :: "bytes \<Rightarrow> readError + (bytes \<times> bytes)" where
  "readCipherSpecBytes stream = readSpecLoop stream [] False"

section \<open>Clients\<close>

record IslClient =
  ic_IncomingPosition :: int
  ic_OutboundPosition :: int
  ic_Cipher :: Cipher
  ic_Buffer :: bytes
  ic_Sent :: "bytes list"

text \<open>The flag is false for an error, which ends the connection.\<close>

definition respondToClient :: "(nat \<Rightarrow> nat option) \<Rightarrow> IslClient \<Rightarrow> bytes \<Rightarrow> (bool \<times> IslClient) outcome" where
  "respondToClient writeFault client decoded =
     (case MostCommonToy decoded of
        Inl err \<Rightarrow> Ok (False, client)
      | Inr plainToy \<Rightarrow>
          and_then (EncodeData (ic_Cipher client) (ic_OutboundPosition client) (plainToy @ [10])) (\<lambda>encodedToy.
            let c1 = client\<lparr>ic_OutboundPosition := ic_OutboundPosition client + int (length encodedToy)\<rparr> in
            case writeFault (length (ic_Sent c1)) of
              None \<Rightarrow> Ok (True, c1\<lparr>ic_Sent := ic_Sent c1 @ [encodedToy]\<rparr>)
            | Some n \<Rightarrow> Ok (False, c1\<lparr>ic_Sent := ic_Sent c1 @ [take n encodedToy]\<rparr>)))"

text \<open>The inner loop of \<open>recieveLoop\<close>; it takes the buffer as its first argument.\<close>

function answerLines :: "bytes \<Rightarrow> (nat \<Rightarrow> nat option) \<Rightarrow> IslClient \<Rightarrow> (bool \<times> IslClient) outcome" where
  "answerLines buffer writeFault client =
     (case takeLine 10 buffer of
        None \<Rightarrow> Ok (True, client\<lparr>ic_Buffer := buffer\<rparr>)
      | Some (line, rest) \<Rightarrow>
          and_then (respondToClient writeFault (client\<lparr>ic_Buffer := buffer\<rparr>) line) (\<lambda>(alive, c1).
            if alive then answerLines rest writeFault c1 else Ok (False, c1)))"
  by pat_completeness auto
termination
  by (relation "measure (\<lambda>(buffer, w, c). length buffer)") (auto dest: line_framer.consumes)

declare answerLines.simps [simp del]

text \<open>One pass of the outer loop.\<close>

definition recieveStep ::
  "nat \<Rightarrow> (nat \<Rightarrow> nat list) \<Rightarrow> (nat \<Rightarrow> nat option) \<Rightarrow> IslClient \<Rightarrow> bytes \<Rightarrow> (bool \<times> IslClient) outcome" where
  "recieveStep numCPU schedule writeFault client readBytes =
     (if length readBytes = 0 then Ok (False, client)
      else
        and_then (DecodeData numCPU schedule (ic_Cipher client) (ic_IncomingPosition client) readBytes) (\<lambda>decoded.
          answerLines (ic_Buffer client @ decoded) writeFault
            (client\<lparr>ic_IncomingPosition := ic_IncomingPosition client + int (length readBytes)\<rparr>)))"

text \<open>The outer loop on the reads to come; it returns when a read fails or an answer does.\<close>

fun recieveLoop ::
  "nat \<Rightarrow> (nat \<Rightarrow> nat list) \<Rightarrow> (nat \<Rightarrow> nat option) \<Rightarrow> IslClient \<Rightarrow> bytes list \<Rightarrow> (bool \<times> IslClient) outcome" where
  "recieveLoop numCPU schedule writeFault client [] = Ok (True, client)"
| "recieveLoop numCPU schedule writeFault client (chunk # chunks) =
     and_then (recieveStep numCPU schedule writeFault client chunk) (\<lambda>(alive, c1).
       if alive then recieveLoop numCPU schedule writeFault c1 chunks else Ok (False, c1))"

text \<open>The connection from its first byte; \<open>None\<close> when it is closed before the loop.\<close>

definition handleConnection ::
  "nat \<Rightarrow> (nat \<Rightarrow> nat list) \<Rightarrow> (nat \<Rightarrow> nat option) \<Rightarrow> (bytes \<Rightarrow> bytes list) \<Rightarrow> bytes \<Rightarrow> IslClient option outcome" where
  "handleConnection numCPU schedule writeFault split stream =
     (case readCipherSpecBytes stream of
        Inl err \<Rightarrow> Ok None
      | Inr (specBytes, rest) \<Rightarrow>
          and_then (NewCipher specBytes) (\<lambda>res.
            case res of
              Inl err \<Rightarrow> Ok None
            | Inr cipher \<Rightarrow>
                if \<not> cp_Valid cipher then Ok None
                else and_then (recieveLoop numCPU schedule writeFault
                        \<lparr>ic_IncomingPosition = 0, ic_OutboundPosition = 0, ic_Cipher = cipher, ic_Buffer = [], ic_Sent = []\<rparr>
                        (split rest)) (\<lambda>(alive, client). Ok (Some client))))"

section \<open>The specification read is one the parser accepts\<close>

lemma readSpecLoop_spec:
  "readSpecLoop s pre False = Inr (spec, rest) \<Longrightarrow>
     \<exists>t. spec = pre @ t \<and> s = t @ rest \<and> length spec \<le> 80 \<and>
         (\<forall>ops i. \<exists>ops'. parseLoop t ops i = Inr (ops', i + length t))"
  "readSpecLoop s pre True = Inr (spec, rest) \<Longrightarrow>
     \<exists>b t. spec = pre @ b # t \<and> s = b # t @ rest \<and> length spec \<le> 80 \<and>
         (\<forall>ops i. \<exists>ops'. parseLoop t ops i = Inr (ops', i + length t))"
proof (induction s arbitrary: pre)
  case Nil
  {
    case 1
    then show ?case by (simp split: if_splits)
  next
    case 2
    then show ?case by (simp split: if_splits)
  }
next
  case (Cons b s)
  {
    case 1
    then have len: "length pre < 80" by (auto simp: maxCipherSpecSize_def split: if_splits)
    from 1 consider "b = 0" "spec = pre @ [b]" "s = rest"
      | "b = 1 \<or> b = 3 \<or> b = 5" "readSpecLoop s (pre @ [b]) False = Inr (spec, rest)"
      | "b = 2 \<or> b = 4" "readSpecLoop s (pre @ [b]) True = Inr (spec, rest)"
      by (auto split: if_splits)
    then show ?case
    proof cases
      case a: 1
      then show ?thesis using len by (intro exI[of _ "[b]"]) (simp add: opcode_defs)
    next
      case a: 2
      from Cons.IH(1)[OF a(2)] obtain t where t: "spec = pre @ [b] @ t" "s = t @ rest" "length spec \<le> 80"
        "\<forall>ops i. \<exists>ops'. parseLoop t ops i = Inr (ops', i + length t)" by auto
      have "\<exists>ops'. parseLoop (b # t) ops i = Inr (ops', i + length (b # t))" for ops i
        using t(4)[rule_format, of "ops @ [\<lparr>in_OpCode = b, in_Operand = 0\<rparr>]" "i + 1"] a(1)
        by (auto simp: opcode_defs)
      with t show ?thesis by (intro exI[of _ "b # t"]) simp
    next
      case a: 3
      from Cons.IH(2)[OF a(2)] obtain o1 t where t: "spec = pre @ [b] @ o1 # t" "s = o1 # t @ rest" "length spec \<le> 80"
        "\<forall>ops i. \<exists>ops'. parseLoop t ops i = Inr (ops', i + length t)" by auto
      have "\<exists>ops'. parseLoop (b # o1 # t) ops i = Inr (ops', i + length (b # o1 # t))" for ops i
        using t(4)[rule_format, of "ops @ [\<lparr>in_OpCode = b, in_Operand = o1\<rparr>]" "i + 2"] a(1)
        by (auto simp: opcode_defs)
      with t show ?thesis by (intro exI[of _ "b # o1 # t"]) simp
    qed
  next
    case 2
    then have "readSpecLoop s (pre @ [b]) False = Inr (spec, rest)" by (simp split: if_splits)
    from Cons.IH(1)[OF this] show ?case by auto
  }
qed

lemma readCipherSpecBytes_ok:
  assumes "readCipherSpecBytes stream = Inr (spec, rest)"
  shows "stream = spec @ rest \<and> length spec \<le> 80 \<and> (\<exists>c. NewCipher spec = Ok (Inr c) \<and> cp_rawCipherSpec c = spec)"
proof -
  obtain t where t: "spec = t" "stream = t @ rest" "length spec \<le> 80"
      "\<forall>ops i. \<exists>ops'. parseLoop t ops i = Inr (ops', i + length t)"
    using readSpecLoop_spec(1)[of stream "[]" spec rest] assms by (auto simp: readCipherSpecBytes_def)
  from t(4)[rule_format, of "[]" 0] obtain ops where "parseLoop t [] 0 = Inr (ops, length t)" by auto
  with t have s: "stream = spec @ rest" "length spec \<le> 80" "parseCipherSpec spec = Inr (ops, length spec)"
    by (simp_all add: parseCipherSpec_def)
  have "\<exists>c. NewCipher spec = Ok (Inr c) \<and> cp_rawCipherSpec c = spec"
    using NewCipher_total[of spec] s(3) by (auto simp: NewCipher_def Let_def and_then_def split: outcome.splits)
  with s show ?thesis by blast
qed

section \<open>What a connection answers\<close>

text \<open>
  The specification: decode the whole stream, cut it into lines, answer each line until one has
  no valid toy, encode the answers as one stream.
\<close>

fun answersTo :: "bytes list \<Rightarrow> bytes list" where
  "answersTo [] = []"
| "answersTo (line # lines) =
     (case MostCommonToy line of Inl err \<Rightarrow> [] | Inr toy \<Rightarrow> (toy @ [10]) # answersTo lines)"

fun allAnswered :: "bytes list \<Rightarrow> bool" where
  "allAnswered [] = True"
| "allAnswered (line # lines) = (case MostCommonToy line of Inl err \<Rightarrow> False | Inr toy \<Rightarrow> allAnswered lines)"

lemma answers_append:
  "answersTo (xs @ ys) = answersTo xs @ (if allAnswered xs then answersTo ys else [])"
  "allAnswered (xs @ ys) = (allAnswered xs \<and> allAnswered ys)"
  by (induction xs) (auto split: sum.splits)

text \<open>What the connection has sent is the encoding of the answers, from stream position 0 on.\<close>

definition sent_ok :: "bytes list \<Rightarrow> IslClient \<Rightarrow> bool" where
  "sent_ok answers client \<longleftrightarrow>
     cipher_ok (ic_Cipher client) \<and> ic_OutboundPosition client = int (length (concat answers)) \<and>
     EncodeData (ic_Cipher client) 0 (concat answers) = Ok (concat (ic_Sent client))"

text \<open>After a write that failed: a prefix of that.\<close>

definition sent_cut :: "(nat \<Rightarrow> nat option) \<Rightarrow> bytes list \<Rightarrow> IslClient \<Rightarrow> bool" where
  "sent_cut writeFault answers client \<longleftrightarrow>
     (\<exists>es. EncodeData (ic_Cipher client) 0 (concat answers) = Ok es \<and> prefix (concat (ic_Sent client)) es) \<and>
     (\<exists>n < length (ic_Sent client). writeFault n \<noteq> None)"

lemma EncodeData_append:
  "EncodeData c 0 xs = Ok es \<Longrightarrow> EncodeData c (int (length xs)) ys = Ok fs \<Longrightarrow> EncodeData c 0 (xs @ ys) = Ok (es @ fs)"
  by (simp add: EncodeData_def codeBytes_append)

lemma sent_cut_more:
  assumes "sent_cut writeFault answers client" "cipher_ok (ic_Cipher client)"
  shows "sent_cut writeFault (answers @ later) client"
proof -
  obtain es where es: "EncodeData (ic_Cipher client) 0 (concat answers) = Ok es" "prefix (concat (ic_Sent client)) es"
    using assms(1) by (auto simp: sent_cut_def)
  obtain fs where "EncodeData (ic_Cipher client) (int (length (concat answers))) (concat later) = Ok fs"
    using EncodeData_ok[OF assms(2)] by blast
  from EncodeData_append[OF es(1) this] es(2) assms(1) show ?thesis
    by (auto simp: sent_cut_def intro: prefix_prefix)
qed

lemma respond_ok:
  assumes "sent_ok answers client" "MostCommonToy line = Inr toy"
  shows "\<exists>alive c1. respondToClient writeFault client line = Ok (alive, c1) \<and>
           ic_Cipher c1 = ic_Cipher client \<and> ic_IncomingPosition c1 = ic_IncomingPosition client \<and>
           (if alive then sent_ok (answers @ [toy @ [10]]) c1 else sent_cut writeFault (answers @ [toy @ [10]]) c1)"
proof -
  have c: "cipher_ok (ic_Cipher client)" and o: "ic_OutboundPosition client = int (length (concat answers))"
    using assms(1) by (auto simp: sent_ok_def)
  obtain es where es: "EncodeData (ic_Cipher client) (ic_OutboundPosition client) (toy @ [10]) = Ok es"
    "length es = length (toy @ [10])" using EncodeData_ok[OF c] by blast
  have enc: "EncodeData (ic_Cipher client) 0 (concat answers @ (toy @ [10])) = Ok (concat (ic_Sent client) @ es)"
    using assms(1) es(1) o by (intro EncodeData_append) (simp_all add: sent_ok_def)
  show ?thesis
  proof (cases "writeFault (length (ic_Sent client))")
    case None
    then show ?thesis using assms c o es enc
      by (intro exI[of _ True]) (simp add: respondToClient_def sent_ok_def Let_def)
  next
    case (Some n)
    then show ?thesis using assms(2) es enc
      by (auto simp: respondToClient_def sent_cut_def Let_def intro: take_is_prefix)
  qed
qed

text \<open>What a group of lines leaves: all of them answered, the lines up to one without a toy, or a failed write.\<close>

definition answered_to :: "(nat \<Rightarrow> nat option) \<Rightarrow> bool \<Rightarrow> bytes list \<Rightarrow> IslClient \<Rightarrow> bool" where
  "answered_to writeFault alive lines client \<longleftrightarrow>
     cipher_ok (ic_Cipher client) \<and>
     (sent_ok (answersTo lines) client \<and> alive = allAnswered lines \<or>
      sent_cut writeFault (answersTo lines) client \<and> \<not> alive)"

lemma answered_to_more:
  "answered_to writeFault False lines client \<Longrightarrow> answered_to writeFault False (lines @ later) client"
  unfolding answered_to_def answers_append
  by (cases "allAnswered lines") (auto intro: sent_cut_more)

lemma answerLines_ok:
  assumes "answered_to writeFault True before client"
  shows "\<exists>alive c1. answerLines buffer writeFault client = Ok (alive, c1) \<and>
           answered_to writeFault alive (before @ fst (frames (takeLine 10) buffer)) c1 \<and>
           ic_Cipher c1 = ic_Cipher client \<and>
           (alive \<longrightarrow> ic_Buffer c1 = snd (frames (takeLine 10) buffer) \<and>
                    ic_IncomingPosition c1 = ic_IncomingPosition client)"
  using assms
proof (induction "length buffer" arbitrary: buffer before client rule: less_induct)
  case less
  have frame: "answered_to writeFault b ls (client\<lparr>ic_Buffer := buf\<rparr>) = answered_to writeFault b ls client" for b ls buf
    by (simp add: answered_to_def sent_ok_def sent_cut_def)
  show ?case
  proof (cases "takeLine 10 buffer")
    case None
    then show ?thesis using less.prems frame
      by (subst answerLines.simps) (auto simp: line_framer.frames_None)
  next
    case (Some p)
    obtain line rest where "p = (line, rest)" by force
    with Some have d: "takeLine 10 buffer = Some (line, rest)" by simp
    note fr = line_framer.frames_Some[OF d]
    let ?client = "client\<lparr>ic_Buffer := buffer\<rparr>"
    have b: "sent_ok (answersTo before) ?client" "allAnswered before" "cipher_ok (ic_Cipher client)"
      using less.prems by (auto simp: answered_to_def sent_ok_def)
    show ?thesis
    proof (cases "MostCommonToy line")
      case (Inl e)
      then have "answered_to writeFault False (before @ fst (frames (takeLine 10) buffer)) ?client"
        using b by (simp add: answered_to_def answers_append fr)
      then show ?thesis using Inl
        by (subst answerLines.simps, intro exI[of _ False]) (simp add: d respondToClient_def)
    next
      case (Inr toy)
      obtain alive c1 where
        c1: "respondToClient writeFault ?client line = Ok (alive, c1)"
          "ic_Cipher c1 = ic_Cipher client" "ic_IncomingPosition c1 = ic_IncomingPosition client"
          "if alive then sent_ok (answersTo before @ [toy @ [10]]) c1 else sent_cut writeFault (answersTo before @ [toy @ [10]]) c1"
        using respond_ok[OF b(1) Inr, of writeFault] by auto
      then have a: "answered_to writeFault alive (before @ [line]) c1"
        using b(2,3) Inr by (cases alive) (auto simp: answered_to_def answers_append)
      show ?thesis
      proof (cases alive)
        case True
        from less.hyps[OF line_framer.consumes[OF d] a[unfolded True[THEN eqTrueI]]] True c1(1-3) show ?thesis
          by (subst answerLines.simps) (auto simp: d fr)
      next
        case False
        with answered_to_more[of writeFault "before @ [line]" c1 "fst (frames (takeLine 10) rest)"] a c1(1,2) show ?thesis
          by (subst answerLines.simps) (auto simp: d fr)
      qed
    qed
  qed
qed

text \<open>The state of the loop after the bytes \<open>got\<close> of the encoded stream.\<close>

definition linesOf :: "Cipher \<Rightarrow> bytes \<Rightarrow> bytes list \<times> bytes" where
  "linesOf c got = (case decodeSequential c 0 got of Ok plain \<Rightarrow> frames (takeLine 10) plain | Panic \<Rightarrow> ([], []))"

definition loop_ok :: "(nat \<Rightarrow> nat option) \<Rightarrow> bytes \<Rightarrow> IslClient \<Rightarrow> bool" where
  "loop_ok writeFault got client \<longleftrightarrow>
     ic_IncomingPosition client = int (length got) \<and>
     answered_to writeFault True (fst (linesOf (ic_Cipher client) got)) client \<and>
     ic_Buffer client = snd (linesOf (ic_Cipher client) got)"

lemma recieveStep_ok:
  assumes ok: "loop_ok writeFault got client" and s: "\<forall>n. schedule_ok numCPU n (schedule n)" and ne: "chunk \<noteq> []"
  shows "\<exists>alive c1. recieveStep numCPU schedule writeFault client chunk = Ok (alive, c1) \<and>
           answered_to writeFault alive (fst (linesOf (ic_Cipher client) (got @ chunk))) c1 \<and>
           ic_Cipher c1 = ic_Cipher client \<and> (alive \<longrightarrow> loop_ok writeFault (got @ chunk) c1)"
proof -
  let ?c = "ic_Cipher client"
  have c: "cipher_ok ?c" using ok by (simp add: loop_ok_def answered_to_def)
  obtain plain where plain: "decodeSequential ?c 0 got = Ok plain" using decodeSequential_ok[OF c] by blast
  obtain more where more: "decodeSequential ?c (int (length got)) chunk = Ok more" using decodeSequential_ok[OF c] by blast
  have both: "decodeSequential ?c 0 (got @ chunk) = Ok (plain @ more)"
    by (simp add: decodeSequential_append plain more)
  let ?lines = "fst (frames (takeLine 10) plain)" and ?buf = "snd (frames (takeLine 10) plain)"
  have buf: "ic_Buffer client = ?buf" and pos: "ic_IncomingPosition client = int (length got)"
    and ans: "answered_to writeFault True ?lines client"
    using ok by (auto simp: loop_ok_def linesOf_def plain)
  let ?cl = "client\<lparr>ic_IncomingPosition := int (length got) + int (length chunk)\<rparr>"
  have "answered_to writeFault True ?lines ?cl" using ans by (simp add: answered_to_def sent_ok_def sent_cut_def)
  from answerLines_ok[OF this, of "?buf @ more"] obtain alive c1 where
    c1: "answerLines (?buf @ more) writeFault ?cl = Ok (alive, c1)"
      "answered_to writeFault alive (?lines @ fst (frames (takeLine 10) (?buf @ more))) c1"
      "ic_Cipher c1 = ?c" "alive \<longrightarrow> ic_Buffer c1 = snd (frames (takeLine 10) (?buf @ more)) \<and>
               ic_IncomingPosition c1 = int (length got) + int (length chunk)" by auto
  have "DecodeData numCPU schedule ?c (ic_IncomingPosition client) chunk = Ok more"
    using DecodeData_sequential[OF c, of numCPU chunk schedule] s more pos by simp
  then have step: "recieveStep numCPU schedule writeFault client chunk = Ok (alive, c1)"
    using ne c1(1) pos buf by (simp add: recieveStep_def)
  note fa = line_framer.frames_append[of 10 plain more]
  show ?thesis
    using step c1 by (auto simp: linesOf_def both fa loop_ok_def)
qed

lemma linesOf_append:
  assumes "cipher_ok c"
  shows "\<exists>ls. fst (linesOf c (xs @ ys)) = fst (linesOf c xs) @ ls"
proof -
  obtain a b where "decodeSequential c 0 xs = Ok a" "decodeSequential c (int (length xs)) ys = Ok b"
    using decodeSequential_ok[OF assms] by meson
  then show ?thesis by (auto simp: linesOf_def decodeSequential_append line_framer.frames_append[of 10 a b])
qed

lemma recieveLoop_ok:
  assumes s: "\<forall>n. schedule_ok numCPU n (schedule n)"
  shows "loop_ok writeFault got client \<Longrightarrow> [] \<notin> set chunks \<Longrightarrow>
     \<exists>alive c1. recieveLoop numCPU schedule writeFault client chunks = Ok (alive, c1) \<and>
           answered_to writeFault alive (fst (linesOf (ic_Cipher client) (got @ concat chunks))) c1 \<and>
           ic_Cipher c1 = ic_Cipher client"
proof (induction chunks arbitrary: got client)
  case Nil
  then show ?case by (auto simp: loop_ok_def)
next
  case (Cons chunk chunks)
  have ne: "chunk \<noteq> []" using Cons.prems(2) by auto
  from recieveStep_ok[OF Cons.prems(1) s ne] obtain alive c1 where
    c1: "recieveStep numCPU schedule writeFault client chunk = Ok (alive, c1)"
      "answered_to writeFault alive (fst (linesOf (ic_Cipher client) (got @ chunk))) c1"
      "ic_Cipher c1 = ic_Cipher client" "alive \<longrightarrow> loop_ok writeFault (got @ chunk) c1" by blast
  have c: "cipher_ok (ic_Cipher client)" using Cons.prems(1) by (simp add: loop_ok_def answered_to_def)
  show ?case
  proof (cases alive)
    case True
    with Cons.IH[of "got @ chunk" c1] c1 Cons.prems(2) show ?thesis by auto
  next
    case False
    obtain ls where "fst (linesOf (ic_Cipher client) ((got @ chunk) @ concat chunks)) =
        fst (linesOf (ic_Cipher client) (got @ chunk)) @ ls" using linesOf_append[OF c] by blast
    with False c1 answered_to_more[of writeFault "fst (linesOf (ic_Cipher client) (got @ chunk))" c1 ls]
    show ?thesis by auto
  qed
qed

section \<open>Properties\<close>

text \<open>When reading the specification succeeds, it consumed exactly a prefix of at most 80 bytes that
  is one complete specification: \<open>NewCipher\<close> accepts it and uses all of it.\<close>
theorem spec_read_is_parsed:
  assumes "readCipherSpecBytes stream = Inr (spec, rest)"
  shows "stream = spec @ rest \<and> length spec \<le> 80 \<and> (\<exists>c. NewCipher spec = Ok (Inr c) \<and> cp_rawCipherSpec c = spec)"
  by (rule readCipherSpecBytes_ok[OF assms])

theorem spec_read_is_parsed_witness:
  "([2, 1, 1, 0, 9] :: bytes) = [2, 1, 1, 0] @ [9] \<and> length ([2, 1, 1, 0] :: bytes) \<le> 80 \<and>
   (\<exists>c. NewCipher [2, 1, 1, 0] = Ok (Inr c) \<and> cp_rawCipherSpec c = [2, 1, 1, 0])"
  by (rule spec_read_is_parsed) (simp add: readCipherSpecBytes_def maxCipherSpecSize_def)

text \<open>C16: A connection with a valid cipher answers the decoded stream line by line: it never panics, and
  however the bytes are split into reads and whichever order the decoding goroutines run in, what it has
  sent is a prefix of the encoding, from position 0 on, of the most common toy of each complete line of the decoded stream
  up to the first line without one; and it is all of it unless one of its writes has failed.\<close>
theorem connection_answers_stream:
  assumes spec: "readCipherSpecBytes stream = Inr (spec, rest)" "NewCipher spec = Ok (Inr c)" "cp_Valid c"
    and split: "concat (split rest) = rest" "[] \<notin> set (split rest)"
    and s: "\<forall>n. schedule_ok numCPU n (schedule n)"
  shows "\<exists>client plain encoded. handleConnection numCPU schedule writeFault split stream = Ok (Some client) \<and>
           decodeSequential c 0 rest = Ok plain \<and>
           EncodeData c 0 (concat (answersTo (fst (frames (takeLine 10) plain)))) = Ok encoded \<and>
           prefix (concat (ic_Sent client)) encoded \<and>
           ((\<forall>n < length (ic_Sent client). writeFault n = None) \<longrightarrow> concat (ic_Sent client) = encoded)"
proof -
  have c: "cipher_ok c" by (rule NewCipher_ok[OF spec(2)])
  let ?cl = "\<lparr>ic_IncomingPosition = 0, ic_OutboundPosition = 0, ic_Cipher = c, ic_Buffer = [], ic_Sent = []\<rparr>"
  have "frames (takeLine 10) ([] :: bytes) = ([], [])" by (simp add: line_framer.frames_None)
  then have "loop_ok writeFault [] ?cl"
    using c by (simp add: loop_ok_def linesOf_def answered_to_def sent_ok_def decodeSequential_def EncodeData_def)
  from recieveLoop_ok[OF s this split(2)] split(1) obtain alive client where
    r: "recieveLoop numCPU schedule writeFault ?cl (split rest) = Ok (alive, client)"
       "answered_to writeFault alive (fst (linesOf c rest)) client" "ic_Cipher client = c" by auto
  obtain plain where plain: "decodeSequential c 0 rest = Ok plain" using decodeSequential_ok[OF c] by blast
  have run: "handleConnection numCPU schedule writeFault split stream = Ok (Some client)"
    using r(1) spec by (simp add: handleConnection_def)
  obtain encoded where "EncodeData c 0 (concat (answersTo (fst (frames (takeLine 10) plain)))) = Ok encoded"
      "prefix (concat (ic_Sent client)) encoded"
      "(\<forall>n < length (ic_Sent client). writeFault n = None) \<longrightarrow> concat (ic_Sent client) = encoded"
    using r(2,3) plain by (fastforce simp: answered_to_def sent_ok_def sent_cut_def linesOf_def)
  with run plain show ?thesis by blast
qed

lemma NewCipher_encodeOps:
  "NewCipher spec = Ok (Inr c) \<Longrightarrow> parseCipherSpec spec = Inr (ops, n) \<Longrightarrow> cp_encodeOps c = ops"
  by (auto simp: NewCipher_def Let_def and_then_def split: outcome.splits)

lemma demo_cipher_valid: "cp_Valid demo_cipher"
proof -
  have "EncodeData demo_cipher 0 DummyMessage \<noteq> Ok DummyMessage"
  proof
    assume e: "EncodeData demo_cipher 0 DummyMessage = Ok DummyMessage"
    have "parseCipherSpec demo_spec = Inr ([\<lparr>in_OpCode = 2, in_Operand = 1\<rparr>, \<lparr>in_OpCode = 1, in_Operand = 0\<rparr>], 4)"
      by (simp add: parseCipherSpec_def demo_spec_def opcode_defs)
    then have ops: "cp_encodeOps demo_cipher = [\<lparr>in_OpCode = 2, in_Operand = 1\<rparr>, \<lparr>in_OpCode = 1, in_Operand = 0\<rparr>]"
      by (rule NewCipher_encodeOps[OF demo_cipher])
    have d: "DummyMessage ! 0 = 32" "0 < length DummyMessage" by (simp_all add: DummyMessage_def)
    have "applyAll applyEncode (cp_encodeOps demo_cipher) 0 32 = Ok 32"
      using codeBytes_nth[OF e[unfolded EncodeData_def]] d by force
    moreover have "bitReverseTable ! unat (33 :: byte) = 132" unfolding table_nth by code_simp
    ultimately show False by (simp add: ops applyEncode_def opcode_defs)
  qed
  then show ?thesis using NewCipher_valid_iff[OF demo_cipher] by simp
qed

theorem connection_answers_stream_witness:
  "\<exists>client plain encoded. handleConnection 1 (\<lambda>n. [0..<n]) (\<lambda>_. None) (\<lambda>r. map (\<lambda>b. [b]) r) (demo_spec @ [7, 8, 9]) = Ok (Some client) \<and>
     decodeSequential demo_cipher 0 [7, 8, 9] = Ok plain \<and>
     EncodeData demo_cipher 0 (concat (answersTo (fst (frames (takeLine 10) plain)))) = Ok encoded \<and>
     prefix (concat (ic_Sent client)) encoded \<and>
     ((\<forall>n < length (ic_Sent client). (\<lambda>_ :: nat. None :: nat option) n = None) \<longrightarrow> concat (ic_Sent client) = encoded)"
proof (rule connection_answers_stream[OF _ demo_cipher demo_cipher_valid])
  show "readCipherSpecBytes (demo_spec @ [7, 8, 9]) = Inr (demo_spec, [7, 8, 9])"
    by (simp add: readCipherSpecBytes_def maxCipherSpecSize_def demo_spec_def)
qed (simp_all add: workerChunks_1[simplified])

end
