(* ===== verification/Go_Bytes.thy ===== *)
theory Go_Bytes
  imports Go_Prelude
begin

unbundle bit_operations_syntax

text \<open>
  What the servers use of \<open>encoding/binary\<close>: big-endian integers of a byte slice.
\<close>

definition bigEndian16 :: "bytes \<Rightarrow> 16 word" where
  "bigEndian16 b = ucast (b ! 1) OR push_bit 8 (ucast (b ! 0))"

definition bigEndian32 :: "bytes \<Rightarrow> 32 word" where
  "bigEndian32 b =
     ucast (b ! 3) OR push_bit 8 (ucast (b ! 2)) OR push_bit 16 (ucast (b ! 1)) OR push_bit 24 (ucast (b ! 0))"

definition putBigEndian32 :: "32 word \<Rightarrow> bytes" where
  "putBigEndian32 v = [ucast (drop_bit 24 v), ucast (drop_bit 16 v), ucast (drop_bit 8 v), ucast v]"

lemma length_putBigEndian32 [simp]: "length (putBigEndian32 v) = 4"
  by (simp add: putBigEndian32_def)

lemma bigEndian32_put [simp]: "bigEndian32 (putBigEndian32 v) = v"
proof (rule bit_word_eqI)
  fix n assume "n < LENGTH(32)"
  then show "bit (bigEndian32 (putBigEndian32 v)) n = bit v n"
    by (cases "n < 8"; cases "n < 16"; cases "n < 24")
      (auto simp: bigEndian32_def putBigEndian32_def bit_simps numeral_3_eq_3)
qed

end
