(* ===== verification/Speed_Codec.thy ===== *)
theory Speed_Codec
  imports Go_Framing Go_Bytes
begin

unbundle bit_operations_syntax

text \<open>
  \<open>internal/speeddaemon/codec_primatives.go\<close>, \<open>messages.go\<close> and \<open>codec.go\<close>: the binary messages of
  the speed daemon, their encoders, the decoder and the extraction of all complete messages of
  a buffer. A failed \<open>io.ReadFull\<close> may consume bytes, but its caller gives up on the buffer, so a
  failed read is \<open>None\<close> and leaves no state.
\<close>

section \<open>Primitives\<close>

type_synonym U8 = "8 word"
type_synonym U16 = "16 word"
type_synonym U32 = "32 word"
type_synonym Str = bytes

record SdBuffer =
  sb_Reader :: bytes
  sb_ValidBytes :: nat

definition NewSdBuffer :: "bytes \<Rightarrow> SdBuffer" where
  "NewSdBuffer originalBuffer = \<lparr>sb_Reader = originalBuffer, sb_ValidBytes = 0\<rparr>"

text \<open>\<open>io.ReadFull\<close> of \<open>n\<close> bytes and the count of valid bytes.\<close>

definition readFull :: "nat \<Rightarrow> SdBuffer \<Rightarrow> (bytes \<times> SdBuffer) option" where
  "readFull n r =
     (if n \<le> length (sb_Reader r)
      then Some (take n (sb_Reader r),
                 r\<lparr>sb_Reader := drop n (sb_Reader r), sb_ValidBytes := sb_ValidBytes r + n\<rparr>)
      else None)"

definition readU8 :: "SdBuffer \<Rightarrow> (U8 \<times> SdBuffer) option" where
  "readU8 r = (case readFull 1 r of None \<Rightarrow> None | Some (b, r1) \<Rightarrow> Some (b ! 0, r1))"

definition readU16 :: "SdBuffer \<Rightarrow> (U16 \<times> SdBuffer) option" where
  "readU16 r = (case readFull 2 r of None \<Rightarrow> None | Some (b, r1) \<Rightarrow> Some (bigEndian16 b, r1))"

definition readU32 :: "SdBuffer \<Rightarrow> (U32 \<times> SdBuffer) option" where
  "readU32 r = (case readFull 4 r of None \<Rightarrow> None | Some (b, r1) \<Rightarrow> Some (bigEndian32 b, r1))"

definition readStr :: "SdBuffer \<Rightarrow> (Str \<times> SdBuffer) option" where
  "readStr r =
     (case readU8 r of
        None \<Rightarrow> None
      | Some (len, r1) \<Rightarrow> if len = 0 then Some ([], r1) else readFull (unat len) r1)"

definition writeU8 :: "U8 \<Rightarrow> bytes" where
  "writeU8 v = [v]"

definition writeU16 :: "U16 \<Rightarrow> bytes" where
  "writeU16 v = [ucast (drop_bit 8 v), ucast v]"

definition writeU32 :: "U32 \<Rightarrow> bytes" where
  "writeU32 v = [ucast (drop_bit 24 v), ucast (drop_bit 16 v), ucast (drop_bit 8 v), ucast v]"

text \<open>\<open>writeStr\<close>; \<open>None\<close> is its error, a string of more than 255 bytes.\<close>

definition writeStr :: "Str \<Rightarrow> bytes option" where
  "writeStr v = (if length v > 255 then None else Some (writeU8 (word_of_nat (length v)) @ v))"

section \<open>Messages\<close>

definition ErrorMsgType :: U8 where "ErrorMsgType = 0x10"
definition PlateMsgType :: U8 where "PlateMsgType = 0x20"
definition TicketMsgType :: U8 where "TicketMsgType = 0x21"
definition WantHeartbeatType :: U8 where "WantHeartbeatType = 0x40"
definition HeartbeatType :: U8 where "HeartbeatType = 0x41"
definition IAmCameraType :: U8 where "IAmCameraType = 0x80"
definition IAmDispatcherType :: U8 where "IAmDispatcherType = 0x81"

lemmas msgtype_defs = ErrorMsgType_def PlateMsgType_def TicketMsgType_def WantHeartbeatType_def
  HeartbeatType_def IAmCameraType_def IAmDispatcherType_def

record TicketMessage =
  tk_Plate :: Str
  tk_Road :: U16
  tk_MileOne :: U16
  tk_TimeStampOne :: U32
  tk_MileTwo :: U16
  tk_TimeStampTwo :: U32
  tk_Speed :: U16

datatype ClientMessage =
    ErrorMessage Str
  | PlateMessage Str U32
  | Ticket TicketMessage
  | WantHeartbeatMessage U32
  | HeartbeatMessage
  | IAmCameraMessage U16 U16 U16
  | IAmDispatcherMessage U8 "U16 list"

fun GetType :: "ClientMessage \<Rightarrow> U8" where
  "GetType (ErrorMessage content) = ErrorMsgType"
| "GetType (PlateMessage plate timestamp) = PlateMsgType"
| "GetType (Ticket t) = TicketMsgType"
| "GetType (WantHeartbeatMessage interval) = WantHeartbeatType"
| "GetType HeartbeatMessage = HeartbeatType"
| "GetType (IAmCameraMessage road mile limit) = IAmCameraType"
| "GetType (IAmDispatcherMessage numroads roads) = IAmDispatcherType"

text \<open>The \<open>Encode\<close> methods. Writing to a \<open>bytes.Buffer\<close> never fails; \<open>writeStr\<close> refuses strings above 255 bytes.\<close>

definition encodeError :: "Str \<Rightarrow> bytes option" where
  "encodeError content = map_option (\<lambda>s. writeU8 ErrorMsgType @ s) (writeStr content)"

definition encodePlate :: "Str \<Rightarrow> U32 \<Rightarrow> bytes option" where
  "encodePlate plate timestamp = map_option (\<lambda>s. writeU8 PlateMsgType @ s @ writeU32 timestamp) (writeStr plate)"

definition encodeTicket :: "TicketMessage \<Rightarrow> bytes option" where
  "encodeTicket t =
     map_option (\<lambda>s. writeU8 TicketMsgType @ s @ writeU16 (tk_Road t) @ writeU16 (tk_MileOne t) @ writeU32 (tk_TimeStampOne t) @
                     writeU16 (tk_MileTwo t) @ writeU32 (tk_TimeStampTwo t) @ writeU16 (tk_Speed t))
       (writeStr (tk_Plate t))"

definition encodeWantHeartbeat :: "U32 \<Rightarrow> bytes" where
  "encodeWantHeartbeat interval = writeU8 WantHeartbeatType @ writeU32 interval"

definition encodeHeartbeat :: bytes where
  "encodeHeartbeat = writeU8 HeartbeatType"

definition encodeIAmCamera :: "U16 \<Rightarrow> U16 \<Rightarrow> U16 \<Rightarrow> bytes" where
  "encodeIAmCamera road mile limit = writeU8 IAmCameraType @ writeU16 road @ writeU16 mile @ writeU16 limit"

definition encodeIAmDispatcher :: "U8 \<Rightarrow> U16 list \<Rightarrow> bytes" where
  "encodeIAmDispatcher numroads roads = writeU8 IAmDispatcherType @ writeU8 numroads @ concat (map writeU16 roads)"

fun EncodeMessage :: "ClientMessage \<Rightarrow> bytes option" where
  "EncodeMessage (ErrorMessage content) = encodeError content"
| "EncodeMessage (PlateMessage plate timestamp) = encodePlate plate timestamp"
| "EncodeMessage (Ticket t) = encodeTicket t"
| "EncodeMessage (WantHeartbeatMessage interval) = Some (encodeWantHeartbeat interval)"
| "EncodeMessage HeartbeatMessage = Some encodeHeartbeat"
| "EncodeMessage (IAmCameraMessage road mile limit) = Some (encodeIAmCamera road mile limit)"
| "EncodeMessage (IAmDispatcherMessage numroads roads) = Some (encodeIAmDispatcher numroads roads)"

lemmas encode_defs = encodeError_def encodePlate_def encodeTicket_def encodeWantHeartbeat_def encodeHeartbeat_def
  encodeIAmCamera_def encodeIAmDispatcher_def

text \<open>What every \<open>Encode\<close> writes behind the message type.\<close>

fun encodeBody :: "ClientMessage \<Rightarrow> bytes option" where
  "encodeBody (ErrorMessage content) = writeStr content"
| "encodeBody (PlateMessage plate timestamp) = map_option (\<lambda>s. s @ writeU32 timestamp) (writeStr plate)"
| "encodeBody (Ticket t) =
     map_option (\<lambda>s. s @ writeU16 (tk_Road t) @ writeU16 (tk_MileOne t) @ writeU32 (tk_TimeStampOne t) @
                     writeU16 (tk_MileTwo t) @ writeU32 (tk_TimeStampTwo t) @ writeU16 (tk_Speed t))
       (writeStr (tk_Plate t))"
| "encodeBody (WantHeartbeatMessage interval) = Some (writeU32 interval)"
| "encodeBody HeartbeatMessage = Some []"
| "encodeBody (IAmCameraMessage road mile limit) = Some (writeU16 road @ writeU16 mile @ writeU16 limit)"
| "encodeBody (IAmDispatcherMessage numroads roads) = Some (writeU8 numroads @ concat (map writeU16 roads))"

lemma EncodeMessage_body: "EncodeMessage m = map_option (\<lambda>body. GetType m # body) (encodeBody m)"
  by (cases m) (simp_all add: encode_defs writeU8_def option.map_comp comp_def)

section \<open>Decoding\<close>

text \<open>A step of a decoder that goes on with the buffer left by the read.\<close>

definition bindRead :: "('a \<times> SdBuffer) option \<Rightarrow> ('a \<Rightarrow> SdBuffer \<Rightarrow> ('b \<times> SdBuffer) option) \<Rightarrow> ('b \<times> SdBuffer) option" where
  "bindRead x k = (case x of None \<Rightarrow> None | Some (v, r) \<Rightarrow> k v r)"

definition decodeError :: "SdBuffer \<Rightarrow> (ClientMessage \<times> SdBuffer) option" where
  "decodeError r = bindRead (readStr r) (\<lambda>content r. Some (ErrorMessage content, r))"

definition decodePlate :: "SdBuffer \<Rightarrow> (ClientMessage \<times> SdBuffer) option" where
  "decodePlate r =
     bindRead (readStr r) (\<lambda>plate r. bindRead (readU32 r) (\<lambda>timestamp r. Some (PlateMessage plate timestamp, r)))"

definition decodeTicket :: "SdBuffer \<Rightarrow> (ClientMessage \<times> SdBuffer) option" where
  "decodeTicket r =
     bindRead (readStr r) (\<lambda>plate r. bindRead (readU16 r) (\<lambda>road r. bindRead (readU16 r) (\<lambda>mileOne r.
     bindRead (readU32 r) (\<lambda>timeStampOne r. bindRead (readU16 r) (\<lambda>mileTwo r.
     bindRead (readU32 r) (\<lambda>timeStampTwo r. bindRead (readU16 r) (\<lambda>speed r.
       Some (Ticket \<lparr>tk_Plate = plate, tk_Road = road, tk_MileOne = mileOne, tk_TimeStampOne = timeStampOne,
               tk_MileTwo = mileTwo, tk_TimeStampTwo = timeStampTwo, tk_Speed = speed\<rparr>, r))))))))"

definition decodeWantHeartbeat :: "SdBuffer \<Rightarrow> (ClientMessage \<times> SdBuffer) option" where
  "decodeWantHeartbeat r = bindRead (readU32 r) (\<lambda>interval r. Some (WantHeartbeatMessage interval, r))"

definition decodeHeartbeat :: "SdBuffer \<Rightarrow> (ClientMessage \<times> SdBuffer) option" where
  "decodeHeartbeat r = Some (HeartbeatMessage, r)"

definition decodeIAmCamera :: "SdBuffer \<Rightarrow> (ClientMessage \<times> SdBuffer) option" where
  "decodeIAmCamera r =
     bindRead (readU16 r) (\<lambda>road r. bindRead (readU16 r) (\<lambda>mile r. bindRead (readU16 r) (\<lambda>limit r.
       Some (IAmCameraMessage road mile limit, r))))"

text \<open>The loop over the roads.\<close>

fun readRoads :: "nat \<Rightarrow> SdBuffer \<Rightarrow> (U16 list \<times> SdBuffer) option" where
  "readRoads 0 r = Some ([], r)"
| "readRoads (Suc n) r =
     bindRead (readU16 r) (\<lambda>road r. bindRead (readRoads n r) (\<lambda>roads r. Some (road # roads, r)))"

definition decodeIAmDispatcher :: "SdBuffer \<Rightarrow> (ClientMessage \<times> SdBuffer) option" where
  "decodeIAmDispatcher r =
     bindRead (readU8 r) (\<lambda>numroads r. bindRead (readRoads (unat numroads) r) (\<lambda>roads r.
       Some (IAmDispatcherMessage numroads roads, r)))"

datatype sdError = ErrIncompleteMessage | ErrInvalidMessage

text \<open>The \<open>switch\<close> on the message type; \<open>None\<close> is its default case.\<close>

definition decoderFor :: "U8 \<Rightarrow> (SdBuffer \<Rightarrow> (ClientMessage \<times> SdBuffer) option) option" where
  "decoderFor ty =
     (if ty = ErrorMsgType then Some decodeError
      else if ty = PlateMsgType then Some decodePlate
      else if ty = TicketMsgType then Some decodeTicket
      else if ty = WantHeartbeatType then Some decodeWantHeartbeat
      else if ty = HeartbeatType then Some decodeHeartbeat
      else if ty = IAmCameraType then Some decodeIAmCamera
      else if ty = IAmDispatcherType then Some decodeIAmDispatcher
      else None)"

definition DecodeMessage :: "SdBuffer \<Rightarrow> sdError + (ClientMessage \<times> SdBuffer)" where
  "DecodeMessage buffer =
     (if length (sb_Reader buffer) < 1 then Inl ErrIncompleteMessage
      else
        (case readU8 buffer of
           None \<Rightarrow> Inl ErrIncompleteMessage
         | Some (msgType, r) \<Rightarrow>
             (case decoderFor msgType of
                None \<Rightarrow> Inl ErrInvalidMessage
              | Some decode \<Rightarrow>
                  (case decode r of None \<Rightarrow> Inl ErrIncompleteMessage | Some (msg, r1) \<Rightarrow> Inr (msg, r1)))))"

definition invalidNotice :: ClientMessage where
  "invalidNotice = ErrorMessage (map (\<lambda>c. of_char c) ''Invalid message'')"

text \<open>\<open>ExtractFromSbBuffer\<close>; the recursion decreases what is left to read.\<close>

function extractLoop :: "SdBuffer \<Rightarrow> ClientMessage list \<Rightarrow> nat \<Rightarrow> ClientMessage list \<times> nat" where
  "extractLoop buffer messages extractedBytes =
     (if length (sb_Reader buffer) > 0 then
        (case DecodeMessage buffer of
           Inl ErrInvalidMessage \<Rightarrow> (messages @ [invalidNotice], extractedBytes)
         | Inl ErrIncompleteMessage \<Rightarrow> (messages, extractedBytes)
         | Inr (msg, r) \<Rightarrow>
             if length (sb_Reader r) < length (sb_Reader buffer)
             then extractLoop (r\<lparr>sb_ValidBytes := 0\<rparr>) (messages @ [msg]) (extractedBytes + sb_ValidBytes r)
             else (messages, extractedBytes))
      else (messages, extractedBytes))"
  by pat_completeness auto
termination
  by (relation "measure (\<lambda>(buffer, ms, n). length (sb_Reader buffer))") auto

declare extractLoop.simps [simp del]

definition ExtractFromSbBuffer :: "SdBuffer \<Rightarrow> ClientMessage list \<times> nat" where
  "ExtractFromSbBuffer buffer = extractLoop buffer [] 0"

section \<open>Readers\<close>

text \<open>
  The contract of every read: it takes bytes off the front, counts them, and does not look beyond
  what it took, so more bytes behind do not change it.
\<close>

definition reader_ok :: "(SdBuffer \<Rightarrow> ('a \<times> SdBuffer) option) \<Rightarrow> bool" where
  "reader_ok f \<longleftrightarrow>
     (\<forall>r v r1. f r = Some (v, r1) \<longrightarrow>
        (\<exists>used. sb_Reader r = used @ sb_Reader r1 \<and> sb_ValidBytes r1 = sb_ValidBytes r + length used) \<and>
        (\<forall>ys. f (r\<lparr>sb_Reader := sb_Reader r @ ys\<rparr>) = Some (v, r1\<lparr>sb_Reader := sb_Reader r1 @ ys\<rparr>)))"

lemma reader_okD:
  assumes "reader_ok f" "f r = Some (v, r1)"
  shows "\<exists>used. sb_Reader r = used @ sb_Reader r1 \<and> sb_ValidBytes r1 = sb_ValidBytes r + length used"
    and "f (r\<lparr>sb_Reader := sb_Reader r @ ys\<rparr>) = Some (v, r1\<lparr>sb_Reader := sb_Reader r1 @ ys\<rparr>)"
  using assms unfolding reader_ok_def by blast+

lemma reader_readFull [inv_intros]: "reader_ok (readFull n)"
proof -
  have "\<exists>used. xs = used @ drop n xs \<and> n = length used" if "n \<le> length xs" for xs :: bytes
    using that by (intro exI[of _ "take n xs"]) simp
  then show ?thesis by (auto simp: reader_ok_def readFull_def split: if_splits)
qed

lemma reader_return [inv_intros]: "reader_ok (\<lambda>r. Some (v, r))"
  by (auto simp: reader_ok_def)

lemma reader_bind [inv_intros]:
  assumes f: "reader_ok f" and k: "\<And>v. reader_ok (k v)"
  shows "reader_ok (\<lambda>r. bindRead (f r) k)"
  unfolding reader_ok_def
proof (intro allI impI)
  fix r v r2
  assume "bindRead (f r) k = Some (v, r2)"
  then obtain u r1 where u: "f r = Some (u, r1)" "k u r1 = Some (v, r2)"
    by (auto simp: bindRead_def split: option.splits)
  obtain a b where "sb_Reader r = a @ sb_Reader r1" "sb_ValidBytes r1 = sb_ValidBytes r + length a"
    "sb_Reader r1 = b @ sb_Reader r2" "sb_ValidBytes r2 = sb_ValidBytes r1 + length b"
    using reader_okD(1)[OF f u(1)] reader_okD(1)[OF k u(2)] by blast
  moreover have "bindRead (f (r\<lparr>sb_Reader := sb_Reader r @ ys\<rparr>)) k = Some (v, r2\<lparr>sb_Reader := sb_Reader r2 @ ys\<rparr>)" for ys
    using reader_okD(2)[OF f u(1)] reader_okD(2)[OF k u(2)] by (simp add: bindRead_def)
  ultimately show "(\<exists>used. sb_Reader r = used @ sb_Reader r2 \<and> sb_ValidBytes r2 = sb_ValidBytes r + length used) \<and>
    (\<forall>ys. bindRead (f (r\<lparr>sb_Reader := sb_Reader r @ ys\<rparr>)) k = Some (v, r2\<lparr>sb_Reader := sb_Reader r2 @ ys\<rparr>))"
    by (intro conjI exI[of _ "a @ b"]) auto
qed

lemma read_as_bind:
  "readU8 = (\<lambda>r. bindRead (readFull 1 r) (\<lambda>b r. Some (b ! 0, r)))"
  "readU16 = (\<lambda>r. bindRead (readFull 2 r) (\<lambda>b r. Some (bigEndian16 b, r)))"
  "readU32 = (\<lambda>r. bindRead (readFull 4 r) (\<lambda>b r. Some (bigEndian32 b, r)))"
  "readStr = (\<lambda>r. bindRead (readU8 r) (\<lambda>len r. if len = 0 then Some ([], r) else readFull (unat len) r))"
  by (auto simp: fun_eq_iff readU8_def readU16_def readU32_def readStr_def bindRead_def split: option.splits)

lemma reader_if [inv_intros]: "reader_ok f \<Longrightarrow> reader_ok g \<Longrightarrow> reader_ok (\<lambda>r. if b then f r else g r)"
  by (cases b) simp_all

lemma reader_primitives [inv_intros]:
  "reader_ok readU8" "reader_ok readU16" "reader_ok readU32" "reader_ok readStr"
proof -
  show u8: "reader_ok readU8" unfolding read_as_bind(1) by (intro inv_intros)
  show "reader_ok readU16" unfolding read_as_bind(2) by (intro inv_intros)
  show "reader_ok readU32" unfolding read_as_bind(3) by (intro inv_intros)
  show "reader_ok readStr" unfolding read_as_bind(4) by (intro reader_bind u8 reader_if reader_return reader_readFull)
qed

lemma reader_readRoads [inv_intros]: "reader_ok (readRoads n)"
proof (induction n)
  case 0
  have "readRoads 0 = (\<lambda>r. Some ([], r))" by (simp add: fun_eq_iff)
  then show ?case by (simp add: reader_return)
next
  case (Suc n)
  have "readRoads (Suc n) = (\<lambda>r. bindRead (readU16 r) (\<lambda>road r. bindRead (readRoads n r) (\<lambda>roads r. Some (road # roads, r))))"
    by (simp add: fun_eq_iff)
  then show ?case by (simp only:) (intro reader_bind reader_primitives Suc reader_return)
qed

lemma reader_decoders:
  "reader_ok decodeError" "reader_ok decodePlate" "reader_ok decodeTicket" "reader_ok decodeWantHeartbeat"
  "reader_ok decodeHeartbeat" "reader_ok decodeIAmCamera" "reader_ok decodeIAmDispatcher"
  unfolding decodeError_def[abs_def] decodePlate_def[abs_def] decodeTicket_def[abs_def] decodeWantHeartbeat_def[abs_def]
    decodeHeartbeat_def[abs_def] decodeIAmCamera_def[abs_def] decodeIAmDispatcher_def[abs_def]
  by (intro reader_bind reader_primitives reader_readRoads reader_return)+

lemma reader_decoderFor: "decoderFor ty = Some d \<Longrightarrow> reader_ok d"
  by (auto simp: decoderFor_def reader_decoders split: if_splits)

section \<open>Messages as frames\<close>

definition takeMessage :: "bytes \<Rightarrow> (ClientMessage \<times> bytes) option" where
  "takeMessage buf =
     (case DecodeMessage (NewSdBuffer buf) of Inr (m, r) \<Rightarrow> Some (m, sb_Reader r) | Inl err \<Rightarrow> None)"

lemma DecodeMessage_Inr:
  "DecodeMessage (NewSdBuffer buf) = Inr (m, r) \<longleftrightarrow>
   (\<exists>ty rest d. buf = ty # rest \<and> decoderFor ty = Some d \<and> d \<lparr>sb_Reader = rest, sb_ValidBytes = 1\<rparr> = Some (m, r))"
  by (cases buf) (auto simp: DecodeMessage_def NewSdBuffer_def readU8_def readFull_def split: option.splits)

lemma DecodeMessage_used:
  assumes "DecodeMessage (NewSdBuffer buf) = Inr (m, r)"
  shows "\<exists>used. buf = used @ sb_Reader r \<and> used \<noteq> [] \<and> sb_ValidBytes r = length used"
proof -
  from assms obtain ty rest d where d: "buf = ty # rest" "decoderFor ty = Some d"
    "d \<lparr>sb_Reader = rest, sb_ValidBytes = 1\<rparr> = Some (m, r)" by (auto simp: DecodeMessage_Inr)
  from reader_okD(1)[OF reader_decoderFor[OF d(2)] d(3)] obtain used where
    "rest = used @ sb_Reader r" "sb_ValidBytes r = 1 + length used" by auto
  with d(1) show ?thesis by (intro exI[of _ "ty # used"]) simp
qed

lemma DecodeMessage_extend:
  assumes "DecodeMessage (NewSdBuffer buf) = Inr (m, r)"
  shows "DecodeMessage (NewSdBuffer (buf @ ys)) = Inr (m, r\<lparr>sb_Reader := sb_Reader r @ ys\<rparr>)"
proof -
  from assms obtain ty rest d where d: "buf = ty # rest" "decoderFor ty = Some d"
    "d \<lparr>sb_Reader = rest, sb_ValidBytes = 1\<rparr> = Some (m, r)" by (auto simp: DecodeMessage_Inr)
  from reader_okD(2)[OF reader_decoderFor[OF d(2)] d(3), of ys] d show ?thesis by (auto simp: DecodeMessage_Inr)
qed

interpretation message_framer: framer takeMessage
proof unfold_locales
  show "length rest < length xs" if "takeMessage xs = Some (m, rest)" for xs m rest
    using that DecodeMessage_used[of xs] by (fastforce simp: takeMessage_def split: sum.splits)
  show "takeMessage (xs @ ys) = Some (m, rest @ ys)" if "takeMessage xs = Some (m, rest)" for xs m rest ys
    using that DecodeMessage_extend[of xs] by (fastforce simp: takeMessage_def split: sum.splits)
qed

text \<open>The decoder has met a byte that starts no message.\<close>

definition stuck :: "bytes \<Rightarrow> bool" where
  "stuck buf \<longleftrightarrow> buf \<noteq> [] \<and> decoderFor (hd buf) = None"

lemma DecodeMessage_invalid: "DecodeMessage (NewSdBuffer buf) = Inl ErrInvalidMessage \<longleftrightarrow> stuck buf"
  by (cases buf) (auto simp: DecodeMessage_def NewSdBuffer_def readU8_def readFull_def stuck_def split: option.splits)

lemma extractLoop_frames:
  "extractLoop (NewSdBuffer buf) ms n =
   (ms @ fst (frames takeMessage buf) @ (if stuck (snd (frames takeMessage buf)) then [invalidNotice] else []),
    n + (length buf - length (snd (frames takeMessage buf)))) \<and>
   length (snd (frames takeMessage buf)) \<le> length buf"
proof (induction "length buf" arbitrary: buf ms n rule: less_induct)
  case less
  show ?case
  proof (cases "DecodeMessage (NewSdBuffer buf)")
    case (Inl err)
    then have none: "takeMessage buf = None" by (simp add: takeMessage_def)
    have "buf = [] \<Longrightarrow> \<not> stuck buf" by (simp add: stuck_def)
    note fr = message_framer.frames_None[OF none]
    have rd: "sb_Reader (NewSdBuffer buf) = buf" by (simp add: NewSdBuffer_def)
    show ?thesis using Inl DecodeMessage_invalid[of buf] \<open>buf = [] \<Longrightarrow> \<not> stuck buf\<close>
      by (subst extractLoop.simps) (auto simp: fr rd stuck_def split: sdError.splits)
  next
    case (Inr p)
    obtain m r where p: "DecodeMessage (NewSdBuffer buf) = Inr (m, r)" using Inr by (cases p) auto
    from DecodeMessage_used[OF p] obtain used where u: "buf = used @ sb_Reader r" "used \<noteq> []" "sb_ValidBytes r = length used"
      by blast
    have t: "takeMessage buf = Some (m, sb_Reader r)" using p by (simp add: takeMessage_def)
    have lt: "length (sb_Reader r) < length buf" using u by (cases used) auto
    have new: "r\<lparr>sb_ValidBytes := 0\<rparr> = NewSdBuffer (sb_Reader r)" by (cases r) (simp add: NewSdBuffer_def)
    have rd: "sb_Reader (NewSdBuffer buf) = buf" by (simp add: NewSdBuffer_def)
    have "extractLoop (NewSdBuffer buf) ms n = extractLoop (NewSdBuffer (sb_Reader r)) (ms @ [m]) (n + length used)"
      using p lt u(3) rd by (subst extractLoop.simps) (auto simp: new)
    moreover have "length buf = length used + length (sb_Reader r)" by (subst u(1)) simp
    ultimately show ?thesis using less.hyps[OF lt, of "ms @ [m]" "n + length used"]
      by (auto simp: message_framer.frames_Some[OF t])
  qed
qed


section \<open>What the encoders write, the readers read\<close>

lemma bigEndian16_write: "bigEndian16 (take 2 (writeU16 v @ rest)) = v"
proof (rule bit_word_eqI)
  fix n assume "n < LENGTH(16)"
  then show "bit (bigEndian16 (take 2 (writeU16 v @ rest))) n = bit v n"
    by (auto simp: bigEndian16_def writeU16_def bit_simps not_less)
qed

lemma bigEndian32_write: "bigEndian32 (take 4 (writeU32 v @ rest)) = v"
  using bigEndian32_put[of v] by (simp add: writeU32_def putBigEndian32_def)

lemma read_written:
  "readU8 \<lparr>sb_Reader = writeU8 a @ rest, sb_ValidBytes = k\<rparr> = Some (a, \<lparr>sb_Reader = rest, sb_ValidBytes = k + 1\<rparr>)"
  "readU16 \<lparr>sb_Reader = writeU16 b @ rest, sb_ValidBytes = k\<rparr> = Some (b, \<lparr>sb_Reader = rest, sb_ValidBytes = k + 2\<rparr>)"
  "readU32 \<lparr>sb_Reader = writeU32 c @ rest, sb_ValidBytes = k\<rparr> = Some (c, \<lparr>sb_Reader = rest, sb_ValidBytes = k + 4\<rparr>)"
proof -
  show "readU8 \<lparr>sb_Reader = writeU8 a @ rest, sb_ValidBytes = k\<rparr> = Some (a, \<lparr>sb_Reader = rest, sb_ValidBytes = k + 1\<rparr>)"
    by (simp add: readU8_def readFull_def writeU8_def)
  show "readU16 \<lparr>sb_Reader = writeU16 b @ rest, sb_ValidBytes = k\<rparr> = Some (b, \<lparr>sb_Reader = rest, sb_ValidBytes = k + 2\<rparr>)"
    using bigEndian16_write[of b rest] by (simp add: readU16_def readFull_def writeU16_def)
  show "readU32 \<lparr>sb_Reader = writeU32 c @ rest, sb_ValidBytes = k\<rparr> = Some (c, \<lparr>sb_Reader = rest, sb_ValidBytes = k + 4\<rparr>)"
    using bigEndian32_write[of c rest] by (simp add: readU32_def readFull_def writeU32_def)
qed

lemma readStr_written:
  assumes "writeStr s = Some e"
  shows "readStr \<lparr>sb_Reader = e @ rest, sb_ValidBytes = k\<rparr> = Some (s, \<lparr>sb_Reader = rest, sb_ValidBytes = k + length e\<rparr>)"
proof -
  have e: "e = writeU8 (word_of_nat (length s)) @ s" and len: "length s \<le> 255"
    using assms by (auto simp: writeStr_def split: if_splits)
  have n: "unat (word_of_nat (length s) :: U8) = length s" using len by (simp add: unsigned_of_nat take_bit_nat_eq_self)
  have z: "(word_of_nat (length s) :: U8) = 0 \<longleftrightarrow> s = []" 
  proof
    assume "(word_of_nat (length s) :: U8) = 0"
    then have "unat (word_of_nat (length s) :: U8) = 0" by (simp only: unat_0)
    with n show "s = []" by simp
  qed simp
  have k: "length e = 1 + length s" by (simp add: e writeU8_def)
  show ?thesis
    unfolding k e readStr_def append_assoc read_written(1)
    by (simp add: z readFull_def n writeU8_def)
qed

lemma readRoads_written:
  "readRoads (length roads) \<lparr>sb_Reader = concat (map writeU16 roads) @ rest, sb_ValidBytes = k\<rparr> =
   Some (roads, \<lparr>sb_Reader = rest, sb_ValidBytes = k + 2 * length roads\<rparr>)"
  by (induction roads arbitrary: k) (auto simp: bindRead_def read_written)

text \<open>A dispatcher message carries its number of roads twice; the constructors of the code keep them equal.\<close>

fun message_ok :: "ClientMessage \<Rightarrow> bool" where
  "message_ok (IAmDispatcherMessage numroads roads) \<longleftrightarrow> unat numroads = length roads"
| "message_ok m \<longleftrightarrow> True"

lemma length_written [simp]: "length (writeU8 a) = 1" "length (writeU16 b) = 2" "length (writeU32 c) = 4"
  by (simp_all add: writeU8_def writeU16_def writeU32_def)

lemmas reads = read_written readStr_written bindRead_def

lemma decode_written:
  assumes "message_ok m" "encodeBody m = Some body"
  shows "\<exists>d. decoderFor (GetType m) = Some d \<and>
    d \<lparr>sb_Reader = body @ rest, sb_ValidBytes = k\<rparr> = Some (m, \<lparr>sb_Reader = rest, sb_ValidBytes = k + length body\<rparr>)"
proof (cases m)
  case (Ticket t)
  obtain s where s: "writeStr (tk_Plate t) = Some s" using assms(2) Ticket by auto
  then have "body = s @ writeU16 (tk_Road t) @ writeU16 (tk_MileOne t) @ writeU32 (tk_TimeStampOne t) @
                     writeU16 (tk_MileTwo t) @ writeU32 (tk_TimeStampTwo t) @ writeU16 (tk_Speed t)"
    using assms(2) Ticket by simp
  then show ?thesis using s Ticket
    by (simp add: decoderFor_def msgtype_defs decodeTicket_def reads)
next
  case (IAmDispatcherMessage n roads)
  then show ?thesis using assms
    by (auto simp: decoderFor_def msgtype_defs decodeIAmDispatcher_def reads readRoads_written)
      (simp add: length_concat comp_def sum_list_triv)
qed (use assms in \<open>auto simp: decoderFor_def msgtype_defs decodeError_def decodePlate_def decodeWantHeartbeat_def
      decodeHeartbeat_def decodeIAmCamera_def reads\<close>)

text \<open>What is decoded has as many roads as it says.\<close>

lemma readRoads_length: "readRoads n r = Some (roads, r') \<Longrightarrow> length roads = n"
  by (induction n arbitrary: r roads) (auto simp: bindRead_def split: option.splits)

lemma decoded_message_ok:
  assumes "DecodeMessage (NewSdBuffer buf) = Inr (m, r)"
  shows "message_ok m"
proof (cases m)
  case (IAmDispatcherMessage numroads roads)
  from assms obtain ty rest d where "decoderFor ty = Some d" "d \<lparr>sb_Reader = rest, sb_ValidBytes = 1\<rparr> = Some (m, r)"
    by (auto simp: DecodeMessage_Inr)
  then have "decodeIAmDispatcher \<lparr>sb_Reader = rest, sb_ValidBytes = 1\<rparr> = Some (m, r)"
    using IAmDispatcherMessage
    by (auto simp: decoderFor_def decodeError_def decodePlate_def decodeTicket_def decodeWantHeartbeat_def decodeHeartbeat_def
        decodeIAmCamera_def bindRead_def split: if_splits option.splits)
  then show ?thesis using IAmDispatcherMessage
    by (auto simp: decodeIAmDispatcher_def bindRead_def readRoads_length split: option.splits)
qed simp_all

section \<open>Properties\<close>

text \<open>C28: Every message the encoder accepts is decoded back exactly, whatever bytes follow it, and the
  decoder counts exactly its encoded length as valid bytes and leaves exactly what follows; with one exception, which
  is never decoded back: a dispatcher message whose count of roads is not the length of its list of roads.\<close>
theorem message_roundtrip:
  assumes "EncodeMessage m = Some e"
  shows "DecodeMessage (NewSdBuffer (e @ rest)) = Inr (m, \<lparr>sb_Reader = rest, sb_ValidBytes = length e\<rparr>) \<longleftrightarrow>
         (\<forall>numroads roads. m = IAmDispatcherMessage numroads roads \<longrightarrow> unat numroads = length roads)"
proof -
  have ok: "message_ok m \<longleftrightarrow> (\<forall>numroads roads. m = IAmDispatcherMessage numroads roads \<longrightarrow> unat numroads = length roads)"
    by (cases m) simp_all
  obtain body where body: "encodeBody m = Some body" "e = GetType m # body"
    using assms(1) by (auto simp: EncodeMessage_body)
  have "DecodeMessage (NewSdBuffer (e @ rest)) = Inr (m, \<lparr>sb_Reader = rest, sb_ValidBytes = length e\<rparr>)" if "message_ok m"
  proof -
    from decode_written[OF that body(1), of rest 1] obtain d where
      "decoderFor (GetType m) = Some d"
      "d \<lparr>sb_Reader = body @ rest, sb_ValidBytes = 1\<rparr> = Some (m, \<lparr>sb_Reader = rest, sb_ValidBytes = 1 + length body\<rparr>)"
      by blast
    then show ?thesis by (simp add: DecodeMessage_Inr body(2))
  qed
  moreover have "message_ok m" if "DecodeMessage (NewSdBuffer (e @ rest)) = Inr (m, r)" for r
    using that decoded_message_ok by blast
  ultimately show ?thesis unfolding ok[symmetric] by blast
qed

theorem message_roundtrip_witness:
  "DecodeMessage (NewSdBuffer (0x20 # [3, 65, 66, 67] @ writeU32 100 @ [9])) =
   Inr (PlateMessage [65, 66, 67] 100, \<lparr>sb_Reader = [9], sb_ValidBytes = 9\<rparr>)"
  using message_roundtrip[of "PlateMessage [65, 66, 67] 100" "0x20 # [3, 65, 66, 67] @ writeU32 100" "[9]"]
  by (simp add: EncodeMessage_body msgtype_defs writeStr_def writeU8_def)

text \<open>\<open>ExtractFromSbBuffer\<close> returns the complete messages of the buffer in order, followed by one
  error notice exactly when the next byte starts no message, and the number of bytes it reports is
  exactly what those messages occupy, so the caller's buffer keeps the unread rest.\<close>
theorem extract_takes_all_frames:
  "case frames takeMessage buf of (msgs, rest) \<Rightarrow>
     ExtractFromSbBuffer (NewSdBuffer buf) = (msgs @ (if stuck rest then [invalidNotice] else []), length buf - length rest) \<and>
     drop (snd (ExtractFromSbBuffer (NewSdBuffer buf))) buf = rest"
proof -
  have suffix: "\<exists>used. buf = used @ snd (frames takeMessage buf)"
  proof (induction "length buf" arbitrary: buf rule: less_induct)
    case less
    show ?case
    proof (cases "takeMessage buf")
      case None
      then show ?thesis by (simp add: message_framer.frames_None)
    next
      case (Some p)
      obtain m rest where "p = (m, rest)" by force
      with Some have t: "takeMessage buf = Some (m, rest)" by simp
      then obtain used where "buf = used @ rest"
        using DecodeMessage_used[of buf] by (fastforce simp: takeMessage_def split: sum.splits)
      moreover from less[OF message_framer.consumes[OF t]] obtain u2 where "rest = u2 @ snd (frames takeMessage rest)" by blast
      moreover have "snd (frames takeMessage buf) = snd (frames takeMessage rest)"
        by (simp add: message_framer.frames_Some[OF t])
      ultimately show ?thesis by (metis append_assoc)
    qed
  qed
  then show ?thesis using extractLoop_frames[of buf "[]" 0]
    by (auto simp: ExtractFromSbBuffer_def split: prod.splits)
qed

text \<open>The messages a connection takes from its stream do not depend on how the stream is split
  into reads: they are the frames of all the bytes received, and so is what is left in the buffer.\<close>
theorem extraction_ignores_chunking:
  assumes "concat chunks = concat chunks'"
  shows "feed takeMessage [] chunks = feed takeMessage [] chunks' \<and>
         feed takeMessage [] chunks = frames takeMessage (concat chunks)"
proof -
  have n: "takeMessage [] = None" by (simp add: takeMessage_def DecodeMessage_def NewSdBuffer_def)
  show ?thesis
    using message_framer.chunking_irrelevant[OF n assms] message_framer.feed_concat[OF n, of chunks] by simp
qed

theorem extraction_ignores_chunking_witness:
  "feed takeMessage [] [[0x41, 0x20], [1, 65], [0, 0, 0, 7]] = feed takeMessage [] [[0x41], [0x20, 1, 65, 0, 0, 0, 7]]"
  using extraction_ignores_chunking[of "[[0x41, 0x20], [1, 65], [0, 0, 0, 7]]" "[[0x41], [0x20, 1, 65, 0, 0, 0, 7]]"] by simp

end
