(* ===== verification/Go_Float.thy ===== *)
theory Go_Float
  imports Complex_Main "HOL-Library.Log_Nat"
begin

text \<open>
  Go's \<open>float64\<close>: finite values are rational numbers, and every operation gives the exact result
  rounded to the nearest representable number, ties to even (IEEE 754 binary64), with overflow to
  an infinity, subnormals, and NaN. The sign of zero is not kept: no code modelled here divides by a
  zero of unknown sign or tests it.
\<close>

section \<open>Values and rounding\<close>

datatype f64 = Fin rat | PosInf | NegInf | NaN

definition roundHalfEven :: "rat \<Rightarrow> int" where
  "roundHalfEven x =
     (let f = \<lfloor>x\<rfloor>; r = x - of_int f in
      if r < 1 / 2 then f else if r > 1 / 2 then f + 1 else if even f then f else f + 1)"

text \<open>The largest \<open>k\<close> with \<open>2 powi k \<le> x\<close>, for positive \<open>x\<close>.\<close>

definition ilog2 :: "rat \<Rightarrow> int" where
  "ilog2 x =
     (case quotient_of x of (p, q) \<Rightarrow>
        let k = bitlen p - bitlen q in if 2 powi k \<le> x then k else k - 1)"

definition roundF64 :: "rat \<Rightarrow> f64" where
  "roundF64 x =
     (if x = 0 then Fin 0
      else
        let e = max (ilog2 \<bar>x\<bar> - 52) (- 1074);
            y = of_int (roundHalfEven (x / 2 powi e)) * 2 powi e
        in if \<bar>y\<bar> \<ge> 2 powi 1024 then (if y > 0 then PosInf else NegInf) else Fin y)"

section \<open>Operations\<close>

instantiation f64 :: "{ord, plus, minus, uminus, times, inverse, abs}"
begin

fun uminus_f64 :: "f64 \<Rightarrow> f64" where
  "- Fin x = Fin (- x)"
| "- PosInf = NegInf"
| "- NegInf = PosInf"
| "- NaN = NaN"

fun plus_f64 :: "f64 \<Rightarrow> f64 \<Rightarrow> f64" where
  "Fin x + Fin y = roundF64 (x + y)"
| "NaN + b = NaN"
| "a + NaN = NaN"
| "PosInf + NegInf = NaN"
| "NegInf + PosInf = NaN"
| "PosInf + b = PosInf"
| "NegInf + b = NegInf"
| "a + PosInf = PosInf"
| "a + NegInf = NegInf"

definition minus_f64 :: "f64 \<Rightarrow> f64 \<Rightarrow> f64" where
  "a - b = a + (- b :: f64)"

text \<open>The infinity of a sign, NaN for an undefined sign.\<close>

definition signedInf :: "int \<Rightarrow> f64" where
  "signedInf s = (if s > 0 then PosInf else if s < 0 then NegInf else NaN)"

fun signOf :: "f64 \<Rightarrow> int" where
  "signOf (Fin x) = (if x > 0 then 1 else if x < 0 then - 1 else 0)"
| "signOf PosInf = 1"
| "signOf NegInf = - 1"
| "signOf NaN = 0"

fun times_f64 :: "f64 \<Rightarrow> f64 \<Rightarrow> f64" where
  "Fin x * Fin y = roundF64 (x * y)"
| "a * b = (if a = NaN \<or> b = NaN then NaN else signedInf (signOf a * signOf b))"

fun divide_f64 :: "f64 \<Rightarrow> f64 \<Rightarrow> f64" where
  "divide_f64 (Fin x) (Fin y) = (if y = 0 then signedInf (signOf (Fin x)) else roundF64 (x / y))"
| "divide_f64 (Fin x) PosInf = Fin 0"
| "divide_f64 (Fin x) NegInf = Fin 0"
| "divide_f64 PosInf (Fin y) = (if y < 0 then NegInf else PosInf)"
| "divide_f64 NegInf (Fin y) = (if y < 0 then PosInf else NegInf)"
| "divide_f64 a b = NaN"

definition inverse_f64 :: "f64 \<Rightarrow> f64" where
  "inverse_f64 a = divide_class.divide (Fin 1) a"

fun abs_f64 :: "f64 \<Rightarrow> f64" where
  "abs_f64 (Fin x) = Fin \<bar>x\<bar>"
| "abs_f64 PosInf = PosInf"
| "abs_f64 NegInf = PosInf"
| "abs_f64 NaN = NaN"

fun less_eq_f64 :: "f64 \<Rightarrow> f64 \<Rightarrow> bool" where
  "Fin x \<le> Fin y \<longleftrightarrow> x \<le> y"
| "a \<le> b \<longleftrightarrow> a \<noteq> NaN \<and> b \<noteq> NaN \<and> (a = b \<or> a = NegInf \<or> b = PosInf)"

definition less_f64 :: "f64 \<Rightarrow> f64 \<Rightarrow> bool" where
  "a < b \<longleftrightarrow> a \<le> b \<and> \<not> b \<le> (a :: f64)"

instance ..

end

text \<open>The conversion \<open>float64(n)\<close> of an integer.\<close>

definition floatOfInt :: "int \<Rightarrow> f64" where
  "floatOfInt n = roundF64 (of_int n)"

text \<open>Truncation toward zero.\<close>

definition truncRat :: "rat \<Rightarrow> int" where
  "truncRat x = (if x < 0 then - \<lfloor>- x\<rfloor> else \<lfloor>x\<rfloor>)"

section \<open>Rounding error\<close>

lemma bitlen_powi:
  assumes "0 < n"
  shows "2 powi (bitlen n - 1) \<le> (of_int n :: rat)" "(of_int n :: rat) < 2 powi bitlen n"
proof -
  have b: "2 ^ nat (bitlen n - 1) \<le> n" "n < 2 ^ nat (bitlen n)" using bitlen_bounds[OF assms] by auto
  have nn: "0 \<le> bitlen n" by (rule bitlen_nonneg)
  have "bitlen n \<noteq> 0"
  proof
    assume "bitlen n = 0"
    with b(2) assms show False by simp
  qed
  with nn have "0 \<le> bitlen n - 1" by simp
  then have "2 powi (bitlen n - 1) = (of_int (2 ^ nat (bitlen n - 1)) :: rat)" by (simp add: power_int_def)
  then show "2 powi (bitlen n - 1) \<le> (of_int n :: rat)" using b(1) by (simp only: of_int_le_iff)
  have "2 powi bitlen n = (of_int (2 ^ nat (bitlen n)) :: rat)" using nn by (simp add: power_int_def)
  then show "(of_int n :: rat) < 2 powi bitlen n" using b(2) by (simp only: of_int_less_iff)
qed

lemma ilog2_bounds: "0 < x \<Longrightarrow> 2 powi ilog2 x \<le> x \<and> x < 2 powi (ilog2 x + 1)"
proof -
  assume x: "0 < x"
  obtain p q where pq: "quotient_of x = (p, q)" by force
  have q: "0 < q" using quotient_of_denom_pos[OF pq] .
  have xe: "x = of_int p / of_int q" using quotient_of_div[OF pq] .
  then have p: "0 < p" using x q by (simp add: zero_less_divide_iff)
  note bp = bitlen_powi[OF p] and bq = bitlen_powi[OF q]
  let ?k = "bitlen p - bitlen q"
  have up: "x < 2 powi (?k + 1)"
  proof -
    have "x < 2 powi bitlen p / 2 powi (bitlen q - 1)"
      unfolding xe using bp bq p q
      by (intro frac_less) (auto intro: order.strict_trans2)
    then show ?thesis by (simp flip: power_int_diff add: algebra_simps)
  qed
  have lo: "2 powi (?k - 1) \<le> x"
  proof -
    have "2 powi (bitlen p - 1) / 2 powi bitlen q \<le> x"
      unfolding xe using bp bq p q
      by (intro frac_le) auto
    then show ?thesis by (simp flip: power_int_diff add: algebra_simps)
  qed
  show ?thesis using up lo by (auto simp: ilog2_def pq Let_def)
qed

lemma roundHalfEven_error: "\<bar>of_int (roundHalfEven x) - x\<bar> \<le> 1 / 2"
proof -
  define r where "r = x - of_int \<lfloor>x\<rfloor>"
  have "0 \<le> r" "r < 1" unfolding r_def by linarith+
  moreover have "of_int (roundHalfEven x) - x = (if r < 1 / 2 then - r else if r > 1 / 2 then 1 - r else if even \<lfloor>x\<rfloor> then - r else 1 - r)"
    by (simp add: roundHalfEven_def Let_def r_def)
  ultimately show ?thesis by (auto simp: abs_if)
qed

lemma roundHalfEven_int [simp]: "roundHalfEven (of_int n) = n"
  by (simp add: roundHalfEven_def)

lemma powi_2_pos [simp]: "0 < (2 :: rat) powi k"
  by simp

lemma powi_2_mono: "k \<le> l \<Longrightarrow> (2 :: rat) powi k \<le> 2 powi l"
  by (simp add: power_int_increasing)

lemma powi_2_strict: "k < l \<Longrightarrow> (2 :: rat) powi k < 2 powi l"
  by (simp add: power_int_strict_increasing)

text \<open>In the normal range the relative error is at most \<open>2 powi -53\<close>.\<close>

lemma roundF64_error:
  assumes x: "x \<noteq> 0" "2 powi (- 1022) \<le> \<bar>x\<bar>" "\<bar>x\<bar> < 2 powi 1023"
  shows "\<exists>y. roundF64 x = Fin y \<and> \<bar>y - x\<bar> \<le> \<bar>x\<bar> * 2 powi (- 53)"
proof -
  let ?l = "ilog2 \<bar>x\<bar>"
  have l: "2 powi ?l \<le> \<bar>x\<bar>" "\<bar>x\<bar> < 2 powi (?l + 1)" using ilog2_bounds[of "\<bar>x\<bar>"] x(1) by auto
  have "- 1022 < ?l + 1"
  proof (rule ccontr)
    assume "\<not> - 1022 < ?l + 1"
    then have "(2 :: rat) powi (?l + 1) \<le> 2 powi (- 1022)" by (intro powi_2_mono) simp
    with l(2) x(2) show False by simp
  qed
  then have e: "max (?l - 52) (- 1074) = ?l - 52" by simp
  let ?p = "(2 :: rat) powi (?l - 52)"
  let ?y = "of_int (roundHalfEven (x / ?p)) * ?p"
  have "?y - x = (of_int (roundHalfEven (x / ?p)) - x / ?p) * ?p" by (simp add: left_diff_distrib)
  then have "\<bar>?y - x\<bar> = \<bar>of_int (roundHalfEven (x / ?p)) - x / ?p\<bar> * ?p" by (simp add: abs_mult)
  also have "\<dots> \<le> 1 / 2 * ?p" by (intro mult_right_mono roundHalfEven_error) simp
  also have "\<dots> = 2 powi ?l * 2 powi (- 53)"
    by (simp add: power_int_diff power_int_minus flip: power_int_add)
  also have "\<dots> \<le> \<bar>x\<bar> * 2 powi (- 53)" using l(1) by (intro mult_right_mono) auto
  finally have err: "\<bar>?y - x\<bar> \<le> \<bar>x\<bar> * 2 powi (- 53)" .
  have "\<bar>?y\<bar> \<le> \<bar>x\<bar> + \<bar>?y - x\<bar>" by linarith
  also have "\<dots> \<le> \<bar>x\<bar> * 2"
  proof -
    have "(2 :: rat) powi (- 53) \<le> 2 powi 0" by (intro powi_2_mono) simp
    then have "\<bar>x\<bar> * 2 powi (- 53) \<le> \<bar>x\<bar> * 1" by (intro mult_left_mono) simp_all
    with err show ?thesis by linarith
  qed
  also have "\<dots> < 2 powi 1023 * 2" using x(3) by simp
  also have "\<dots> = 2 powi 1024" by (simp flip: power_int_add_1)
  finally have "\<not> 2 powi 1024 \<le> \<bar>?y\<bar>" by simp
  then have "roundF64 x = Fin ?y" using x(1) by (simp add: roundF64_def Let_def e)
  with err show ?thesis by blast
qed

text \<open>Integers below \<open>2 ^ 53\<close> are exact.\<close>

lemma floatOfInt_exact:
  assumes "\<bar>n\<bar> < 2 ^ 53"
  shows "floatOfInt n = Fin (of_int n)"
proof (cases "n = 0")
  case True
  then show ?thesis by (simp add: floatOfInt_def roundF64_def)
next
  case False
  let ?x = "of_int n :: rat"
  let ?l = "ilog2 \<bar>?x\<bar>"
  have ax: "1 \<le> \<bar>?x\<bar>" using False by (metis abs_of_nonneg of_int_1_le_iff of_int_abs zero_less_abs_iff int_one_le_iff_zero_less)
  have bx: "\<bar>?x\<bar> < 2 ^ 53" using assms by (metis of_int_abs of_int_less_iff of_int_numeral of_int_power)
  have l: "2 powi ?l \<le> \<bar>?x\<bar>" "\<bar>?x\<bar> < 2 powi (?l + 1)" using ilog2_bounds[of "\<bar>?x\<bar>"] ax by auto
  have "0 < ?l + 1"
  proof (rule ccontr)
    assume "\<not> 0 < ?l + 1"
    then have "(2 :: rat) powi (?l + 1) \<le> 2 powi 0" by (intro powi_2_mono) simp
    with l(2) ax show False by simp
  qed
  moreover have "?l < 53"
  proof (rule ccontr)
    assume "\<not> ?l < 53"
    then have "(2 :: rat) powi 53 \<le> 2 powi ?l" by (intro powi_2_mono) simp
    with l(1) bx show False by simp
  qed
  ultimately have e: "max (?l - 52) (- 1074) = - int (nat (52 - ?l))" by simp
  define k where "k = nat (52 - ?l)"
  have p: "(2 :: rat) powi (- int k) = 1 / 2 ^ k" by (simp add: power_int_minus divide_inverse)
  have q: "?x / (1 / 2 ^ k) = of_int (n * 2 ^ k)" by simp
  have "2 powi 53 \<le> (2 :: rat) powi 1024" by (intro powi_2_mono) simp
  then have "\<not> (2 :: rat) powi 1024 \<le> \<bar>?x\<bar>" using bx by simp
  moreover have "of_int (roundHalfEven (?x / 2 powi (- int k))) * (2 :: rat) powi (- int k) = ?x"
    unfolding p q roundHalfEven_int by simp
  ultimately show ?thesis
    using False unfolding floatOfInt_def roundF64_def Let_def e k_def[symmetric] by simp
qed

section \<open>Accumulated relative errors\<close>

definition relErr :: "rat \<Rightarrow> rat \<Rightarrow> rat \<Rightarrow> bool" where
  "relErr a x y \<longleftrightarrow> \<bar>y - x\<bar> \<le> a * \<bar>x\<bar>"

lemma relErr_trans:
  assumes "relErr a x y" "relErr b y z" "0 \<le> b"
  shows "relErr (a + b + a * b) x z"
proof -
  have "\<bar>y\<bar> \<le> (1 + a) * \<bar>x\<bar>" using assms(1) unfolding relErr_def distrib_right by linarith
  then have "b * \<bar>y\<bar> \<le> b * ((1 + a) * \<bar>x\<bar>)" using assms(3) by (rule mult_left_mono)
  then have b: "\<bar>z - y\<bar> \<le> b * \<bar>x\<bar> + a * b * \<bar>x\<bar>" using assms(2) by (simp add: relErr_def algebra_simps)
  have "\<bar>z - x\<bar> \<le> \<bar>z - y\<bar> + \<bar>y - x\<bar>" by linarith
  with b assms(1) show ?thesis unfolding relErr_def distrib_right by linarith
qed

lemma relErr_mono: "relErr a x y \<Longrightarrow> a \<le> b \<Longrightarrow> relErr b x y"
  unfolding relErr_def by (meson abs_ge_zero mult_right_mono order_trans)

lemma relErr_mult: "relErr a x y \<Longrightarrow> relErr a (x * c) (y * c)"
proof -
  assume "relErr a x y"
  then have "\<bar>y - x\<bar> * \<bar>c\<bar> \<le> a * \<bar>x\<bar> * \<bar>c\<bar>" unfolding relErr_def by (rule mult_right_mono) simp
  then show ?thesis by (simp add: relErr_def abs_mult mult.assoc flip: left_diff_distrib)
qed

lemma relErr_divide:
  assumes "relErr a x y" "0 < x" "a \<le> 1 / 2" "0 \<le> a"
  shows "relErr (2 * a) (c / x) (c / y)"
proof -
  have d: "\<bar>y - x\<bar> \<le> a * x" using assms(1,2) by (simp add: relErr_def)
  have "a * x \<le> x / 2" using mult_right_mono[OF assms(3), of x] assms(2) by simp
  then have y: "x / 2 \<le> y" using d by linarith
  have "c / y - c / x = (c / x) * ((x - y) / y)" using y assms(2) by (simp add: field_simps)
  then have "\<bar>c / y - c / x\<bar> = \<bar>c / x\<bar> * (\<bar>x - y\<bar> / y)" using y assms(2) by (simp add: abs_mult)
  also have "\<bar>c / x\<bar> * (\<bar>x - y\<bar> / y) \<le> \<bar>c / x\<bar> * (2 * a)"
  proof (rule mult_left_mono)
  show "\<bar>x - y\<bar> / y \<le> 2 * a"
  proof -
    have "a * x \<le> a * (2 * y)" using y assms(4) by (intro mult_left_mono) auto
    then have "\<bar>x - y\<bar> \<le> 2 * a * y" using d by linarith
    then show ?thesis using y assms(2) by (simp add: divide_le_eq)
    qed
  qed simp
  finally show ?thesis unfolding relErr_def by (simp only: mult.commute)
qed

lemma roundF64_relErr:
  assumes "1 / 2 ^ 100 \<le> \<bar>x\<bar>" "\<bar>x\<bar> \<le> 2 ^ 100"
  shows "\<exists>y. roundF64 x = Fin y \<and> relErr (1 / 2 ^ 53) x y"
proof -
  have p: "(2 :: rat) powi (- 1022) \<le> 2 powi (- 100)" by (rule powi_2_mono) simp
  have p': "(2 :: rat) powi 100 < 2 powi 1023" by (rule powi_2_strict) simp
  have neg: "(2 :: rat) powi (- int k) = 1 / 2 ^ k" for k by (simp add: power_int_minus divide_inverse)
  have q: "(2 :: rat) powi (- 100) = 1 / 2 ^ 100" using neg[of 100] by (simp only: of_nat_numeral)
  have q': "(2 :: rat) powi (- 53) = 1 / 2 ^ 53" using neg[of 53] by (simp only: of_nat_numeral)
  have q'': "(2 :: rat) powi 100 = 2 ^ 100" by (rule power_int_numeral)
  have "0 < (1 :: rat) / 2 ^ 100" by simp
  then have "x \<noteq> 0" using assms(1) by (metis abs_zero leD)
  moreover have "2 powi (- 1022) \<le> \<bar>x\<bar>" by (rule order_trans[OF p]) (simp only: q assms(1))
  moreover have "\<bar>x\<bar> < 2 powi 1023" by (rule order_le_less_trans[OF _ p']) (simp only: q'' assms(2))
  ultimately have "\<exists>y. roundF64 x = Fin y \<and> \<bar>y - x\<bar> \<le> \<bar>x\<bar> * 2 powi (- 53)" by (rule roundF64_error)
  then show ?thesis unfolding relErr_def q' by (simp only: mult.commute)
qed

lemma roundF64_numeral [simp]:
  "(numeral n :: int) < 2 ^ 53 \<Longrightarrow> roundF64 (numeral n) = Fin (numeral n)" "roundF64 1 = Fin 1" "roundF64 0 = Fin 0"
  using floatOfInt_exact[of "numeral n"] floatOfInt_exact[of 1] floatOfInt_exact[of 0] by (simp_all add: floatOfInt_def)

end
