(* ===== verification/Speed_Dispatcher.thy ===== *)
theory Speed_Dispatcher
  imports Speed_Codec Go_Float "HOL-Library.List_Lexorder"
begin

text \<open>
  \<open>internal/speeddaemon/central_dispatcher.go\<close>: the actor that collects the observations of all
  cameras and issues tickets. It handles the messages of its queue one at a time, so a run is a
  list of messages.

  What Go leaves open is an argument, the record \<open>Runtime\<close>: the permutation \<open>sort.Slice\<close> chooses among
  records with equal times, the order of a \<open>range\<close> over a map, the draws of \<open>rand.Intn\<close>, and the
  conversion to \<open>uint16\<close> of a float that is out of its range. A missing key of \<open>Dispatchers\<close>,
  \<open>SpeedLimits\<close> or \<open>Tickets\<close> reads as the zero value, so these maps are total functions. A
  dispatcher's channel is its number; \<open>cd_Sent\<close> records what was sent to whom (a send waits for room in
  the channel, which its listener always makes).
\<close>

section \<open>State and messages\<close>

record Record =
  rc_Mile :: U16
  rc_Time :: U32

datatype Message =
    RegisterDispatcher "U16 list" nat
  | RegisterCamera U16 U16
  | Observation U16 Str U16 U32

record CentralDispatcher =
  cd_Records :: "U16 \<Rightarrow> (Str \<Rightarrow> Record list option) option"
  cd_Dispatchers :: "U16 \<Rightarrow> nat list"
  cd_SpeedLimits :: "U16 \<Rightarrow> U16"
  cd_Tickets :: "Str \<Rightarrow> U32 list"
  cd_Sent :: "(nat \<times> TicketMessage) list"

definition NewCentralDispatcher :: CentralDispatcher where
  "NewCentralDispatcher =
     \<lparr>cd_Records = (\<lambda>_. None), cd_Dispatchers = (\<lambda>_. []), cd_SpeedLimits = (\<lambda>_. 0),
      cd_Tickets = (\<lambda>_. []), cd_Sent = []\<rparr>"

record Runtime =
  rt_sort :: "Record list \<Rightarrow> Record list"
  rt_keys :: "(Str \<Rightarrow> Record list option) \<Rightarrow> Str list"
  rt_rand :: "nat \<Rightarrow> nat \<Rightarrow> nat"
  rt_toU16 :: "f64 \<Rightarrow> U16"

text \<open>
  The documented behaviour: the sort permutes and sorts by time, the range visits exactly the keys
  of a map with finitely many, and the \<open>k\<close>-th draw for \<open>n > 0\<close> is below \<open>n\<close>.
\<close>

definition runtime_ok :: "Runtime \<Rightarrow> bool" where
  "runtime_ok rt \<longleftrightarrow>
     (\<forall>rs. mset (rt_sort rt rs) = mset rs \<and> sorted_wrt (\<lambda>a b. rc_Time a \<le> rc_Time b) (rt_sort rt rs)) \<and>
     (\<forall>m. finite (dom m) \<longrightarrow> set (rt_keys rt m) = dom m) \<and>
     (\<forall>k n. 0 < n \<longrightarrow> rt_rand rt k n < n)"

section \<open>Speeds and tickets\<close>

text \<open>\<open>U16(x)\<close>.\<close>

definition floatToU16 :: "Runtime \<Rightarrow> f64 \<Rightarrow> U16" where
  "floatToU16 rt x =
     (case x of
        Fin r \<Rightarrow> if 0 \<le> truncRat r \<and> truncRat r < 65536 then word_of_int (truncRat r) else rt_toU16 rt x
      | _ \<Rightarrow> rt_toU16 rt x)"

definition CalculateSpeed :: "Runtime \<Rightarrow> Record \<Rightarrow> Record \<Rightarrow> U16" where
  "CalculateSpeed rt r1 r2 =
     (let distance = floatOfInt (uint (rc_Mile r2)) - floatOfInt (uint (rc_Mile r1));
          timeHours = (floatOfInt (uint (rc_Time r2)) - floatOfInt (uint (rc_Time r1))) / floatOfInt 3600;
          speedMph = distance / timeHours;
          speedHundredths = \<bar>speedMph * floatOfInt 100\<bar>
      in floatToU16 rt speedHundredths)"

text \<open>The values of \<open>i\<close> in \<open>for i := startDay; i <= endDay; i++\<close>; days are far below the wrap.\<close>

definition dayRange :: "U32 \<Rightarrow> U32 \<Rightarrow> U32 list" where
  "dayRange startDay endDay = map word_of_nat [unat startDay..<Suc (unat endDay)]"

definition ticketDays :: "U32 \<Rightarrow> U32 \<Rightarrow> U32 list" where
  "ticketDays t1 t2 = dayRange (t1 div 86400) (t2 div 86400)"

definition generateTicket ::
  "Runtime \<Rightarrow> CentralDispatcher \<Rightarrow> Str \<Rightarrow> U16 \<Rightarrow> Record \<Rightarrow> Record \<Rightarrow> U16 \<Rightarrow> CentralDispatcher" where
  "generateTicket rt cd license road r1 r2 speed =
     (if \<exists>i\<in>set (ticketDays (rc_Time r1) (rc_Time r2)). i \<in> set (cd_Tickets cd license) then cd
      else
        (let dispatchers = cd_Dispatchers cd road in
         if length dispatchers = 0 then cd
         else
           (let ticket = \<lparr>tk_Plate = license, tk_Road = road, tk_MileOne = rc_Mile r1, tk_TimeStampOne = rc_Time r1,
                          tk_MileTwo = rc_Mile r2, tk_TimeStampTwo = rc_Time r2, tk_Speed = speed\<rparr>;
                random = rt_rand rt (length (cd_Sent cd)) (length dispatchers)
            in cd\<lparr>cd_Sent := cd_Sent cd @ [(dispatchers ! random, ticket)],
                  cd_Tickets := (cd_Tickets cd)
                    (license := cd_Tickets cd license @ ticketDays (rc_Time r1) (rc_Time r2))\<rparr>)))"

text \<open>The loop of \<open>calculateTickets\<close>, on consecutive records.\<close>

fun ticketLoop :: "Runtime \<Rightarrow> U16 \<Rightarrow> Str \<Rightarrow> U16 \<Rightarrow> Record list \<Rightarrow> CentralDispatcher \<Rightarrow> CentralDispatcher" where
  "ticketLoop rt road license speedLimit (lastRecord # currentRecord # rs) cd =
     (let speed = CalculateSpeed rt lastRecord currentRecord;
          cd1 = (if speed > speedLimit then generateTicket rt cd license road lastRecord currentRecord speed else cd)
      in ticketLoop rt road license speedLimit (currentRecord # rs) cd1)"
| "ticketLoop rt road license speedLimit rs cd = cd"

definition calculateTickets :: "Runtime \<Rightarrow> U16 \<Rightarrow> Str \<Rightarrow> Record list \<Rightarrow> CentralDispatcher \<Rightarrow> CentralDispatcher" where
  "calculateTickets rt road license licenseRecords cd =
     ticketLoop rt road license (cd_SpeedLimits cd road * 100) licenseRecords cd"

section \<open>Processing the queue\<close>

fun addDispatcher :: "nat \<Rightarrow> U16 list \<Rightarrow> CentralDispatcher \<Rightarrow> CentralDispatcher" where
  "addDispatcher ch [] cd = cd"
| "addDispatcher ch (road # roads) cd =
     addDispatcher ch roads (cd\<lparr>cd_Dispatchers := (cd_Dispatchers cd)(road := cd_Dispatchers cd road @ [ch])\<rparr>)"

text \<open>The two nested loops over the roads and the licenses recorded on each.\<close>

fun recheckLicenses :: "Runtime \<Rightarrow> U16 \<Rightarrow> (Str \<Rightarrow> Record list option) \<Rightarrow> Str list \<Rightarrow> CentralDispatcher \<Rightarrow> CentralDispatcher" where
  "recheckLicenses rt road m [] cd = cd"
| "recheckLicenses rt road m (license # licenses) cd =
     recheckLicenses rt road m licenses (calculateTickets rt road license (the (m license)) cd)"

fun recheckRoads :: "Runtime \<Rightarrow> U16 list \<Rightarrow> CentralDispatcher \<Rightarrow> CentralDispatcher" where
  "recheckRoads rt [] cd = cd"
| "recheckRoads rt (road # roads) cd =
     recheckRoads rt roads
       (case cd_Records cd road of
          None \<Rightarrow> cd
        | Some m \<Rightarrow> recheckLicenses rt road m (rt_keys rt m) cd)"

fun Process :: "Runtime \<Rightarrow> Message \<Rightarrow> CentralDispatcher \<Rightarrow> CentralDispatcher" where
  "Process rt (RegisterDispatcher roads ch) cd = recheckRoads rt roads (addDispatcher ch roads cd)"
| "Process rt (RegisterCamera road limit) cd =
     cd\<lparr>cd_SpeedLimits := (cd_SpeedLimits cd)(road := limit),
        cd_Records := (case cd_Records cd road of
                         None \<Rightarrow> (cd_Records cd)(road \<mapsto> (\<lambda>_. None))
                       | Some m \<Rightarrow> cd_Records cd)\<rparr>"
| "Process rt (Observation road license mile timestamp) cd =
     (case cd_Records cd road of
        None \<Rightarrow> cd
      | Some roadRecords \<Rightarrow>
          let licenseRecords = (case roadRecords license of None \<Rightarrow> [] | Some rs \<Rightarrow> rs);
              sorted = rt_sort rt (licenseRecords @ [\<lparr>rc_Mile = mile, rc_Time = timestamp\<rparr>])
          in calculateTickets rt road license sorted
               (cd\<lparr>cd_Records := (cd_Records cd)(road \<mapsto> roadRecords(license \<mapsto> sorted))\<rparr>))"

text \<open>\<open>Start\<close>: the queue in order.\<close>

fun Start :: "Runtime \<Rightarrow> Message list \<Rightarrow> CentralDispatcher \<Rightarrow> CentralDispatcher" where
  "Start rt [] cd = cd"
| "Start rt (msg # queue) cd = Start rt queue (Process rt msg cd)"

section \<open>Days of a ticket\<close>

lemma distinct_dayRange: "distinct (dayRange a b)"
proof -
  have "inj_on (word_of_nat :: nat \<Rightarrow> U32) {unat a..<Suc (unat b)}"
  proof (rule inj_onI)
    fix x y assume "x \<in> {unat a..<Suc (unat b)}" "y \<in> {unat a..<Suc (unat b)}" "(word_of_nat x :: U32) = word_of_nat y"
    moreover have "unat b < 2 ^ 32" using unsigned_less[of b, where ?'a = nat] by simp
    ultimately show "x = y" by (simp add: word_of_nat_eq_iff take_bit_nat_eq_self)
  qed
  then show ?thesis by (simp add: dayRange_def distinct_map del: upt_Suc)
qed

lemma ticketDays_ne: "t1 \<le> t2 \<Longrightarrow> ticketDays t1 t2 \<noteq> []"
proof -
  assume "t1 \<le> t2"
  then have "unat t1 \<le> unat t2" by (simp add: word_le_nat_alt)
  then have "unat (t1 div 86400) \<le> unat (t2 div 86400)" by (simp add: unat_div div_le_mono)
  then show ?thesis by (simp add: ticketDays_def dayRange_def)
qed

section \<open>What the dispatcher knows comes from its queue\<close>

definition records_sorted :: "Record list \<Rightarrow> bool" where
  "records_sorted = sorted_wrt (\<lambda>a b. rc_Time a \<le> rc_Time b)"

text \<open>A ticket is justified by two observations, a camera and a dispatcher of the queue.\<close>

definition justified :: "Runtime \<Rightarrow> Message list \<Rightarrow> nat \<Rightarrow> TicketMessage \<Rightarrow> bool" where
  "justified rt msgs ch t \<longleftrightarrow>
     Observation (tk_Road t) (tk_Plate t) (tk_MileOne t) (tk_TimeStampOne t) \<in> set msgs \<and>
     Observation (tk_Road t) (tk_Plate t) (tk_MileTwo t) (tk_TimeStampTwo t) \<in> set msgs \<and>
     tk_TimeStampOne t \<le> tk_TimeStampTwo t \<and>
     (\<exists>roads. RegisterDispatcher roads ch \<in> set msgs \<and> tk_Road t \<in> set roads) \<and>
     tk_Speed t = CalculateSpeed rt \<lparr>rc_Mile = tk_MileOne t, rc_Time = tk_TimeStampOne t\<rparr>
                                    \<lparr>rc_Mile = tk_MileTwo t, rc_Time = tk_TimeStampTwo t\<rparr> \<and>
     (\<exists>limit. RegisterCamera (tk_Road t) limit \<in> set msgs \<and> limit * 100 < tk_Speed t)"

definition daysOf :: "nat \<times> TicketMessage \<Rightarrow> U32 list" where
  "daysOf p = ticketDays (tk_TimeStampOne (snd p)) (tk_TimeStampTwo (snd p))"

definition ticketsFor :: "Str \<Rightarrow> (nat \<times> TicketMessage) list \<Rightarrow> (nat \<times> TicketMessage) list" where
  "ticketsFor plate sent = filter (\<lambda>p. tk_Plate (snd p) = plate) sent"

definition recorded_ok :: "Message list \<Rightarrow> CentralDispatcher \<Rightarrow> bool" where
  "recorded_ok msgs cd \<longleftrightarrow>
     (\<forall>road m. cd_Records cd road = Some m \<longrightarrow>
        finite (dom m) \<and> RegisterCamera road (cd_SpeedLimits cd road) \<in> set msgs \<and>
        (\<forall>license rs. m license = Some rs \<longrightarrow>
           records_sorted rs \<and> (\<forall>r\<in>set rs. Observation road license (rc_Mile r) (rc_Time r) \<in> set msgs)))"

definition registered_ok :: "Message list \<Rightarrow> CentralDispatcher \<Rightarrow> bool" where
  "registered_ok msgs cd \<longleftrightarrow>
     (\<forall>road. \<forall>ch\<in>set (cd_Dispatchers cd road). \<exists>roads. RegisterDispatcher roads ch \<in> set msgs \<and> road \<in> set roads)"

definition records_ok :: "Message list \<Rightarrow> CentralDispatcher \<Rightarrow> bool" where
  "records_ok msgs cd \<longleftrightarrow> recorded_ok msgs cd \<and> registered_ok msgs cd"

lemma recorded_ok_mono: "recorded_ok msgs cd \<Longrightarrow> recorded_ok (msgs @ ms) cd"
  unfolding recorded_ok_def by (metis Un_iff set_append)

lemma registered_ok_mono: "registered_ok msgs cd \<Longrightarrow> registered_ok (msgs @ ms) cd"
  unfolding registered_ok_def by (metis Un_iff set_append)

definition tickets_ok :: "Runtime \<Rightarrow> Message list \<Rightarrow> CentralDispatcher \<Rightarrow> bool" where
  "tickets_ok rt msgs cd \<longleftrightarrow>
     (\<forall>(ch, t)\<in>set (cd_Sent cd). justified rt msgs ch t) \<and>
     (\<forall>plate. cd_Tickets cd plate = concat (map daysOf (ticketsFor plate (cd_Sent cd)))) \<and>
     (\<forall>plate. distinct (cd_Tickets cd plate))"

definition dispatcher_ok :: "Runtime \<Rightarrow> Message list \<Rightarrow> CentralDispatcher \<Rightarrow> bool" where
  "dispatcher_ok rt msgs cd \<longleftrightarrow> records_ok msgs cd \<and> tickets_ok rt msgs cd"

lemma tickets_ok_cong:
  "cd_Sent cd' = cd_Sent cd \<Longrightarrow> cd_Tickets cd' = cd_Tickets cd \<Longrightarrow> tickets_ok rt msgs cd' = tickets_ok rt msgs cd"
  by (simp only: tickets_ok_def)

text \<open>Issuing tickets changes neither records nor registrations.\<close>

definition frame :: "CentralDispatcher \<Rightarrow> CentralDispatcher \<Rightarrow> bool" where
  "frame cd cd' \<longleftrightarrow>
     cd_Records cd' = cd_Records cd \<and> cd_Dispatchers cd' = cd_Dispatchers cd \<and> cd_SpeedLimits cd' = cd_SpeedLimits cd \<and>
     (\<forall>p. set (cd_Tickets cd p) \<subseteq> set (cd_Tickets cd' p)) \<and> (\<exists>more. cd_Sent cd' = cd_Sent cd @ more)"

lemma frame_refl [simp]: "frame cd cd"
  by (simp add: frame_def)

lemma frame_trans: "frame a b \<Longrightarrow> frame b c \<Longrightarrow> frame a c"
  by (auto simp: frame_def)

lemma records_ok_frame: "frame cd cd' \<Longrightarrow> records_ok msgs cd' = records_ok msgs cd"
  by (simp add: records_ok_def recorded_ok_def registered_ok_def frame_def)

lemma generateTicket_frame: "frame cd (generateTicket rt cd license road r1 r2 speed)"
  by (auto simp: generateTicket_def frame_def Let_def)

lemma ticketLoop_frame: "frame cd (ticketLoop rt road license bnd rs cd)"
proof (induction rt road license bnd rs cd rule: ticketLoop.induct)
  case (1 rt road license bnd a b rs cd)
  let ?cd1 = "if CalculateSpeed rt a b > bnd then generateTicket rt cd license road a b (CalculateSpeed rt a b) else cd"
  have "frame cd ?cd1" using generateTicket_frame by simp
  moreover have "frame ?cd1 (ticketLoop rt road license bnd (b # rs) ?cd1)" by (rule "1.IH"[OF refl refl])
  ultimately have "frame cd (ticketLoop rt road license bnd (b # rs) ?cd1)" by (rule frame_trans)
  then show ?case unfolding ticketLoop.simps Let_def .
qed simp_all

lemma calculateTickets_frame: "frame cd (calculateTickets rt road license rs cd)"
  by (simp add: calculateTickets_def ticketLoop_frame)

lemma recheckLicenses_frame: "frame cd (recheckLicenses rt road m ls cd)"
proof (induction ls arbitrary: cd)
  case (Cons l ls)
  show ?case by simp (rule frame_trans[OF calculateTickets_frame Cons.IH])
qed simp

section \<open>Issuing a ticket\<close>

lemma generateTicket_ok:
  assumes ok: "tickets_ok rt msgs cd" and reg: "records_ok msgs cd" and rt: "runtime_ok rt"
    and obs: "Observation road license (rc_Mile r1) (rc_Time r1) \<in> set msgs"
      "Observation road license (rc_Mile r2) (rc_Time r2) \<in> set msgs" "rc_Time r1 \<le> rc_Time r2"
    and lim: "RegisterCamera road limit \<in> set msgs" "limit * 100 < CalculateSpeed rt r1 r2"
  shows "tickets_ok rt msgs (generateTicket rt cd license road r1 r2 (CalculateSpeed rt r1 r2))"
proof (cases "(\<exists>i\<in>set (ticketDays (rc_Time r1) (rc_Time r2)). i \<in> set (cd_Tickets cd license)) \<or> cd_Dispatchers cd road = []")
  case True
  then show ?thesis using ok by (auto simp: generateTicket_def Let_def)
next
  case False
  let ?ds = "cd_Dispatchers cd road"
  let ?ch = "?ds ! rt_rand rt (length (cd_Sent cd)) (length ?ds)"
  let ?t = "\<lparr>tk_Plate = license, tk_Road = road, tk_MileOne = rc_Mile r1, tk_TimeStampOne = rc_Time r1,
             tk_MileTwo = rc_Mile r2, tk_TimeStampTwo = rc_Time r2, tk_Speed = CalculateSpeed rt r1 r2\<rparr>"
  let ?days = "ticketDays (rc_Time r1) (rc_Time r2)"
  let ?cd = "cd\<lparr>cd_Sent := cd_Sent cd @ [(?ch, ?t)], cd_Tickets := (cd_Tickets cd)(license := cd_Tickets cd license @ ?days)\<rparr>"
  have gen: "generateTicket rt cd license road r1 r2 (CalculateSpeed rt r1 r2) = ?cd"
    using False by (auto simp: generateTicket_def Let_def)
  have "?ch \<in> set ?ds" using False rt by (intro nth_mem) (auto simp: runtime_ok_def)
  then have "\<exists>roads. RegisterDispatcher roads ?ch \<in> set msgs \<and> road \<in> set roads" using reg by (auto simp: records_ok_def registered_ok_def)
  moreover have eta: "\<lparr>rc_Mile = rc_Mile r, rc_Time = rc_Time r\<rparr> = r" for r by (cases r) simp
  ultimately have "justified rt msgs ?ch ?t" using obs lim unfolding justified_def by (auto simp: eta)
  moreover have "distinct (cd_Tickets cd license)" using ok unfolding tickets_ok_def by blast
  then have "distinct (cd_Tickets cd license @ ?days)" using False distinct_dayRange by (auto simp: ticketDays_def)
  moreover have "cd_Tickets cd p = concat (map daysOf (ticketsFor p (cd_Sent cd)))" "distinct (cd_Tickets cd p)" for p
    using ok unfolding tickets_ok_def by blast+
  note tk = this
  have "cd_Tickets ?cd p = concat (map daysOf (ticketsFor p (cd_Sent ?cd)))" for p
    using tk(1)[of p] tk(1)[of license] by (simp add: ticketsFor_def daysOf_def)
  moreover have "distinct (cd_Tickets ?cd p)" for p
    using calculation(2) tk(2)[of p] by (cases "p = license") simp_all
  moreover have "\<forall>(ch, t)\<in>set (cd_Sent cd). justified rt msgs ch t" using ok unfolding tickets_ok_def by blast
  ultimately show ?thesis unfolding gen tickets_ok_def by simp
qed

lemma ticketLoop_ok:
  assumes "runtime_ok rt" "RegisterCamera road limit \<in> set msgs"
  shows "tickets_ok rt msgs cd \<Longrightarrow> records_ok msgs cd \<Longrightarrow> records_sorted rs \<Longrightarrow>
    \<forall>r\<in>set rs. Observation road license (rc_Mile r) (rc_Time r) \<in> set msgs \<Longrightarrow>
    tickets_ok rt msgs (ticketLoop rt road license (limit * 100) rs cd)"
proof (induction rs arbitrary: cd rule: induct_list012)
  case (3 a b rs)
  let ?cd1 = "if CalculateSpeed rt a b > limit * 100 then generateTicket rt cd license road a b (CalculateSpeed rt a b) else cd"
  have "rc_Time a \<le> rc_Time b" "records_sorted (b # rs)" using "3.prems"(3) by (auto simp: records_sorted_def)
  then have t: "tickets_ok rt msgs ?cd1"
    using "3.prems" assms generateTicket_ok[OF "3.prems"(1,2) assms(1)] by simp
  have "frame cd ?cd1" using generateTicket_frame by simp
  then have r: "records_ok msgs ?cd1" using "3.prems"(2) by (simp add: records_ok_frame)
  show ?case using "3.IH"(2)[OF t r \<open>records_sorted (b # rs)\<close>] "3.prems"(4) by (simp add: Let_def)
qed simp_all

section \<open>Every over-limit pair is covered\<close>

text \<open>Consecutive records of a list.\<close>

fun consecutive :: "'a list \<Rightarrow> ('a \<times> 'a) list" where
  "consecutive (a # b # rs) = (a, b) # consecutive (b # rs)"
| "consecutive rs = []"

definition covered :: "CentralDispatcher \<Rightarrow> Str \<Rightarrow> Record \<Rightarrow> Record \<Rightarrow> bool" where
  "covered cd license a b \<longleftrightarrow> (\<exists>d\<in>set (ticketDays (rc_Time a) (rc_Time b)). d \<in> set (cd_Tickets cd license))"

lemma covered_frame: "frame cd cd' \<Longrightarrow> covered cd license a b \<Longrightarrow> covered cd' license a b"
  by (auto simp: covered_def frame_def)

lemma generateTicket_covers:
  assumes "cd_Dispatchers cd road \<noteq> []" "rc_Time a \<le> rc_Time b"
  shows "covered (generateTicket rt cd license road a b speed) license a b"
  using assms ticketDays_ne[OF assms(2)]
  by (cases "ticketDays (rc_Time a) (rc_Time b)") (auto simp: generateTicket_def covered_def Let_def)

lemma ticketLoop_covers:
  "cd_Dispatchers cd road \<noteq> [] \<Longrightarrow> records_sorted rs \<Longrightarrow>
   \<forall>(a, b)\<in>set (consecutive rs). CalculateSpeed rt a b > bnd \<longrightarrow> covered (ticketLoop rt road license bnd rs cd) license a b"
proof (induction rs arbitrary: cd rule: induct_list012)
  case (3 a b rs)
  let ?cd1 = "if CalculateSpeed rt a b > bnd then generateTicket rt cd license road a b (CalculateSpeed rt a b) else cd"
  have s: "rc_Time a \<le> rc_Time b" "records_sorted (b # rs)" using "3.prems"(2) by (auto simp: records_sorted_def)
  have "frame cd ?cd1" using generateTicket_frame by simp
  then have d: "cd_Dispatchers ?cd1 road \<noteq> []" using "3.prems"(1) by (simp add: frame_def)
  have "covered (ticketLoop rt road license bnd (b # rs) ?cd1) license a b" if "CalculateSpeed rt a b > bnd"
    using covered_frame[OF ticketLoop_frame] generateTicket_covers[OF "3.prems"(1) s(1)] that by simp
  with "3.IH"(2)[OF d s(2)] show ?case by (auto simp: Let_def)
qed simp_all

text \<open>In a consistent state the days marked are those of the tickets sent.\<close>

definition ticketed :: "(nat \<times> TicketMessage) list \<Rightarrow> Str \<Rightarrow> Record \<Rightarrow> Record \<Rightarrow> bool" where
  "ticketed sent license a b \<longleftrightarrow>
     (\<exists>p\<in>set (ticketsFor license sent). \<exists>d\<in>set (ticketDays (rc_Time a) (rc_Time b)). d \<in> set (daysOf p))"

lemma covered_ticketed:
  assumes "tickets_ok rt msgs cd"
  shows "covered cd license a b \<longleftrightarrow> ticketed (cd_Sent cd) license a b"
proof -
  have "cd_Tickets cd license = concat (map daysOf (ticketsFor license (cd_Sent cd)))"
    using assms by (simp add: tickets_ok_def)
  then show ?thesis by (auto simp: covered_def ticketed_def)
qed

text \<open>The tickets sent by a call go to dispatchers of their road.\<close>

definition issues :: "U16 set \<Rightarrow> Str set \<Rightarrow> CentralDispatcher \<Rightarrow> CentralDispatcher \<Rightarrow> bool" where
  "issues roads plates cd cd' \<longleftrightarrow>
     (\<exists>issued. cd_Sent cd' = cd_Sent cd @ issued \<and>
        (\<forall>(ch, t)\<in>set issued. tk_Road t \<in> roads \<and> tk_Plate t \<in> plates \<and> ch \<in> set (cd_Dispatchers cd (tk_Road t))))"

lemma issues_refl [simp]: "issues roads plates cd cd"
  by (simp add: issues_def)

lemma issues_trans:
  assumes "frame a b" "issues roads plates a b" "issues roads plates b c"
  shows "issues roads plates a c"
proof -
  obtain x y where "cd_Sent b = cd_Sent a @ x" "cd_Sent c = cd_Sent b @ y"
    "\<forall>(ch, t)\<in>set x. tk_Road t \<in> roads \<and> tk_Plate t \<in> plates \<and> ch \<in> set (cd_Dispatchers a (tk_Road t))"
    "\<forall>(ch, t)\<in>set y. tk_Road t \<in> roads \<and> tk_Plate t \<in> plates \<and> ch \<in> set (cd_Dispatchers a (tk_Road t))"
    using assms by (auto simp: issues_def frame_def)
  then show ?thesis unfolding issues_def by (intro exI[of _ "x @ y"]) auto
qed

lemma issues_mono: "issues R P cd cd' \<Longrightarrow> R \<subseteq> R' \<Longrightarrow> P \<subseteq> P' \<Longrightarrow> issues R' P' cd cd'"
  unfolding issues_def by fast

lemma generateTicket_issues:
  assumes "runtime_ok rt"
  shows "issues {road} {license} cd (generateTicket rt cd license road a b speed)"
proof -
  have "cd_Dispatchers cd road ! rt_rand rt (length (cd_Sent cd)) (length (cd_Dispatchers cd road)) \<in> set (cd_Dispatchers cd road)"
    if "cd_Dispatchers cd road \<noteq> []"
    using assms that by (intro nth_mem) (simp add: runtime_ok_def)
  then show ?thesis by (auto simp: generateTicket_def issues_def Let_def)
qed

lemma ticketLoop_issues:
  assumes rt: "runtime_ok rt"
  shows "issues {road} {license} cd (ticketLoop rt road license bnd rs cd)"
proof (induction rs arbitrary: cd rule: induct_list012)
  case (3 a b rs)
  let ?cd1 = "if CalculateSpeed rt a b > bnd then generateTicket rt cd license road a b (CalculateSpeed rt a b) else cd"
  have "frame cd ?cd1" "issues {road} {license} cd ?cd1" using generateTicket_frame generateTicket_issues[OF rt] by simp_all
  from issues_trans[OF this "3.IH"(2)[of ?cd1]] show ?case by (simp add: Let_def)
qed simp_all

lemma calculateTickets_issues: "runtime_ok rt \<Longrightarrow> issues {road} {license} cd (calculateTickets rt road license rs cd)"
  unfolding calculateTickets_def by (rule ticketLoop_issues)

lemma recheckLicenses_issues:
  assumes rt: "runtime_ok rt"
  shows "issues {road} UNIV cd (recheckLicenses rt road m ls cd)"
proof (induction ls arbitrary: cd)
  case (Cons l ls)
  let ?cd = "calculateTickets rt road l (the (m l)) cd"
  have "issues {road} UNIV cd ?cd" by (rule issues_mono[OF calculateTickets_issues[OF rt, of road l]]) simp_all
  from issues_trans[OF calculateTickets_frame this Cons.IH] show ?case by simp
qed simp

section \<open>Processing keeps the invariant\<close>

lemma justified_mono: "justified rt msgs ch t \<Longrightarrow> justified rt (msgs @ ms) ch t"
  by (auto simp: justified_def)

lemma tickets_ok_mono: "tickets_ok rt msgs cd \<Longrightarrow> tickets_ok rt (msgs @ ms) cd"
  unfolding tickets_ok_def using justified_mono by (auto 0 3)

lemma calculateTickets_ok:
  assumes rt: "runtime_ok rt" and ok: "tickets_ok rt msgs cd" "records_ok msgs cd"
    and m: "cd_Records cd road = Some m" "m license = Some rs"
  shows "tickets_ok rt msgs (calculateTickets rt road license rs cd)"
proof -
  have "RegisterCamera road (cd_SpeedLimits cd road) \<in> set msgs" "records_sorted rs"
    "\<forall>r\<in>set rs. Observation road license (rc_Mile r) (rc_Time r) \<in> set msgs"
    using ok(2) m by (auto simp: records_ok_def recorded_ok_def)
  then show ?thesis unfolding calculateTickets_def by (intro ticketLoop_ok[OF rt _ ok])
qed

lemma recheckLicenses_ok:
  assumes rt: "runtime_ok rt"
  shows "tickets_ok rt msgs cd \<Longrightarrow> records_ok msgs cd \<Longrightarrow> cd_Records cd road = Some m \<Longrightarrow> set ls \<subseteq> dom m \<Longrightarrow>
    tickets_ok rt msgs (recheckLicenses rt road m ls cd)"
proof (induction ls arbitrary: cd)
  case (Cons l ls)
  obtain rs where rs: "m l = Some rs" using Cons.prems(4) by auto
  let ?cd = "calculateTickets rt road l rs cd"
  have "tickets_ok rt msgs ?cd" by (rule calculateTickets_ok[OF rt Cons.prems(1-3) rs])
  moreover have "frame cd ?cd" by (rule calculateTickets_frame)
  then have "records_ok msgs ?cd" "cd_Records ?cd road = Some m"
    using Cons.prems by (simp_all add: records_ok_frame) (simp add: frame_def)
  ultimately show ?case using Cons rs by simp
qed simp

lemma recheckRoads_frame: "frame cd (recheckRoads rt roads cd)"
proof (induction roads arbitrary: cd)
  case (Cons road roads)
  then show ?case using frame_trans recheckLicenses_frame by (cases "cd_Records cd road") fastforce+
qed simp

lemma recheckRoads_ok:
  assumes rt: "runtime_ok rt"
  shows "tickets_ok rt msgs cd \<Longrightarrow> records_ok msgs cd \<Longrightarrow> tickets_ok rt msgs (recheckRoads rt roads cd)"
proof (induction roads arbitrary: cd)
  case (Cons road roads)
  show ?case
  proof (cases "cd_Records cd road")
    case None
    then show ?thesis using Cons by simp
  next
    case (Some m)
    then have "finite (dom m)" using Cons.prems(2) by (auto simp: records_ok_def recorded_ok_def)
    then have k: "set (rt_keys rt m) \<subseteq> dom m" using rt by (simp add: runtime_ok_def)
    let ?cd = "recheckLicenses rt road m (rt_keys rt m) cd"
    have "tickets_ok rt msgs ?cd" by (rule recheckLicenses_ok[OF rt Cons.prems Some k])
    moreover have "records_ok msgs ?cd" using Cons.prems(2) by (simp add: records_ok_frame[OF recheckLicenses_frame])
    ultimately show ?thesis using Cons.IH Some by simp
  qed
qed simp

lemma recheckRoads_issues:
  assumes rt: "runtime_ok rt"
  shows "issues (set roads) UNIV cd (recheckRoads rt roads cd)"
proof (induction roads arbitrary: cd)
  case (Cons r roads)
  let ?cd = "case cd_Records cd r of None \<Rightarrow> cd | Some m \<Rightarrow> recheckLicenses rt r m (rt_keys rt m) cd"
  have f: "frame cd ?cd" using recheckLicenses_frame by (simp split: option.split)
  have "issues (set (r # roads)) UNIV cd ?cd"
    by (rule issues_mono[of "{r}" UNIV]) (simp_all add: recheckLicenses_issues[OF rt] split: option.split)
  from issues_trans[OF f this issues_mono[OF Cons.IH]] show ?case by force
qed simp

lemma addDispatcher_eq:
  "addDispatcher ch roads cd =
   cd\<lparr>cd_Dispatchers := (\<lambda>road. cd_Dispatchers cd road @ replicate (count_list roads road) ch)\<rparr>"
proof (induction roads arbitrary: cd)
  case (Cons r roads)
  then show ?case by (auto simp: fun_eq_iff replicate_append_same intro!: CentralDispatcher.equality)
qed simp

lemma addDispatcher_set:
  "x \<in> set (cd_Dispatchers (addDispatcher ch roads cd) road) \<longleftrightarrow>
   x \<in> set (cd_Dispatchers cd road) \<or> x = ch \<and> road \<in> set roads"
  by (induction roads arbitrary: cd) auto

lemma Process_ok:
  assumes rt: "runtime_ok rt" and ok: "dispatcher_ok rt msgs cd"
  shows "dispatcher_ok rt (msgs @ [msg]) (Process rt msg cd)"
proof -
  have t0: "tickets_ok rt (msgs @ [msg]) cd" using ok by (simp add: dispatcher_ok_def tickets_ok_mono)
  have rec0: "recorded_ok (msgs @ [msg]) cd" and reg0: "registered_ok (msgs @ [msg]) cd"
    using ok by (simp_all add: dispatcher_ok_def records_ok_def recorded_ok_mono registered_ok_mono)
  show ?thesis
  proof (cases msg)
    case (RegisterDispatcher roads ch)
    let ?cd = "addDispatcher ch roads cd"
    have "registered_ok (msgs @ [msg]) ?cd"
      using reg0 unfolding registered_ok_def RegisterDispatcher
      by (auto simp: addDispatcher_set)
    with rec0 have r: "records_ok (msgs @ [msg]) ?cd"
      by (simp add: records_ok_def recorded_ok_def addDispatcher_eq)
    from t0 have t: "tickets_ok rt (msgs @ [msg]) ?cd"
      by (subst tickets_ok_cong[of _ cd]) (simp_all add: addDispatcher_eq)
    show ?thesis
      using recheckRoads_ok[OF rt t r] r RegisterDispatcher
      by (simp add: dispatcher_ok_def records_ok_frame[OF recheckRoads_frame])
  next
    case (RegisterCamera road limit)
    have "tickets_ok rt (msgs @ [msg]) (Process rt msg cd)" using t0 RegisterCamera
      by (subst tickets_ok_cong[of _ cd]) simp_all
    moreover have "registered_ok (msgs @ [msg]) (Process rt msg cd)" using reg0 RegisterCamera by (simp add: registered_ok_def)
    moreover have "recorded_ok (msgs @ [msg]) (Process rt msg cd)"
      using rec0 unfolding recorded_ok_def by (auto simp: RegisterCamera split: option.splits if_splits)
    ultimately show ?thesis by (simp add: dispatcher_ok_def records_ok_def)
  next
    case (Observation road license mile timestamp)
    show ?thesis
    proof (cases "cd_Records cd road")
      case None
      then have "Process rt msg cd = cd" using Observation by simp
      then show ?thesis using t0 rec0 reg0 by (simp add: dispatcher_ok_def records_ok_def)
    next
      case (Some m)
      let ?old = "case m license of None \<Rightarrow> [] | Some rs \<Rightarrow> rs"
      let ?rs = "rt_sort rt (?old @ [\<lparr>rc_Mile = mile, rc_Time = timestamp\<rparr>])"
      let ?m = "m(license \<mapsto> ?rs)"
      let ?cd = "cd\<lparr>cd_Records := (cd_Records cd)(road \<mapsto> ?m)\<rparr>"
      have "mset ?rs = mset (?old @ [\<lparr>rc_Mile = mile, rc_Time = timestamp\<rparr>])" and srt: "records_sorted ?rs"
        using rt by (simp_all add: runtime_ok_def records_sorted_def)
      then have set: "set ?rs = set ?old \<union> {\<lparr>rc_Mile = mile, rc_Time = timestamp\<rparr>}"
        by (metis list.set(1) list.simps(15) mset_eq_setD set_append)
      have old: "\<forall>r\<in>set ?old. Observation road license (rc_Mile r) (rc_Time r) \<in> set (msgs @ [msg])"
      proof (cases "m license")
        case None
        then show ?thesis by simp
      next
        case (Some rs)
        then show ?thesis using rec0 \<open>cd_Records cd road = Some m\<close> unfolding recorded_ok_def by (metis option.simps(5))
      qed
      then have new: "\<forall>r\<in>set ?rs. Observation road license (rc_Mile r) (rc_Time r) \<in> set (msgs @ [msg])"
        unfolding set using Observation by auto
      have fin: "finite (dom m)" "RegisterCamera road (cd_SpeedLimits cd road) \<in> set (msgs @ [msg])"
        using rec0 Some unfolding recorded_ok_def by blast+
      have "recorded_ok (msgs @ [msg]) ?cd"
        unfolding recorded_ok_def
      proof (intro allI impI)
        fix rd mm
        assume a: "cd_Records ?cd rd = Some mm"
        show "finite (dom mm) \<and> RegisterCamera rd (cd_SpeedLimits ?cd rd) \<in> set (msgs @ [msg]) \<and>
          (\<forall>l rs. mm l = Some rs \<longrightarrow> records_sorted rs \<and> (\<forall>r\<in>set rs. Observation rd l (rc_Mile r) (rc_Time r) \<in> set (msgs @ [msg])))"
        proof (cases "rd = road")
          case False
          then show ?thesis using a rec0 unfolding recorded_ok_def by simp
        next
          case True
          then have mm: "mm = ?m" using a by simp
          have "records_sorted rs \<and> (\<forall>r\<in>set rs. Observation rd l (rc_Mile r) (rc_Time r) \<in> set (msgs @ [msg]))"
            if "mm l = Some rs" for l rs
          proof (cases "l = license")
            case True
            then show ?thesis using that srt new mm \<open>rd = road\<close> by auto
          next
            case False
            then have "m l = Some rs" using that mm by simp
            then show ?thesis using rec0 Some \<open>rd = road\<close> unfolding recorded_ok_def by blast
          qed
          then show ?thesis using fin mm True by simp
        qed
      qed
      with reg0 have r: "records_ok (msgs @ [msg]) ?cd" by (simp add: records_ok_def registered_ok_def)
      from t0 have t: "tickets_ok rt (msgs @ [msg]) ?cd" by (subst tickets_ok_cong[of _ cd]) simp_all
      have "tickets_ok rt (msgs @ [msg]) (calculateTickets rt road license ?rs ?cd)"
        by (rule calculateTickets_ok[OF rt t r, where m = ?m]) simp_all
      with r Some Observation show ?thesis
        by (simp add: dispatcher_ok_def Let_def records_ok_frame[OF calculateTickets_frame])
    qed
  qed
qed

lemma Start_ok:
  assumes rt: "runtime_ok rt"
  shows "dispatcher_ok rt msgs cd \<Longrightarrow> dispatcher_ok rt (msgs @ queue) (Start rt queue cd)"
proof (induction queue arbitrary: msgs cd)
  case (Cons m queue)
  from Cons.IH[OF Process_ok[OF rt Cons.prems, of m]] show ?case by simp
qed simp

lemma new_ok: "dispatcher_ok rt [] NewCentralDispatcher"
  by (simp add: dispatcher_ok_def records_ok_def recorded_ok_def registered_ok_def tickets_ok_def ticketsFor_def
      NewCentralDispatcher_def)

lemma Start_new: "runtime_ok rt \<Longrightarrow> dispatcher_ok rt queue (Start rt queue NewCentralDispatcher)"
  using Start_ok[OF _ new_ok] by simp


section \<open>What the tickets guarantee\<close>

lemma concat_distinct_disjoint:
  assumes "distinct (concat (map f xs))" "i < length xs" "j < length xs" "i \<noteq> j"
  shows "set (f (xs ! i)) \<inter> set (f (xs ! j)) = {}"
  using assms
proof (induction xs arbitrary: i j)
  case (Cons x xs)
  have d: "set (f x) \<inter> set (f y) = {}" if "y \<in> set xs" for y using Cons.prems(1) that by auto
  show ?case
  proof (cases i; cases j)
    fix j' assume "i = 0" "j = Suc j'"
    then show ?thesis using d[of "xs ! j'"] Cons.prems by simp
  next
    fix i' assume "j = 0" "i = Suc i'"
    then show ?thesis using d[of "xs ! i'"] Cons.prems by auto
  next
    fix i' j' assume "i = Suc i'" "j = Suc j'"
    then show ?thesis using Cons by simp
  qed (use Cons.prems in simp)
qed simp

text \<open>C21: A car is never ticketed twice for one day: of the tickets issued while the dispatcher processes
  any queue, two different ones for the same plate span disjoint sets of days, and each spans at least
  one day.\<close>

theorem one_ticket_per_day:
  assumes "runtime_ok rt"
    and sent: "sent = ticketsFor plate (cd_Sent (Start rt queue NewCentralDispatcher))"
    and "i < length sent" "j < length sent" "i \<noteq> j"
  shows "set (daysOf (sent ! i)) \<inter> set (daysOf (sent ! j)) = {} \<and> daysOf (sent ! i) \<noteq> []"
proof -
  have ok: "tickets_ok rt queue (Start rt queue NewCentralDispatcher)"
    using Start_new[OF assms(1)] by (simp add: dispatcher_ok_def)
  then have "distinct (concat (map daysOf sent))"
    unfolding tickets_ok_def sent by metis
  moreover have "sent ! i \<in> set (cd_Sent (Start rt queue NewCentralDispatcher))"
    using nth_mem[OF assms(3)] by (auto simp: sent ticketsFor_def)
  then have "justified rt queue (fst (sent ! i)) (snd (sent ! i))" using ok unfolding tickets_ok_def by force
  then have "daysOf (sent ! i) \<noteq> []" by (simp add: justified_def daysOf_def ticketDays_ne)
  ultimately show ?thesis using concat_distinct_disjoint[OF _ assms(3-5)] by blast
qed

lemma sent_justified:
  "runtime_ok rt \<Longrightarrow> (ch, t) \<in> set (cd_Sent (Start rt queue NewCentralDispatcher)) \<Longrightarrow> justified rt queue ch t"
  using Start_new[of rt queue] unfolding dispatcher_ok_def tickets_ok_def by fast

text \<open>Every ticket the dispatcher sends is justified by the queue: the plate was observed at both places
  and times, in this order; the receiver registered for the road; and the speed printed on the ticket
  is the one computed from the two observations and exceeds a limit (in hundredths) some camera
  reported for the road.\<close>

theorem every_ticket_is_justified:
  assumes "runtime_ok rt" "(ch, t) \<in> set (cd_Sent (Start rt queue NewCentralDispatcher))"
  shows "justified rt queue ch t"
  using assms by (rule sent_justified)

lemma Start_append: "Start rt (q @ q') cd = Start rt q' (Start rt q cd)"
  by (induction q arbitrary: cd) auto

text \<open>C23: Where a dispatcher is known, an observation leads to the tickets that are due at once. After an observation on a road with a
  camera and a dispatcher, the car's records on the road contain it, and for every two consecutive ones whose speed is above the limit,
  as the code computes both (a 16-bit speed, and the limit times 100 in 16 bits, which wraps from 656 on), a ticket for the
  car that covers one of their days has been sent; the tickets sent by this observation are for this car and road, and go to dispatchers
  registered for the road.\<close>

theorem observation_leaves_nothing_uncovered:
  assumes "runtime_ok rt" and "cd = Start rt queue NewCentralDispatcher"
    and "cd_Records cd road = Some m" "cd_Dispatchers cd road \<noteq> []"
    and "cd' = Process rt (Observation road license mile timestamp) cd"
  shows "\<exists>m' rs issued. cd_Records cd' road = Some m' \<and> m' license = Some rs \<and>
    mset rs = mset (case m license of None \<Rightarrow> [] | Some old \<Rightarrow> old) + {#\<lparr>rc_Mile = mile, rc_Time = timestamp\<rparr>#} \<and> records_sorted rs \<and>
    (\<forall>(a, b)\<in>set (consecutive rs).
       CalculateSpeed rt a b > cd_SpeedLimits cd road * 100 \<longrightarrow> ticketed (cd_Sent cd') license a b) \<and>
    cd_Sent cd' = cd_Sent cd @ issued \<and>
    (\<forall>(ch, t)\<in>set issued. tk_Road t = road \<and> tk_Plate t = license \<and> ch \<in> set (cd_Dispatchers cd road))"
proof -
  let ?rs = "rt_sort rt ((case m license of None \<Rightarrow> [] | Some rs \<Rightarrow> rs) @ [\<lparr>rc_Mile = mile, rc_Time = timestamp\<rparr>])"
  let ?cd = "cd\<lparr>cd_Records := (cd_Records cd)(road \<mapsto> m(license \<mapsto> ?rs))\<rparr>"
  have cd': "cd' = calculateTickets rt road license ?rs ?cd" using assms(3,5) by (simp add: Let_def)
  have rs: "cd_Records cd' road = Some (m(license \<mapsto> ?rs))"
    using calculateTickets_frame[of ?cd rt road license ?rs] by (simp add: cd' frame_def)
  have sorted: "records_sorted ?rs" using assms(1) by (simp add: runtime_ok_def records_sorted_def)
  have perm: "mset ?rs = mset (case m license of None \<Rightarrow> [] | Some old \<Rightarrow> old) + {#\<lparr>rc_Mile = mile, rc_Time = timestamp\<rparr>#}"
    using assms(1) by (simp add: runtime_ok_def)
  have "cd' = Start rt (queue @ [Observation road license mile timestamp]) NewCentralDispatcher"
    using assms(2,5) by (simp only: Start_append Start.simps)
  then have "tickets_ok rt (queue @ [Observation road license mile timestamp]) cd'"
    using Start_new[OF assms(1)] by (simp only: dispatcher_ok_def)
  note ticketed = covered_ticketed[OF this]
  have cov: "\<forall>(a, b)\<in>set (consecutive ?rs). CalculateSpeed rt a b > cd_SpeedLimits cd road * 100 \<longrightarrow> ticketed (cd_Sent cd') license a b"
    using ticketLoop_covers[where cd = ?cd and road = road and rs = ?rs and rt = rt and license = license
        and bnd = "cd_SpeedLimits cd road * 100"] assms(4) sorted
    unfolding ticketed[symmetric] by (simp add: cd' calculateTickets_def)
  obtain issued where "cd_Sent cd' = cd_Sent cd @ issued"
    "\<forall>(ch, t)\<in>set issued. tk_Road t = road \<and> tk_Plate t = license \<and> ch \<in> set (cd_Dispatchers cd road)"
    using calculateTickets_issues[OF assms(1), of road license ?cd ?rs] unfolding cd' by (fastforce simp: issues_def)
  with rs sorted perm cov show ?thesis
    by (intro exI[of _ "m(license \<mapsto> ?rs)"] exI[of _ ?rs] exI[of _ issued]) simp
qed

section \<open>The accuracy of a speed\<close>

text \<open>Near an exact rational speed \<open>N / T\<close>, truncation gives the floor, or one less when the quotient is an integer.\<close>

lemma trunc_near:
  fixes N T :: int
  assumes T: "0 < T" "T < 2 ^ 32" and N: "0 \<le> N" and y: "0 \<le> y" "\<bar>y - of_int N / of_int T\<bar> < (1 :: rat) / 2 ^ 32"
  shows "truncRat y = N div T \<or> N mod T = 0 \<and> truncRat y = N div T - 1"
proof -
  have e: "(1 :: rat) / 2 ^ 32 \<le> 1 / of_int T"
  proof (rule divide_left_mono)
    show "(of_int T :: rat) \<le> 2 ^ 32" using T(2) by (metis of_int_less_iff of_int_numeral of_int_power order_less_imp_le)
  qed (use T in simp_all)
  have q: "(of_int N :: rat) / of_int T = of_int (N div T) + of_int (N mod T) / of_int T"
  proof -
    have "N = N div T * T + N mod T" by simp
    then have "(of_int N :: rat) = of_int (N div T) * of_int T + of_int (N mod T)"
      by (metis of_int_add of_int_mult)
    then show ?thesis using T(1) by (metis divide_add_eq_iff less_irrefl mult.commute nonzero_mult_div_cancel_left of_int_eq_0_iff add_divide_distrib nonzero_mult_div_cancel_right)
  qed
  have t: "truncRat y = \<lfloor>y\<rfloor>" using y(1) by (simp add: truncRat_def)
  show ?thesis
  proof (cases "N mod T = 0")
    case True
    then have "\<bar>y - of_int (N div T)\<bar> < 1" using y(2) q e by (simp add: order_less_le_trans)
    then have "\<lfloor>y\<rfloor> = N div T \<or> \<lfloor>y\<rfloor> = N div T - 1" by linarith
    with True t show ?thesis by simp
  next
    case False
    have "0 \<le> N mod T" "N mod T < T" using T(1) by simp_all
    with False have r: "1 \<le> N mod T" "N mod T \<le> T - 1" by linarith+
    have "1 / of_int T \<le> (of_int (N mod T) :: rat) / of_int T"
      using r(1) T(1) by (intro divide_right_mono) simp_all
    moreover have "(of_int (N mod T) :: rat) / of_int T \<le> (of_int T - 1) / of_int T"
    proof (rule divide_right_mono)
      show "(of_int (N mod T) :: rat) \<le> of_int T - 1" using r(2) by (metis of_int_1 of_int_diff of_int_le_iff)
    qed (use T(1) in simp)
    moreover have "(of_int T - 1) / (of_int T :: rat) = 1 - 1 / of_int T" using T(1) by (simp add: diff_divide_distrib)
    ultimately have "of_int (N div T) < y" "y < of_int (N div T) + 1" using y(2) q e by linarith+
    then have "\<lfloor>y\<rfloor> = N div T" by linarith
    with t show ?thesis by simp
  qed
qed

lemma relErr_range:
  assumes "relErr a x y" "a \<le> 1 / 2"
  shows "\<bar>x\<bar> / 2 \<le> \<bar>y\<bar>" "\<bar>y\<bar> \<le> 2 * \<bar>x\<bar>" "0 < x \<Longrightarrow> 0 < y"
proof -
  have "a * \<bar>x\<bar> \<le> 1 / 2 * \<bar>x\<bar>" using assms(2) by (rule mult_right_mono) simp
  then have d: "\<bar>y - x\<bar> \<le> \<bar>x\<bar> / 2" using assms(1) by (simp add: relErr_def)
  then show "\<bar>x\<bar> / 2 \<le> \<bar>y\<bar>" "\<bar>y\<bar> \<le> 2 * \<bar>x\<bar>" "0 < x \<Longrightarrow> 0 < y" by linarith+
qed

text \<open>The chain of float operations is within six units of relative rounding error of the exact speed.\<close>

lemma speed_chain:
  assumes d: "d \<noteq> 0" "\<bar>d\<bar> < 2 ^ 16" and T: "0 < T" "T < 2 ^ 32"
  shows "\<exists>y. (floatOfInt d / (floatOfInt T / floatOfInt 3600)) * floatOfInt 100 = Fin y \<and>
    relErr (6 / 2 ^ 53) (of_int d / (of_int T / 3600) * 100) y"
proof -
  let ?u = "(1 :: rat) / 2 ^ 53"
  let ?d = "of_int d :: rat" and ?t = "(of_int T :: rat) / 3600"
  have dr: "1 \<le> \<bar>?d\<bar>" "\<bar>?d\<bar> \<le> 2 ^ 16" and tr: "1 / 2 ^ 12 \<le> ?t" "?t \<le> 2 ^ 32"
    using assms by (simp_all flip: of_int_abs add: int_one_le_iff_zero_less)
  have ints: "floatOfInt d = Fin ?d" "floatOfInt T = Fin (of_int T)" "floatOfInt 3600 = Fin 3600" "floatOfInt 100 = Fin 100"
    using assms floatOfInt_exact[of d] floatOfInt_exact[of T] floatOfInt_exact[of 3600] floatOfInt_exact[of 100] by simp_all
  obtain y1 where y1: "roundF64 ?t = Fin y1" "relErr ?u ?t y1"
    using roundF64_relErr[of ?t] tr by (auto simp: abs_of_pos)
  have y1r: "1 / 2 ^ 13 \<le> y1" "y1 \<le> 2 ^ 33"
    using relErr_range[OF y1(2)] tr by simp_all
  have y1p: "0 < y1" using y1r(1) by (rule order_less_le_trans[rotated]) simp
  have "1 / 2 ^ 33 \<le> \<bar>?d\<bar> / y1" using dr(1) y1r(2) y1p by (intro frac_le) simp_all
  moreover have "\<bar>?d\<bar> / y1 \<le> 2 ^ 16 / (1 / 2 ^ 13)" using dr(2) y1r(1) by (intro frac_le) simp_all
  ultimately have x2: "1 / 2 ^ 33 \<le> \<bar>?d / y1\<bar>" "\<bar>?d / y1\<bar> \<le> 2 ^ 29" using y1p by simp_all
  obtain y2 where y2: "roundF64 (?d / y1) = Fin y2" "relErr ?u (?d / y1) y2"
    using roundF64_relErr[OF order_trans[OF _ x2(1)] order_trans[OF x2(2)]] by auto
  have x3: "1 / 2 ^ 100 \<le> \<bar>y2 * 100\<bar>" "\<bar>y2 * 100\<bar> \<le> 2 ^ 100"
    using relErr_range[OF y2(2)] x2 by (simp_all add: abs_mult)
  obtain y3 where y3: "roundF64 (y2 * 100) = Fin y3" "relErr ?u (y2 * 100) y3"
    using roundF64_relErr[OF x3] by auto
  have "relErr (2 * ?u) (?d / ?t) (?d / y1)" using y1(2) tr by (intro relErr_divide) simp_all
  then have "relErr (2 * ?u + ?u + 2 * ?u * ?u) (?d / ?t) y2" using y2(2) by (rule relErr_trans) simp
  then have "relErr (4 * ?u) (?d / ?t * 100) (y2 * 100)" by (intro relErr_mult) (erule relErr_mono, simp)
  then have "relErr (4 * ?u + ?u + 4 * ?u * ?u) (?d / ?t * 100) y3" using y3(2) by (rule relErr_trans) simp
  then have "relErr (6 / 2 ^ 53) (?d / ?t * 100) y3" by (rule relErr_mono) simp
  moreover have "(floatOfInt d / (floatOfInt T / floatOfInt 3600)) * floatOfInt 100 = Fin y3"
    using y1r(1) by (simp add: ints y1(1) y2(1) y3(1))
  ultimately show ?thesis by blast
qed

lemma speed_chain_zero:
  assumes "0 < T" "T < 2 ^ 32"
  shows "(floatOfInt 0 / (floatOfInt T / floatOfInt 3600)) * floatOfInt 100 = Fin 0"
proof -
  have i: "floatOfInt T = Fin (of_int T)" "floatOfInt 3600 = Fin 3600" "floatOfInt 100 = Fin 100" "floatOfInt 0 = Fin 0"
    using assms floatOfInt_exact[of T] floatOfInt_exact[of 3600] floatOfInt_exact[of 100] floatOfInt_exact[of 0] by simp_all
  have "1 / 2 ^ 100 \<le> (of_int T :: rat) / 3600"
    using assms by (simp_all add: int_one_le_iff_zero_less)
  moreover have "(of_int T :: rat) / 3600 \<le> 2 ^ 100" using assms by simp
  ultimately obtain y where "roundF64 (of_int T / 3600) = Fin y" "relErr (1 / 2 ^ 53) (of_int T / 3600) y"
    using roundF64_relErr[of "of_int T / 3600"] assms by auto
  moreover from this(2) have "y \<noteq> 0" using relErr_range(3) assms by fastforce
  ultimately show ?thesis by (simp add: i)
qed

lemma floatOfInt_diff:
  assumes "0 \<le> a" "a < 2 ^ 52" "0 \<le> b" "b < 2 ^ 52"
  shows "floatOfInt a - floatOfInt b = floatOfInt (a - b)"
proof -
  have "floatOfInt a = Fin (of_int a)" "floatOfInt b = Fin (of_int b)"
    using assms by (intro floatOfInt_exact; simp)+
  moreover have "roundF64 (of_int a + - of_int b) = floatOfInt (a - b)" by (simp add: floatOfInt_def)
  ultimately show ?thesis by (simp add: minus_f64_def)
qed

text \<open>C22: The speed printed on a ticket is the exact speed in hundredths of a mile per hour, rounded down, although it
  is computed in floating point; only when the exact value is a whole number can it be one less. (The exact
  value has to fit the 16-bit field and the times have to differ.)\<close>

theorem CalculateSpeed_accurate:
  assumes T: "T = uint (rc_Time r2) - uint (rc_Time r1)" "0 < T"
    and N: "N = \<bar>uint (rc_Mile r2) - uint (rc_Mile r1)\<bar> * 360000" "N div T < 65536"
  shows "uint (CalculateSpeed rt r1 r2) = N div T \<or> N mod T = 0 \<and> uint (CalculateSpeed rt r1 r2) = N div T - 1"
proof -
  let ?d = "uint (rc_Mile r2) - uint (rc_Mile r1)"
  have small: "uint (rc_Mile r) < 2 ^ 16" "uint (rc_Time r) < 2 ^ 32" "0 \<le> uint (rc_Mile r)" "0 \<le> uint (rc_Time r)" for r
    using uint_bounded[of "rc_Mile r"] uint_bounded[of "rc_Time r"] by simp_all
  have d16: "\<bar>?d\<bar> < 2 ^ 16" and T32: "T < 2 ^ 32" using small[of r1] small[of r2] T by (simp_all only: abs_less_iff) linarith+
  have speed: "CalculateSpeed rt r1 r2 =
      floatToU16 rt \<bar>(floatOfInt ?d / (floatOfInt T / floatOfInt 3600)) * floatOfInt 100\<bar>"
  proof -
    have "floatOfInt (uint (rc_Mile r2)) - floatOfInt (uint (rc_Mile r1)) = floatOfInt ?d"
      "floatOfInt (uint (rc_Time r2)) - floatOfInt (uint (rc_Time r1)) = floatOfInt T"
      using small[of r1] small[of r2] by (simp_all add: floatOfInt_diff T(1))
    then show ?thesis by (simp add: CalculateSpeed_def Let_def)
  qed
  obtain y where y: "(floatOfInt ?d / (floatOfInt T / floatOfInt 3600)) * floatOfInt 100 = Fin y"
      "relErr (6 / 2 ^ 53) (of_int ?d / (of_int T / 3600) * 100) y"
    using speed_chain[OF _ d16 T(2) T32] speed_chain_zero[OF T(2) T32] by (cases "?d = 0") (auto simp: relErr_def)
  have exact: "\<bar>of_int ?d / (of_int T / 3600) * 100 :: rat\<bar> = of_int N / of_int T"
  proof -
    have "\<bar>of_int d / (of_int T / 3600) * 100 :: rat\<bar> = of_int (\<bar>d\<bar> * 360000) / of_int T" for d
      using T(2) by (simp add: abs_mult)
    then show ?thesis by (simp only: N(1))
  qed
  have "N = N div T * T + N mod T" "N mod T < T" using T(2) by simp_all
  moreover have "N div T * T \<le> 65535 * T" using N(2) T(2) by (intro mult_right_mono) simp_all
  ultimately have "N < 65536 * T" by linarith
  then have "(of_int N :: rat) < of_int (65536 * T)" by (simp only: of_int_less_iff)
  then have "(of_int N :: rat) / of_int T \<le> 2 ^ 16" using T(2) by (simp add: divide_le_eq)
  moreover have "\<bar>\<bar>y\<bar> - of_int N / of_int T\<bar> \<le> 6 / 2 ^ 53 * (of_int N / of_int T)"
    using y(2) unfolding relErr_def exact[symmetric] by linarith
  ultimately have near: "\<bar>\<bar>y\<bar> - of_int N / of_int T\<bar> < 1 / 2 ^ 32"
    by (elim order_le_less_trans) simp
  have N0: "0 \<le> N" by (simp add: N(1))
  then have "0 \<le> N div T" using T(2) by (simp add: pos_imp_zdiv_nonneg_iff)
  have tr: "truncRat \<bar>y\<bar> = N div T \<or> N mod T = 0 \<and> truncRat \<bar>y\<bar> = N div T - 1"
    using trunc_near[OF T(2) T32 N0 _ near] by simp
  have "0 \<le> truncRat \<bar>y\<bar>" by (simp add: truncRat_def)
  moreover have "truncRat \<bar>y\<bar> < 65536" using tr N(2) by linarith
  ultimately have "uint (CalculateSpeed rt r1 r2) = truncRat \<bar>y\<bar>"
    by (simp add: speed y(1) floatToU16_def uint_word_of_int_eq take_bit_int_eq_self)
  with tr show ?thesis by simp
qed


section \<open>A run\<close>

text \<open>A runtime whose sort is stable, whose ranges are in key order and whose draws are zero.\<close>

definition stableRuntime :: Runtime where
  "stableRuntime = \<lparr>rt_sort = sort_key rc_Time, rt_keys = (\<lambda>m. sorted_list_of_set (dom m)),
                    rt_rand = (\<lambda>_ _. 0), rt_toU16 = (\<lambda>_. 0)\<rparr>"

lemma stableRuntime_ok: "runtime_ok stableRuntime"
proof -
  have "sorted_wrt (\<lambda>a b. rc_Time a \<le> rc_Time b) (sort_key rc_Time rs)" for rs :: "Record list"
    using sorted_sort_key[of rc_Time rs] by (simp add: sorted_map)
  then show ?thesis by (simp add: runtime_ok_def stableRuntime_def)
qed

theorem CalculateSpeed_accurate_witness:
  "uint (CalculateSpeed stableRuntime \<lparr>rc_Mile = 8, rc_Time = 0\<rparr> \<lparr>rc_Mile = 9, rc_Time = 7\<rparr>) = 51428"
  using CalculateSpeed_accurate[of 7 "\<lparr>rc_Mile = 9, rc_Time = 7\<rparr>" "\<lparr>rc_Mile = 8, rc_Time = 0\<rparr>" 360000 stableRuntime] by simp

definition sampleQueue :: "Message list" where
  "sampleQueue = [RegisterDispatcher [5] 7, RegisterCamera 5 60, Observation 5 [85] 0 0, Observation 5 [85] 100 3600,
     Observation 5 [85] 100 176400, Observation 5 [85] 200 180000]"

lemma sample_speeds:
  "CalculateSpeed rt \<lparr>rc_Mile = 0, rc_Time = 0\<rparr> \<lparr>rc_Mile = 100, rc_Time = 3600\<rparr> = 10000"
  "CalculateSpeed rt \<lparr>rc_Mile = 100, rc_Time = 3600\<rparr> \<lparr>rc_Mile = 100, rc_Time = 176400\<rparr> = 0"
  "CalculateSpeed rt \<lparr>rc_Mile = 100, rc_Time = 176400\<rparr> \<lparr>rc_Mile = 200, rc_Time = 180000\<rparr> = 10000"
  by (simp_all add: CalculateSpeed_def Let_def floatOfInt_def minus_f64_def floatToU16_def truncRat_def)

lemmas run_simps = NewCentralDispatcher_def Let_def calculateTickets_def generateTicket_def ticketDays_def dayRange_def
  upt_rec sample_speeds

lemma sample_sent:
  "cd_Sent (Start stableRuntime sampleQueue NewCentralDispatcher) =
   [(7, \<lparr>tk_Plate = [85], tk_Road = 5, tk_MileOne = 0, tk_TimeStampOne = 0, tk_MileTwo = 100,
         tk_TimeStampTwo = 3600, tk_Speed = 10000\<rparr>),
    (7, \<lparr>tk_Plate = [85], tk_Road = 5, tk_MileOne = 100, tk_TimeStampOne = 176400, tk_MileTwo = 200,
         tk_TimeStampTwo = 180000, tk_Speed = 10000\<rparr>)]"
  by (simp add: sampleQueue_def stableRuntime_def run_simps)

theorem one_ticket_per_day_witness:
  "set (daysOf (ticketsFor [85] (cd_Sent (Start stableRuntime sampleQueue NewCentralDispatcher)) ! 0)) \<inter>
   set (daysOf (ticketsFor [85] (cd_Sent (Start stableRuntime sampleQueue NewCentralDispatcher)) ! 1)) = {}"
  using one_ticket_per_day[OF stableRuntime_ok refl, of 0 "[85]" sampleQueue 1]
  by (simp add: sample_sent ticketsFor_def)

theorem every_ticket_is_justified_witness:
  "justified stableRuntime sampleQueue 7
     \<lparr>tk_Plate = [85], tk_Road = 5, tk_MileOne = 100, tk_TimeStampOne = 176400, tk_MileTwo = 200,
      tk_TimeStampTwo = 180000, tk_Speed = 10000\<rparr>"
  by (rule every_ticket_is_justified[OF stableRuntime_ok]) (simp add: sample_sent)

theorem observation_leaves_nothing_uncovered_witness:
  "ticketed (cd_Sent (Start stableRuntime (take 4 sampleQueue) NewCentralDispatcher)) [85]
     \<lparr>rc_Mile = 0, rc_Time = 0\<rparr> \<lparr>rc_Mile = 100, rc_Time = 3600\<rparr>"
proof -
  let ?cd = "Start stableRuntime (take 3 sampleQueue) NewCentralDispatcher"
  let ?cd' = "Start stableRuntime (take 4 sampleQueue) NewCentralDispatcher"
  let ?rs = "[\<lparr>rc_Mile = 0, rc_Time = 0\<rparr>, \<lparr>rc_Mile = 100, rc_Time = 3600\<rparr>] :: Record list"
  have "cd_Records ?cd 5 = Some [[85] \<mapsto> [\<lparr>rc_Mile = 0, rc_Time = 0\<rparr>]]" "cd_Dispatchers ?cd 5 \<noteq> []"
    "?cd' = Process stableRuntime (Observation 5 [85] 100 3600) ?cd"
    by (simp_all add: sampleQueue_def stableRuntime_def run_simps)
  from observation_leaves_nothing_uncovered[OF stableRuntime_ok refl this] obtain m' rs where
    "cd_Records ?cd' 5 = Some m'" "m' [85] = Some rs"
    "\<forall>(a, b)\<in>set (consecutive rs). CalculateSpeed stableRuntime a b > cd_SpeedLimits ?cd 5 * 100 \<longrightarrow> ticketed (cd_Sent ?cd') [85] a b"
    by blast
  moreover have "cd_Records ?cd' 5 = Some [[85] \<mapsto> ?rs]" "cd_SpeedLimits ?cd 5 = 60"
    by (simp_all add: sampleQueue_def stableRuntime_def run_simps)
  ultimately show ?thesis by (auto simp: sample_speeds)
qed

section \<open>A late dispatcher\<close>

definition allCovered :: "Runtime \<Rightarrow> U16 \<Rightarrow> CentralDispatcher \<Rightarrow> Str \<Rightarrow> Record list \<Rightarrow> bool" where
  "allCovered rt limit cd license rs \<longleftrightarrow>
     (\<forall>(a, b)\<in>set (consecutive rs). CalculateSpeed rt a b > limit * 100 \<longrightarrow> covered cd license a b)"

lemma addDispatcher_frame:
  "cd_Records (addDispatcher ch roads cd) = cd_Records cd" "cd_SpeedLimits (addDispatcher ch roads cd) = cd_SpeedLimits cd"
  "cd_Sent (addDispatcher ch roads cd) = cd_Sent cd"
  by (simp_all add: addDispatcher_eq)

lemma allCovered_frame: "frame cd cd' \<Longrightarrow> allCovered rt limit cd license rs \<Longrightarrow> allCovered rt limit cd' license rs"
  unfolding allCovered_def using covered_frame by fast

lemma recheckLicenses_covers:
  assumes "cd_Dispatchers cd road \<noteq> []" "\<forall>l\<in>set ls. records_sorted (the (m l))"
  shows "\<forall>l\<in>set ls. allCovered rt (cd_SpeedLimits cd road) (recheckLicenses rt road m ls cd) l (the (m l))"
  using assms
proof (induction ls arbitrary: cd)
  case (Cons l ls)
  let ?cd = "calculateTickets rt road l (the (m l)) cd"
  have f: "frame cd ?cd" by (rule calculateTickets_frame)
  have "allCovered rt (cd_SpeedLimits cd road) ?cd l (the (m l))"
    unfolding allCovered_def calculateTickets_def using Cons.prems by (intro ticketLoop_covers) simp_all
  then have "allCovered rt (cd_SpeedLimits cd road) (recheckLicenses rt road m ls ?cd) l (the (m l))"
    by (rule allCovered_frame[OF recheckLicenses_frame])
  moreover have "cd_Dispatchers ?cd road \<noteq> []" "cd_SpeedLimits ?cd road = cd_SpeedLimits cd road"
    using f Cons.prems(1) by (simp_all add: frame_def)
  ultimately show ?case using Cons.IH[of ?cd] Cons.prems(2) by simp
qed simp

lemma recheckRoads_covers:
  assumes rt: "runtime_ok rt"
  shows "road \<in> set roads \<Longrightarrow> cd_Dispatchers cd road \<noteq> [] \<Longrightarrow> records_ok msgs cd \<Longrightarrow>
    cd_Records cd road = Some m \<Longrightarrow> m license = Some rs \<Longrightarrow>
    allCovered rt (cd_SpeedLimits cd road) (recheckRoads rt roads cd) license rs"
proof (induction roads arbitrary: cd)
  case (Cons r roads)
  let ?cd = "case cd_Records cd r of None \<Rightarrow> cd | Some m \<Rightarrow> recheckLicenses rt r m (rt_keys rt m) cd"
  have f: "frame cd ?cd" using recheckLicenses_frame by (simp split: option.split)
  show ?case
  proof (cases "r = road")
    case True
    have fin: "finite (dom m)" and srt: "\<forall>l\<in>dom m. records_sorted (the (m l))"
      using Cons.prems(3,4) unfolding records_ok_def recorded_ok_def by fastforce+
    then have keys: "set (rt_keys rt m) = dom m" using rt by (simp add: runtime_ok_def)
    have "\<forall>l\<in>set (rt_keys rt m). allCovered rt (cd_SpeedLimits cd road) (recheckLicenses rt road m (rt_keys rt m) cd) l (the (m l))"
      by (rule recheckLicenses_covers[OF Cons.prems(2)]) (use keys srt in simp)
    then have "allCovered rt (cd_SpeedLimits cd road) ?cd license (the (m license))"
      unfolding keys using Cons.prems(4,5) True by force
    then show ?thesis using allCovered_frame[OF recheckRoads_frame] Cons.prems(5) by simp
  next
    case False
    then have "road \<in> set roads" using Cons.prems(1) by simp
    moreover have "cd_Dispatchers ?cd road \<noteq> []" "cd_Records ?cd road = Some m" "cd_SpeedLimits ?cd road = cd_SpeedLimits cd road"
      using f Cons.prems(2,4) by (simp_all add: frame_def)
    moreover have "records_ok msgs ?cd" using Cons.prems(3) by (simp add: records_ok_frame[OF f])
    ultimately show ?thesis using Cons.IH[of ?cd] Cons.prems(5) by simp
  qed
qed simp

text \<open>C24: A late dispatcher brings the tickets that were due: when one registers for a road, then afterwards, for every two consecutive
  records of any car already recorded there whose speed is above the limit, as the code computes both (in 16 bits), a ticket for the car that
  covers one of their days has been sent. The tickets sent by the registration are for roads of the new dispatcher, and each goes to it or to
  one registered earlier for the ticket's road: to the new one if it is the first.\<close>

theorem registration_backfills:
  assumes "runtime_ok rt" and "cd = Start rt queue NewCentralDispatcher"
    and "road \<in> set roads" "cd_Records cd road = Some m" "m license = Some rs"
    and "cd' = Process rt (RegisterDispatcher roads ch) cd"
  shows "\<exists>issued.
    (\<forall>(a, b)\<in>set (consecutive rs).
       CalculateSpeed rt a b > cd_SpeedLimits cd road * 100 \<longrightarrow> ticketed (cd_Sent cd') license a b) \<and>
    cd_Sent cd' = cd_Sent cd @ issued \<and>
    (\<forall>(c, t)\<in>set issued. tk_Road t \<in> set roads \<and> (c = ch \<or> c \<in> set (cd_Dispatchers cd (tk_Road t))))"
proof -
  let ?cd = "addDispatcher ch roads cd"
  have cd': "cd' = recheckRoads rt roads ?cd" using assms(6) by simp
  have "dispatcher_ok rt queue cd" using Start_new[OF assms(1)] assms(2) by simp
  then have "recorded_ok (queue @ [RegisterDispatcher roads ch]) cd" "registered_ok (queue @ [RegisterDispatcher roads ch]) cd"
    by (simp_all add: dispatcher_ok_def records_ok_def recorded_ok_mono registered_ok_mono)
  then have r: "records_ok (queue @ [RegisterDispatcher roads ch]) ?cd"
    by (auto simp: records_ok_def recorded_ok_def registered_ok_def addDispatcher_frame addDispatcher_set)
  have "ch \<in> set (cd_Dispatchers ?cd road)" using assms(3) by (simp add: addDispatcher_set)
  then have "cd_Dispatchers ?cd road \<noteq> []" by auto
  then have all: "allCovered rt (cd_SpeedLimits cd road) cd' license rs"
    using recheckRoads_covers[OF assms(1,3) _ r, of m license rs] assms(4,5) by (simp add: addDispatcher_frame cd')
  have "cd' = Start rt (queue @ [RegisterDispatcher roads ch]) NewCentralDispatcher"
    using assms(2,6) by (simp only: Start_append Start.simps)
  then have "tickets_ok rt (queue @ [RegisterDispatcher roads ch]) cd'"
    using Start_new[OF assms(1)] by (simp only: dispatcher_ok_def)
  from all covered_ticketed[OF this] have cov: "\<forall>(a, b)\<in>set (consecutive rs).
      CalculateSpeed rt a b > cd_SpeedLimits cd road * 100 \<longrightarrow> ticketed (cd_Sent cd') license a b"
    by (simp add: allCovered_def)
  obtain issued where "cd_Sent cd' = cd_Sent cd @ issued"
    "\<forall>(c, t)\<in>set issued. tk_Road t \<in> set roads \<and> (c = ch \<or> c \<in> set (cd_Dispatchers cd (tk_Road t)))"
    using recheckRoads_issues[OF assms(1), of roads ?cd] unfolding cd' by (fastforce simp: issues_def addDispatcher_frame addDispatcher_set)
  with cov show ?thesis by blast
qed

text \<open>A camera, two observations, and only then a dispatcher.\<close>

theorem registration_backfills_witness:
  "ticketed (cd_Sent
     (Process stableRuntime (RegisterDispatcher [5] 7) (Start stableRuntime (take 3 (tl sampleQueue)) NewCentralDispatcher)))
     [85] \<lparr>rc_Mile = 0, rc_Time = 0\<rparr> \<lparr>rc_Mile = 100, rc_Time = 3600\<rparr>"
proof -
  let ?cd = "Start stableRuntime (take 3 (tl sampleQueue)) NewCentralDispatcher"
  let ?rs = "[\<lparr>rc_Mile = 0, rc_Time = 0\<rparr>, \<lparr>rc_Mile = 100, rc_Time = 3600\<rparr>] :: Record list"
  have limit: "cd_SpeedLimits ?cd 5 = 60" and r: "cd_Records ?cd 5 = Some [[85] \<mapsto> ?rs]"
    by (simp_all add: sampleQueue_def stableRuntime_def run_simps)
  have "\<forall>(a, b)\<in>set (consecutive ?rs). CalculateSpeed stableRuntime a b > cd_SpeedLimits ?cd 5 * 100 \<longrightarrow>
      ticketed (cd_Sent (Process stableRuntime (RegisterDispatcher [5] 7) ?cd)) [85] a b"
    using registration_backfills[OF stableRuntime_ok refl _ r _ refl, of "[5]" "[85]" ?rs 7] by auto
  then show ?thesis unfolding limit by (simp add: sample_speeds)
qed

section \<open>Limits above 655 mph\<close>

text \<open>The limit in hundredths is a 16-bit product, so from 656 on it wraps: a car at 100 mph is ticketed under a
  limit of 656.\<close>

theorem limit_wraps:
  "cd_Sent (Start stableRuntime
     [RegisterDispatcher [5] 7, RegisterCamera 5 656, Observation 5 [85] 0 0, Observation 5 [85] 100 3600]
     NewCentralDispatcher) \<noteq> []"
  by (simp add: stableRuntime_def run_simps)

end
