(* ===== verification/Go_Events.thy ===== *)
theory Go_Events
  imports Go_Prelude
begin

text \<open>
  Servers whose goroutines share a state are run by lists of events, one step at a time. The interfaces say what a
  step has to keep; what follows for runs is proved here once.
\<close>

text \<open>
  Steps that keep \<open>inv\<close> and move along the order \<open>rel\<close>, as long as the events satisfy \<open>guard\<close>.
\<close>

locale event_system =
  fixes step :: "'e \<Rightarrow> 's \<Rightarrow> 's"
    and guard :: "'e \<Rightarrow> bool"
    and inv :: "'s \<Rightarrow> bool"
    and rel :: "'s \<Rightarrow> 's \<Rightarrow> bool"
  assumes stays: "rel s s"
    and chains: "rel s t \<Longrightarrow> rel t u \<Longrightarrow> rel s u"
    and moves: "inv s \<Longrightarrow> guard e \<Longrightarrow> inv (step e s) \<and> rel s (step e s)"
begin

lemma run_both: "inv s \<Longrightarrow> list_all guard es \<Longrightarrow> inv (fold step es s) \<and> rel s (fold step es s)"
proof (induction es arbitrary: s)
  case (Cons e es)
  then have "inv (step e s)" "rel s (step e s)" using moves by auto
  then show ?case using Cons chains[of s "step e s"] by auto
qed (simp add: stays)

lemma run_inv: "inv s \<Longrightarrow> list_all guard es \<Longrightarrow> inv (fold step es s)"
  using run_both by blast

lemma run_rel: "inv s \<Longrightarrow> list_all guard es \<Longrightarrow> rel s (fold step es s)"
  using run_both by blast

end

text \<open>An invariant that every step keeps.\<close>

locale step_invariant =
  fixes step :: "'e \<Rightarrow> 's \<Rightarrow> 's"
    and inv :: "'s \<Rightarrow> bool"
  assumes kept: "inv s \<Longrightarrow> inv (step e s)"

sublocale step_invariant \<subseteq> unguarded: event_system step "\<lambda>_. True" inv "\<lambda>_ _. True"
  by unfold_locales (simp_all add: kept)

context step_invariant
begin

lemma run_kept: "inv s \<Longrightarrow> inv (fold step es s)"
  by (rule unguarded.run_inv) (simp_all add: list_all_iff)

end

end
