(* ===== verification/Speed_Daemon.thy ===== *)
theory Speed_Daemon
  imports Speed_Dispatcher Go_Events
begin

text \<open>
  \<open>internal/speeddaemon/speeddaemon.go\<close>: the connections and how they share the central dispatcher. The
  goroutines of the daemon (one per connection, one per registered dispatcher, one per heartbeat, and
  the dispatcher's own) take turns in any order: a run is a list of events, one per turn, and what is
  proved holds for every list. The dispatcher's channel made by a connection is the
  connection's number, and the queue keeps with each message the connection that sent it. Not
  modelled: the logging and the time between two heartbeats.
\<close>

section \<open>Connections\<close>

datatype ConnKind = camera | ticketDispatcher | unknown

record Connection =
  cn_ConnKind :: ConnKind
  cn_Limit :: U16
  cn_Road :: U16
  cn_Mile :: U16
  cn_HBInterval :: f64

text \<open>
  A connection's goroutine: its \<open>Connection\<close>, its buffer, the messages of the current
  \<open>processMessages\<close> loop still to handle, whether the socket is open, the bytes written to it, and the
  intervals of the heartbeat goroutines started. \<open>pr_Received\<close> is history: all messages extracted so far.
\<close>

record Peer =
  pr_Conn :: Connection
  pr_Buffer :: bytes
  pr_Pending :: "ClientMessage list"
  pr_Open :: bool
  pr_Written :: bytes
  pr_Beats :: "f64 list"
  pr_Received :: "ClientMessage list"

definition newPeer :: Peer where
  "newPeer =
     \<lparr>pr_Conn = \<lparr>cn_ConnKind = unknown, cn_Limit = 0, cn_Road = 0, cn_Mile = 0, cn_HBInterval = Fin 0\<rparr>,
      pr_Buffer = [], pr_Pending = [], pr_Open = True, pr_Written = [], pr_Beats = [], pr_Received = []\<rparr>"

text \<open>A write to a closed socket fails and writes nothing; the error is only logged.\<close>

definition writeMessage :: "ClientMessage \<Rightarrow> Peer \<Rightarrow> Peer" where
  "writeMessage m p =
     (case EncodeMessage m of
        None \<Rightarrow> p
      | Some encoded \<Rightarrow> if pr_Open p then p\<lparr>pr_Written := pr_Written p @ encoded\<rparr> else p)"

definition sendError :: "string \<Rightarrow> Peer \<Rightarrow> Peer" where
  "sendError errorMessage p = writeMessage (ErrorMessage (map (\<lambda>c. of_char c) errorMessage)) p"

definition closeConn :: "Peer \<Rightarrow> Peer" where
  "closeConn p = p\<lparr>pr_Open := False\<rparr>"

section \<open>Handlers\<close>

definition handleHeartbeatRequest :: "U32 \<Rightarrow> Peer \<Rightarrow> Peer" where
  "handleHeartbeatRequest interval p =
     (if cn_HBInterval (pr_Conn p) \<noteq> Fin 0
      then closeConn (sendError ''Already registered a heartbeat to this connection'' p)
      else
        (let hb = floatOfInt (uint interval) * roundF64 (1 / 10)
         in p\<lparr>pr_Conn := (pr_Conn p)\<lparr>cn_HBInterval := hb\<rparr>, pr_Beats := pr_Beats p @ [hb]\<rparr>))"

definition handlePlateMessage :: "Str \<Rightarrow> U32 \<Rightarrow> Peer \<Rightarrow> Peer \<times> Message list" where
  "handlePlateMessage plate timestamp p =
     (if cn_ConnKind (pr_Conn p) \<noteq> camera
      then (closeConn (sendError ''Only cameras can send plate messages'' p), [])
      else (p, [Observation (cn_Road (pr_Conn p)) plate (cn_Mile (pr_Conn p)) timestamp]))"

definition registerCamera :: "U16 \<Rightarrow> U16 \<Rightarrow> U16 \<Rightarrow> Peer \<Rightarrow> Peer \<times> Message list" where
  "registerCamera road mile limit p =
     (if cn_ConnKind (pr_Conn p) \<noteq> unknown
      then (closeConn (sendError ''Already registered this connection'' p), [])
      else (p\<lparr>pr_Conn := (pr_Conn p)\<lparr>cn_ConnKind := camera, cn_Limit := limit, cn_Road := road, cn_Mile := mile\<rparr>\<rparr>,
            [RegisterCamera road limit]))"

text \<open>The flag is whether a channel was made; \<open>nil\<close> ends \<open>processMessages\<close>.\<close>

definition registerDispatcher :: "nat \<Rightarrow> U16 list \<Rightarrow> Peer \<Rightarrow> Peer \<times> Message list \<times> bool" where
  "registerDispatcher channel roads p =
     (if cn_ConnKind (pr_Conn p) \<noteq> unknown
      then (closeConn (sendError ''Already registered this connection'' p), [], False)
      else (p\<lparr>pr_Conn := (pr_Conn p)\<lparr>cn_ConnKind := ticketDispatcher\<rparr>\<rparr>, [RegisterDispatcher roads channel], True))"

text \<open>
  One iteration of \<open>processMessages\<close>: the connection after it, what it put in the dispatcher's queue,
  and whether the loop goes on.
\<close>

fun processMessage :: "nat \<Rightarrow> ClientMessage \<Rightarrow> Peer \<Rightarrow> Peer \<times> Message list \<times> bool" where
  "processMessage i (IAmCameraMessage road mile limit) p =
     (case registerCamera road mile limit p of (p1, out) \<Rightarrow> (p1, out, True))"
| "processMessage i (IAmDispatcherMessage numroads roads) p = registerDispatcher i roads p"
| "processMessage i (PlateMessage plate timestamp) p =
     (case handlePlateMessage plate timestamp p of (p1, out) \<Rightarrow> (p1, out, True))"
| "processMessage i (WantHeartbeatMessage interval) p = (handleHeartbeatRequest interval p, [], True)"
| "processMessage i message p = (sendError ''Unknown message. Closing connection'' p, [], False)"

text \<open>The body of the loop of \<open>handleConnection\<close> up to \<open>processMessages\<close>, for the bytes of one read.\<close>

definition readData :: "bytes \<Rightarrow> Peer \<Rightarrow> Peer" where
  "readData chunk p =
     (let buffer = pr_Buffer p @ chunk;
          (messages, extractedBytes) = ExtractFromSbBuffer (NewSdBuffer buffer)
      in p\<lparr>pr_Buffer := drop extractedBytes buffer, pr_Pending := messages, pr_Received := pr_Received p @ messages\<rparr>)"

text \<open>A ticket taken from a dispatcher's channel. Its encoding cannot fail: plates come from messages.\<close>

definition dispatcherListener :: "TicketMessage \<Rightarrow> Peer \<Rightarrow> Peer" where
  [simp]: "dispatcherListener ticketMessage p = writeMessage (Ticket ticketMessage) p"

text \<open>A tick of the connection's heartbeat; \<open>time.Tick\<close> never ticks for an interval of zero. The interval is the one at
  the start of the goroutine, which the source reads from the connection a moment later.\<close>

definition heartbeat :: "Peer \<Rightarrow> Peer" where
  "heartbeat p = (if \<exists>hb\<in>set (pr_Beats p). hb \<noteq> Fin 0 then writeMessage HeartbeatMessage p else p)"

section \<open>The daemon\<close>

text \<open>
  The connections accepted, everything ever put in \<open>MessageQueue\<close> with the connection that put it,
  how many of these the dispatcher has processed, its state, and how many tickets each dispatcher's
  listener has taken from its channel.
\<close>

record Daemon =
  dm_Peers :: "nat \<Rightarrow> Peer option"
  dm_Log :: "(nat \<times> Message) list"
  dm_Handled :: nat
  dm_Central :: CentralDispatcher
  dm_Taken :: "nat \<Rightarrow> nat"

definition newDaemon :: Daemon where
  "newDaemon = \<lparr>dm_Peers = (\<lambda>_. None), dm_Log = [], dm_Handled = 0, dm_Central = NewCentralDispatcher, dm_Taken = (\<lambda>_. 0)\<rparr>"

datatype Event =
    Accept nat           \<comment> \<open>\<open>Listen\<close> accepts a connection\<close>
  | Read nat bytes       \<comment> \<open>a read returns bytes, when the previous batch is done\<close>
  | ReadError nat        \<comment> \<open>a read fails: \<open>handleConnection\<close> returns and closes\<close>
  | Handle nat           \<comment> \<open>the next iteration of \<open>processMessages\<close>\<close>
  | Dispatch             \<comment> \<open>the dispatcher processes the next message of its queue\<close>
  | Deliver nat          \<comment> \<open>a dispatcher's listener takes a ticket and writes it\<close>
  | Beat nat             \<comment> \<open>a tick of a heartbeat\<close>

definition channelTickets :: "nat \<Rightarrow> CentralDispatcher \<Rightarrow> TicketMessage list" where
  "channelTickets ch cd = map snd (filter (\<lambda>p. fst p = ch) (cd_Sent cd))"

text \<open>An event that is not enabled leaves the daemon as it is.\<close>

fun daemonStep :: "Runtime \<Rightarrow> Event \<Rightarrow> Daemon \<Rightarrow> Daemon" where
  "daemonStep rt (Accept i) d =
     (case dm_Peers d i of
        None \<Rightarrow> d\<lparr>dm_Peers := (dm_Peers d)(i \<mapsto> newPeer)\<rparr>
      | Some p \<Rightarrow> d)"
| "daemonStep rt (Read i chunk) d =
     (case dm_Peers d i of
        None \<Rightarrow> d
      | Some p \<Rightarrow> if pr_Open p \<and> pr_Pending p = [] then d\<lparr>dm_Peers := (dm_Peers d)(i \<mapsto> readData chunk p)\<rparr> else d)"
| "daemonStep rt (ReadError i) d =
     (case dm_Peers d i of
        None \<Rightarrow> d
      | Some p \<Rightarrow> if pr_Pending p = [] then d\<lparr>dm_Peers := (dm_Peers d)(i \<mapsto> closeConn p)\<rparr> else d)"
| "daemonStep rt (Handle i) d =
     (case dm_Peers d i of
        None \<Rightarrow> d
      | Some p \<Rightarrow>
          (case pr_Pending p of
             [] \<Rightarrow> d
           | m # ms \<Rightarrow>
               (case processMessage i m p of
                  (p1, out, continue) \<Rightarrow>
                    d\<lparr>dm_Peers := (dm_Peers d)(i \<mapsto> p1\<lparr>pr_Pending := if continue then ms else []\<rparr>),
                      dm_Log := dm_Log d @ map (Pair i) out\<rparr>)))"
| "daemonStep rt Dispatch d =
     (if dm_Handled d < length (dm_Log d)
      then d\<lparr>dm_Central := Process rt (snd (dm_Log d ! dm_Handled d)) (dm_Central d), dm_Handled := Suc (dm_Handled d)\<rparr>
      else d)"
| "daemonStep rt (Deliver i) d =
     (case dm_Peers d i of
        None \<Rightarrow> d
      | Some p \<Rightarrow>
          if dm_Taken d i < length (channelTickets i (dm_Central d))
          then d\<lparr>dm_Peers := (dm_Peers d)(i \<mapsto> dispatcherListener (channelTickets i (dm_Central d) ! dm_Taken d i) p),
                 dm_Taken := (dm_Taken d)(i := Suc (dm_Taken d i))\<rparr>
          else d)"
| "daemonStep rt (Beat i) d =
     (case dm_Peers d i of
        None \<Rightarrow> d
      | Some p \<Rightarrow> d\<lparr>dm_Peers := (dm_Peers d)(i \<mapsto> heartbeat p)\<rparr>)"

definition daemonRun :: "Runtime \<Rightarrow> Event list \<Rightarrow> Daemon" where
  "daemonRun rt events = fold (daemonStep rt) events newDaemon"

section \<open>Roles\<close>

definition sentBy :: "nat \<Rightarrow> (nat \<times> Message) list \<Rightarrow> Message list" where
  "sentBy i entries = map snd (filter (\<lambda>e. fst e = i) entries)"

lemma sentBy_append [simp]: "sentBy i (xs @ ys) = sentBy i xs @ sentBy i ys"
  by (simp add: sentBy_def)

lemma sentBy_own [simp]: "sentBy i (map (Pair i) out) = out" "j \<noteq> i \<Longrightarrow> sentBy j (map (Pair i) out) = []"
  by (simp_all add: sentBy_def filter_map comp_def)

lemma set_sentBy: "m \<in> set (sentBy i entries) \<longleftrightarrow> (i, m) \<in> set entries"
  by (force simp: sentBy_def)

definition observationAt :: "U16 \<Rightarrow> U16 \<Rightarrow> ClientMessage list \<Rightarrow> Message \<Rightarrow> bool" where
  "observationAt road mile received m \<longleftrightarrow>
     (\<exists>plate timestamp. m = Observation road plate mile timestamp \<and> PlateMessage plate timestamp \<in> set received)"

text \<open>What a connection has put in the queue, by its kind: nothing, one camera and its observations, or one dispatcher.\<close>

definition role_ok :: "nat \<Rightarrow> Message list \<Rightarrow> Peer \<Rightarrow> bool" where
  "role_ok i sent p \<longleftrightarrow>
     (case cn_ConnKind (pr_Conn p) of
        unknown \<Rightarrow> sent = []
      | camera \<Rightarrow>
          IAmCameraMessage (cn_Road (pr_Conn p)) (cn_Mile (pr_Conn p)) (cn_Limit (pr_Conn p)) \<in> set (pr_Received p) \<and>
          (\<exists>obs. sent = RegisterCamera (cn_Road (pr_Conn p)) (cn_Limit (pr_Conn p)) # obs \<and>
             list_all (observationAt (cn_Road (pr_Conn p)) (cn_Mile (pr_Conn p)) (pr_Received p)) obs)
      | ticketDispatcher \<Rightarrow>
          (\<exists>numroads roads. IAmDispatcherMessage numroads roads \<in> set (pr_Received p) \<and> sent = [RegisterDispatcher roads i]))"

definition peer_ok :: "nat \<Rightarrow> Message list \<Rightarrow> Peer \<Rightarrow> bool" where
  "peer_ok i sent p \<longleftrightarrow> set (pr_Pending p) \<subseteq> set (pr_Received p) \<and> role_ok i sent p"

text \<open>Writing and closing touch neither.\<close>

lemma written_fields [simp]:
  "pr_Conn (writeMessage m p) = pr_Conn p" "pr_Received (writeMessage m p) = pr_Received p"
  "pr_Pending (writeMessage m p) = pr_Pending p" "pr_Beats (writeMessage m p) = pr_Beats p"
  "pr_Buffer (writeMessage m p) = pr_Buffer p" "pr_Open (writeMessage m p) = pr_Open p"
  by (simp_all add: writeMessage_def split: option.split)

lemma sendError_fields [simp]:
  "pr_Conn (sendError e p) = pr_Conn p" "pr_Received (sendError e p) = pr_Received p"
  "pr_Pending (sendError e p) = pr_Pending p" "pr_Beats (sendError e p) = pr_Beats p"
  "pr_Buffer (sendError e p) = pr_Buffer p" "pr_Open (sendError e p) = pr_Open p"
  by (simp_all add: sendError_def)

lemma closeConn_fields [simp]:
  "pr_Conn (closeConn p) = pr_Conn p" "pr_Received (closeConn p) = pr_Received p"
  "pr_Pending (closeConn p) = pr_Pending p" "pr_Beats (closeConn p) = pr_Beats p" "\<not> pr_Open (closeConn p)"
  "pr_Written (closeConn p) = pr_Written p"
  by (simp_all add: closeConn_def)

lemmas handler_defs = registerCamera_def registerDispatcher_def handlePlateMessage_def handleHeartbeatRequest_def

lemma role_ok_cong:
  "cn_ConnKind (pr_Conn p) = cn_ConnKind (pr_Conn q) \<Longrightarrow> cn_Road (pr_Conn p) = cn_Road (pr_Conn q) \<Longrightarrow>
   cn_Mile (pr_Conn p) = cn_Mile (pr_Conn q) \<Longrightarrow> cn_Limit (pr_Conn p) = cn_Limit (pr_Conn q) \<Longrightarrow>
   pr_Received p = pr_Received q \<Longrightarrow> role_ok i sent p = role_ok i sent q"
  by (cases "cn_ConnKind (pr_Conn q)") (simp_all add: role_ok_def)

lemma role_ok_sendError: "role_ok i sent (sendError e p) = role_ok i sent p"
  by (rule role_ok_cong) simp_all

lemma processMessage_role:
  assumes "role_ok i sent p" "m \<in> set (pr_Received p)" "processMessage i m p = (p1, out, continue)"
  shows "role_ok i (sent @ out) p1 \<and> pr_Received p1 = pr_Received p"
proof (cases m)
  case (IAmCameraMessage road mile limit)
  then show ?thesis using assms
    by (cases "cn_ConnKind (pr_Conn p)") (auto simp: role_ok_def registerCamera_def)
next
  case (IAmDispatcherMessage numroads roads)
  then show ?thesis using assms
    by (cases "cn_ConnKind (pr_Conn p)") (auto simp: role_ok_def registerDispatcher_def)
next
  case (PlateMessage plate timestamp)
  then show ?thesis using assms
    by (cases "cn_ConnKind (pr_Conn p)") (auto simp: role_ok_def handlePlateMessage_def observationAt_def)
next
  case (WantHeartbeatMessage interval)
  then have "out = []" "p1 = handleHeartbeatRequest interval p" using assms(3) by auto
  moreover have "role_ok i sent (handleHeartbeatRequest interval p) = role_ok i sent p"
    by (rule role_ok_cong) (simp_all add: handleHeartbeatRequest_def Let_def)
  ultimately show ?thesis using assms(1) by (simp add: handleHeartbeatRequest_def Let_def)
qed (use assms in \<open>auto simp: role_ok_sendError\<close>)

lemma role_ok_received:
  assumes "role_ok i sent p" "pr_Conn q = pr_Conn p" "set (pr_Received p) \<subseteq> set (pr_Received q)"
  shows "role_ok i sent q"
proof -
  have "list_all (observationAt r m (pr_Received q)) obs" if "list_all (observationAt r m (pr_Received p)) obs" for r m obs
    using that assms(3) unfolding list_all_iff observationAt_def by (meson subsetD)
  then show ?thesis using assms by (cases "cn_ConnKind (pr_Conn p)") (auto 0 4 simp: role_ok_def dest: subsetD)
qed

section \<open>The daemon's invariant\<close>

definition daemon_ok :: "Runtime \<Rightarrow> Daemon \<Rightarrow> bool" where
  "daemon_ok rt d \<longleftrightarrow>
     (\<forall>i p. dm_Peers d i = Some p \<longrightarrow> peer_ok i (sentBy i (dm_Log d)) p) \<and>
     (\<forall>i. dm_Peers d i = None \<longrightarrow> sentBy i (dm_Log d) = []) \<and>
     dm_Handled d \<le> length (dm_Log d) \<and>
     dm_Central d = Start rt (map snd (take (dm_Handled d) (dm_Log d))) NewCentralDispatcher \<and>
     (\<forall>i. dm_Taken d i \<le> length (channelTickets i (dm_Central d)))"

lemma daemon_ok_peer: "daemon_ok rt d \<Longrightarrow> dm_Peers d i = Some p \<Longrightarrow> peer_ok i (sentBy i (dm_Log d)) p"
  unfolding daemon_ok_def by blast

lemma daemon_ok_none: "daemon_ok rt d \<Longrightarrow> dm_Peers d i = None \<Longrightarrow> sentBy i (dm_Log d) = []"
  unfolding daemon_ok_def by blast

lemma daemon_okI:
  assumes "daemon_ok rt d"
    and "dm_Log d' = dm_Log d @ map (Pair i) out"
    and "\<And>j. j \<noteq> i \<Longrightarrow> dm_Peers d' j = dm_Peers d j"
    and "dm_Peers d' i = Some p" "peer_ok i (sentBy i (dm_Log d) @ out) p"
    and "dm_Handled d' = dm_Handled d" "dm_Central d' = dm_Central d"
    and "\<forall>j. dm_Taken d' j \<le> length (channelTickets j (dm_Central d))"
  shows "daemon_ok rt d'"
proof -
  have "(dm_Peers d' j = Some q \<longrightarrow> peer_ok j (sentBy j (dm_Log d')) q) \<and> (dm_Peers d' j = None \<longrightarrow> sentBy j (dm_Log d') = [])" for j q
  proof (cases "j = i")
    case True
    then show ?thesis using assms(2,4,5) by auto
  next
    case False
    then show ?thesis using assms(1) by (simp add: assms(2) assms(3)[OF False] daemon_ok_def)
  qed
  then show ?thesis using assms(1,2,6,7,8) by (simp add: daemon_ok_def)
qed

lemma daemon_ok_handle:
  "daemon_ok rt d \<Longrightarrow> peer_ok i (sentBy i (dm_Log d) @ out) p \<Longrightarrow>
   daemon_ok rt (d\<lparr>dm_Peers := (dm_Peers d)(i \<mapsto> p), dm_Log := dm_Log d @ map (Pair i) out\<rparr>)"
  by (rule daemon_okI[where d = d and i = i and out = out and p = p]) (auto simp: daemon_ok_def)

lemma daemon_ok_set:
  "daemon_ok rt d \<Longrightarrow> peer_ok i (sentBy i (dm_Log d)) p \<Longrightarrow> daemon_ok rt (d\<lparr>dm_Peers := (dm_Peers d)(i \<mapsto> p)\<rparr>)"
  by (rule daemon_okI[where d = d and i = i and out = "[]" and p = p]) (auto simp: daemon_ok_def)

lemma daemon_ok_take:
  "daemon_ok rt d \<Longrightarrow> peer_ok i (sentBy i (dm_Log d)) p \<Longrightarrow> dm_Taken d i < length (channelTickets i (dm_Central d)) \<Longrightarrow>
   daemon_ok rt (d\<lparr>dm_Peers := (dm_Peers d)(i \<mapsto> p), dm_Taken := (dm_Taken d)(i := Suc (dm_Taken d i))\<rparr>)"
  by (rule daemon_okI[where d = d and i = i and out = "[]" and p = p]) (auto simp: daemon_ok_def)

lemma cd_Sent_grows: "\<exists>more. cd_Sent (Process rt msg cd) = cd_Sent cd @ more"
proof (cases msg)
  case (RegisterDispatcher roads ch)
  then show ?thesis using recheckRoads_frame[of "addDispatcher ch roads cd" rt roads]
    by (simp add: frame_def addDispatcher_frame)
next
  case (Observation road license mile timestamp)
  have "\<exists>more. cd_Sent (calculateTickets rt road license rs (cd\<lparr>cd_Records := R\<rparr>)) = cd_Sent cd @ more" for rs R
    using calculateTickets_frame[of "cd\<lparr>cd_Records := R\<rparr>" rt road license rs] by (simp add: frame_def)
  then show ?thesis using Observation by (simp add: Let_def split: option.split)
qed simp

lemma peer_ok_same:
  "peer_ok i sent p \<Longrightarrow> pr_Conn q = pr_Conn p \<Longrightarrow> set (pr_Received p) \<subseteq> set (pr_Received q) \<Longrightarrow>
   set (pr_Pending q) \<subseteq> set (pr_Received q) \<Longrightarrow> peer_ok i sent q"
  unfolding peer_ok_def using role_ok_received by blast

lemma peer_ok_readData: "peer_ok i sent p \<Longrightarrow> peer_ok i sent (readData chunk p)"
  by (rule peer_ok_same[of i sent p]) (auto simp: readData_def Let_def split: prod.splits)

lemma peer_ok_written: "peer_ok i sent p \<Longrightarrow> peer_ok i sent (writeMessage m p)"
  by (rule peer_ok_same[of i sent p]) (auto simp: peer_ok_def)

lemma peer_ok_closed: "peer_ok i sent p \<Longrightarrow> peer_ok i sent (closeConn p)"
  by (rule peer_ok_same[of i sent p]) (auto simp: peer_ok_def)

lemma daemonStep_ok:
  assumes "daemon_ok rt d"
  shows "daemon_ok rt (daemonStep rt ev d)"
proof (cases ev)
  case (Accept i)
  show ?thesis
  proof (cases "dm_Peers d i")
    case None
    then have "sentBy i (dm_Log d) = []" using assms by (simp add: daemon_ok_none)
    then have "peer_ok i (sentBy i (dm_Log d)) newPeer" by (simp add: peer_ok_def role_ok_def newPeer_def)
    then show ?thesis using Accept None assms by (simp add: daemon_ok_set)
  qed (use Accept assms in simp)
next
  case (Read i chunk)
  then show ?thesis using assms
    by (auto intro: daemon_ok_set peer_ok_readData daemon_ok_peer split: option.split)
next
  case (ReadError i)
  then show ?thesis using assms
    by (auto intro: daemon_ok_set peer_ok_closed daemon_ok_peer split: option.split)
next
  case (Handle i)
  show ?thesis
  proof (cases "dm_Peers d i")
    case (Some p)
    have ok: "peer_ok i (sentBy i (dm_Log d)) p" by (rule daemon_ok_peer[OF assms Some])
    show ?thesis
    proof (cases "pr_Pending p")
      case (Cons m ms)
      obtain p1 out cont where pm: "processMessage i m p = (p1, out, cont)" by (metis prod_cases3)
      let ?p = "p1\<lparr>pr_Pending := if cont then ms else []\<rparr>"
      have r: "role_ok i (sentBy i (dm_Log d) @ out) p1 \<and> pr_Received p1 = pr_Received p"
        using processMessage_role[OF _ _ pm, of "sentBy i (dm_Log d)"] ok Cons by (simp add: peer_ok_def)
      then have "role_ok i (sentBy i (dm_Log d) @ out) ?p" using role_ok_received[of i _ p1 ?p] by simp
      then have "peer_ok i (sentBy i (dm_Log d) @ out) ?p" using r ok Cons by (auto simp: peer_ok_def)
      then show ?thesis using Handle Some Cons pm daemon_ok_handle[OF assms] by simp
    qed (use Handle Some assms in simp)
  qed (use Handle assms in simp)
next
  case Dispatch
  show ?thesis
  proof (cases "dm_Handled d < length (dm_Log d)")
    case True
    have "\<exists>more. channelTickets i (Process rt msg cd) = channelTickets i cd @ more" for i msg cd
      using cd_Sent_grows[of rt msg cd] by (auto simp: channelTickets_def)
    then have "length (channelTickets i cd) \<le> length (channelTickets i (Process rt msg cd))" for i msg cd
      by (metis length_append le_add1)
    then show ?thesis using assms True Dispatch
      by (auto simp: daemon_ok_def take_Suc_conv_app_nth Start_append intro: order_trans)
  qed (use Dispatch assms in simp)
next
  case (Deliver i)
  then show ?thesis using assms
    by (auto intro: daemon_ok_take peer_ok_written daemon_ok_peer split: option.split)
next
  case (Beat i)
  have hb: "peer_ok i sent (heartbeat p)" if "peer_ok i sent p" for sent p
    using that peer_ok_written by (simp add: heartbeat_def)
  show ?thesis using Beat assms
    by (auto intro: daemon_ok_set hb daemon_ok_peer split: option.split)
qed

interpretation daemon: step_invariant "daemonStep rt" "daemon_ok rt" for rt
  by unfold_locales (rule daemonStep_ok)

lemma daemonRun_ok: "daemon_ok rt (daemonRun rt events)"
proof -
  have "daemon_ok rt newDaemon"
    by (simp add: daemon_ok_def newDaemon_def sentBy_def channelTickets_def NewCentralDispatcher_def)
  then show ?thesis by (simp add: daemonRun_def daemon.run_kept)
qed

section \<open>Properties\<close>

text \<open>C25: Whatever the clients send and however the goroutines interleave, a connection plays one role: in the dispatcher's
  queue it has nothing, or exactly one dispatcher registration for its own channel, or exactly one camera
  registration followed by observations all at that camera's road and at one mile marker.\<close>

theorem one_role_per_connection:
  "sentBy i (dm_Log (daemonRun rt events)) = [] \<or>
   (\<exists>roads. sentBy i (dm_Log (daemonRun rt events)) = [RegisterDispatcher roads i]) \<or>
   (\<exists>road mile limit obs. sentBy i (dm_Log (daemonRun rt events)) = RegisterCamera road limit # obs \<and>
      list_all (\<lambda>m. \<exists>plate timestamp. m = Observation road plate mile timestamp) obs)"
proof (cases "dm_Peers (daemonRun rt events) i")
  case None
  then show ?thesis using daemon_ok_none[OF daemonRun_ok] by simp
next
  case (Some p)
  then have "role_ok i (sentBy i (dm_Log (daemonRun rt events))) p"
    using daemon_ok_peer[OF daemonRun_ok] by (simp add: peer_ok_def)
  then show ?thesis
  proof (cases "cn_ConnKind (pr_Conn p)")
    case camera
    then obtain obs where obs: "sentBy i (dm_Log (daemonRun rt events)) =
        RegisterCamera (cn_Road (pr_Conn p)) (cn_Limit (pr_Conn p)) # obs"
      "list_all (observationAt (cn_Road (pr_Conn p)) (cn_Mile (pr_Conn p)) (pr_Received p)) obs"
      using \<open>role_ok _ _ p\<close> by (auto simp: role_ok_def)
    have "list_all (\<lambda>m. \<exists>plate timestamp. m = Observation (cn_Road (pr_Conn p)) plate (cn_Mile (pr_Conn p)) timestamp) obs"
      by (rule list.pred_mono_strong[OF obs(2)]) (auto simp: observationAt_def)
    then show ?thesis using obs(1) by blast
  qed (auto simp: role_ok_def)
qed

text \<open>A message in the queue is a message some connection received.\<close>

definition camera_at :: "Daemon \<Rightarrow> U16 \<Rightarrow> U16 \<Rightarrow> ClientMessage list \<Rightarrow> bool" where
  "camera_at d road mile ms \<longleftrightarrow>
     (\<exists>i p limit. dm_Peers d i = Some p \<and> IAmCameraMessage road mile limit \<in> set (pr_Received p) \<and>
        set ms \<subseteq> set (pr_Received p))"

lemma log_role:
  assumes "(i, m) \<in> set (dm_Log (daemonRun rt events))"
  obtains p where "dm_Peers (daemonRun rt events) i = Some p" "role_ok i (sentBy i (dm_Log (daemonRun rt events))) p"
    "m \<in> set (sentBy i (dm_Log (daemonRun rt events)))"
proof (cases "dm_Peers (daemonRun rt events) i")
  case None
  then show ?thesis using daemon_ok_none[OF daemonRun_ok None] assms by (simp flip: set_sentBy)
next
  case (Some p)
  then show ?thesis using that daemon_ok_peer[OF daemonRun_ok Some] assms by (simp add: peer_ok_def set_sentBy)
qed

lemma log_observation:
  assumes "(i, Observation road plate mile timestamp) \<in> set (dm_Log (daemonRun rt events))"
  shows "camera_at (daemonRun rt events) road mile [PlateMessage plate timestamp]"
  using assms
proof (rule log_role)
  fix p assume p: "dm_Peers (daemonRun rt events) i = Some p" "role_ok i (sentBy i (dm_Log (daemonRun rt events))) p"
    "Observation road plate mile timestamp \<in> set (sentBy i (dm_Log (daemonRun rt events)))"
  then show ?thesis
    by (cases "cn_ConnKind (pr_Conn p)") (fastforce simp: role_ok_def observationAt_def list_all_iff camera_at_def)+
qed

lemma log_dispatcher:
  assumes "(i, RegisterDispatcher roads ch) \<in> set (dm_Log (daemonRun rt events))"
  shows "ch = i \<and> (\<exists>p n. dm_Peers (daemonRun rt events) i = Some p \<and> IAmDispatcherMessage n roads \<in> set (pr_Received p))"
  using assms
proof (rule log_role)
  fix p assume p: "dm_Peers (daemonRun rt events) i = Some p" "role_ok i (sentBy i (dm_Log (daemonRun rt events))) p"
    "RegisterDispatcher roads ch \<in> set (sentBy i (dm_Log (daemonRun rt events)))"
  then show ?thesis
    by (cases "cn_ConnKind (pr_Conn p)") (auto simp: role_ok_def observationAt_def list_all_iff)
qed

text \<open>C20: From socket to socket: every ticket the daemon hands to a connection for writing goes to a connection that sent
  an \<open>IAmDispatcher\<close> for its road, and rests on plates that cameras of that road, at the ticket's two
  mile markers, reported with the ticket's two timestamps, in this order.\<close>

theorem tickets_end_to_end:
  assumes "runtime_ok rt" "d = daemonRun rt events" "k < dm_Taken d i" "t = channelTickets i (dm_Central d) ! k"
  shows "(\<exists>p n roads. dm_Peers d i = Some p \<and> IAmDispatcherMessage n roads \<in> set (pr_Received p) \<and> tk_Road t \<in> set roads) \<and>
    camera_at d (tk_Road t) (tk_MileOne t) [PlateMessage (tk_Plate t) (tk_TimeStampOne t)] \<and>
    camera_at d (tk_Road t) (tk_MileTwo t) [PlateMessage (tk_Plate t) (tk_TimeStampTwo t)] \<and>
    tk_TimeStampOne t \<le> tk_TimeStampTwo t"
proof -
  let ?queue = "map snd (take (dm_Handled d) (dm_Log d))"
  have ok: "dm_Taken d i \<le> length (channelTickets i (dm_Central d))"
    "dm_Central d = Start rt ?queue NewCentralDispatcher"
    using daemonRun_ok[of rt events] unfolding assms(2) daemon_ok_def by auto
  have "t \<in> set (channelTickets i (dm_Central d))" using ok(1) assms(3,4) by simp
  then have "(i, t) \<in> set (cd_Sent (Start rt ?queue NewCentralDispatcher))" using ok(2) by (auto simp: channelTickets_def)
  then have j: "justified rt ?queue i t" by (rule sent_justified[OF assms(1)])
  have q: "\<exists>c. (c, m) \<in> set (dm_Log d)" if "m \<in> set ?queue" for m
    using that set_take_subset[of "dm_Handled d" "dm_Log d"] by auto
  from j obtain c1 where c1: "(c1, Observation (tk_Road t) (tk_Plate t) (tk_MileOne t) (tk_TimeStampOne t)) \<in> set (dm_Log d)"
    using q unfolding justified_def by blast
  from j obtain c2 where c2: "(c2, Observation (tk_Road t) (tk_Plate t) (tk_MileTwo t) (tk_TimeStampTwo t)) \<in> set (dm_Log d)"
    using q unfolding justified_def by blast
  from j obtain c roads where c: "(c, RegisterDispatcher roads i) \<in> set (dm_Log d)" "tk_Road t \<in> set roads"
    using q unfolding justified_def by blast
  have "camera_at d (tk_Road t) (tk_MileOne t) [PlateMessage (tk_Plate t) (tk_TimeStampOne t)]"
    using c1 unfolding assms(2) by (rule log_observation)
  moreover have "camera_at d (tk_Road t) (tk_MileTwo t) [PlateMessage (tk_Plate t) (tk_TimeStampTwo t)]"
    using c2 unfolding assms(2) by (rule log_observation)
  moreover have "i = c \<and> (\<exists>p n. dm_Peers d c = Some p \<and> IAmDispatcherMessage n roads \<in> set (pr_Received p))"
    using c(1) unfolding assms(2) by (rule log_dispatcher)
  moreover have "tk_TimeStampOne t \<le> tk_TimeStampTwo t" using j by (simp add: justified_def)
  ultimately show ?thesis using c(2) by blast
qed

section \<open>A run of the daemon\<close>

definition dispatcherBytes :: bytes where
  "dispatcherBytes = [0x81, 1, 0, 5]"

definition cameraBytes :: "U16 \<Rightarrow> U32 \<Rightarrow> bytes" where
  "cameraBytes mile timestamp =
     [0x80, 0, 5] @ writeU16 mile @ [0, 60] @ [0x20, 1, 85] @ writeU32 timestamp"

definition sampleEvents :: "Event list" where
  "sampleEvents =
     [Accept 7, Read 7 dispatcherBytes, Handle 7,
      Accept 1, Read 1 (cameraBytes 0 0), Handle 1, Handle 1,
      Accept 2, Read 2 (cameraBytes 100 3600), Handle 2, Handle 2,
      Dispatch, Dispatch, Dispatch, Dispatch, Dispatch, Deliver 7]"

lemma sample_extracts:
  "ExtractFromSbBuffer (NewSdBuffer dispatcherBytes) = ([IAmDispatcherMessage 1 [5]], 4)"
  "ExtractFromSbBuffer (NewSdBuffer (cameraBytes 0 0)) = ([IAmCameraMessage 5 0 60, PlateMessage [85] 0], 14)"
  "ExtractFromSbBuffer (NewSdBuffer (cameraBytes 100 3600)) = ([IAmCameraMessage 5 100 60, PlateMessage [85] 3600], 14)"
  by code_simp+

lemmas daemon_simps = newDaemon_def newPeer_def readData_def sample_extracts registerCamera_def registerDispatcher_def
  handlePlateMessage_def

lemma sample_daemon:
  "dm_Taken (daemonRun stableRuntime sampleEvents) 7 = 1"
  "channelTickets 7 (dm_Central (daemonRun stableRuntime sampleEvents)) =
   [\<lparr>tk_Plate = [85], tk_Road = 5, tk_MileOne = 0, tk_TimeStampOne = 0, tk_MileTwo = 100,
     tk_TimeStampTwo = 3600, tk_Speed = 10000\<rparr>]"
  by (simp_all add: daemonRun_def sampleEvents_def daemon_simps channelTickets_def stableRuntime_def run_simps)

theorem tickets_end_to_end_witness:
  "camera_at (daemonRun stableRuntime sampleEvents) 5 100 [PlateMessage [85] 3600]"
  using tickets_end_to_end[OF stableRuntime_ok refl, of 0 sampleEvents 7] by (simp add: sample_daemon)

text \<open>
  A dispatcher that has gone stays registered: its tickets are written to the closed connection and lost, although
  another dispatcher of the road is there, and the day counts as ticketed.
\<close>

definition goneEvents :: "Event list" where
  "goneEvents =
     [Accept 7, Read 7 dispatcherBytes, Handle 7, Accept 8, Read 8 dispatcherBytes, Handle 8, ReadError 7,
      Accept 1, Read 1 (cameraBytes 0 0), Handle 1, Handle 1, Accept 2, Read 2 (cameraBytes 100 3600), Handle 2, Handle 2,
      Dispatch, Dispatch, Dispatch, Dispatch, Dispatch, Dispatch, Deliver 7, Deliver 8]"

theorem gone_dispatcher_loses_ticket:
  "let d = daemonRun stableRuntime goneEvents in
   dm_Taken d 7 = 1 \<and> map_option pr_Written (dm_Peers d 7) = Some [] \<and> map_option pr_Written (dm_Peers d 8) = Some [] \<and>
   cd_Tickets (dm_Central d) [85] = [0]"
  by (simp add: daemonRun_def goneEvents_def daemon_simps channelTickets_def stableRuntime_def run_simps closeConn_def
      writeMessage_def ticketDays_def dayRange_def Let_def split: option.split)

section \<open>What is written to a connection\<close>

fun fromServer :: "ClientMessage \<Rightarrow> bool" where
  "fromServer (ErrorMessage content) \<longleftrightarrow> True"
| "fromServer (Ticket t) \<longleftrightarrow> True"
| "fromServer HeartbeatMessage \<longleftrightarrow> True"
| "fromServer m \<longleftrightarrow> False"

lemma takeMessage_encoded:
  assumes "EncodeMessage m = Some e" "message_ok m"
  shows "takeMessage (e @ rest) = Some (m, rest)"
proof -
  obtain body where body: "encodeBody m = Some body" "e = GetType m # body"
    using assms(1) by (auto simp: EncodeMessage_body)
  from decode_written[OF assms(2) body(1), of rest 1] obtain d where
    "decoderFor (GetType m) = Some d"
    "d \<lparr>sb_Reader = body @ rest, sb_ValidBytes = 1\<rparr> = Some (m, \<lparr>sb_Reader = rest, sb_ValidBytes = 1 + length body\<rparr>)"
    by blast
  then have "DecodeMessage (NewSdBuffer (GetType m # body @ rest)) = Inr (m, \<lparr>sb_Reader = rest, sb_ValidBytes = 1 + length body\<rparr>)"
    by (simp add: DecodeMessage_Inr)
  then show ?thesis by (simp add: takeMessage_def body(2))
qed

definition output_ok :: "Peer \<Rightarrow> bool" where
  "output_ok p \<longleftrightarrow> (\<exists>ms. frames takeMessage (pr_Written p) = (ms, []) \<and> list_all fromServer ms)"

lemma output_ok_write:
  assumes "output_ok p" "fromServer m"
  shows "output_ok (writeMessage m p)"
proof (cases "EncodeMessage m")
  case (Some e)
  have "message_ok m" using assms(2) by (cases m) auto
  then have "takeMessage (e @ []) = Some (m, [])" by (rule takeMessage_encoded[OF Some])
  then have "frames takeMessage e = ([m], [])"
    by (simp add: message_framer.frames_Some message_framer.frames_None) (simp add: takeMessage_def DecodeMessage_def NewSdBuffer_def message_framer.frames_None)
  then have "frames takeMessage (pr_Written p @ e) = (fst (frames takeMessage (pr_Written p)) @ [m], [])"
    if "frames takeMessage (pr_Written p) = (ms, [])" for ms
    using message_framer.frames_append[of "pr_Written p" e] that by simp
  then show ?thesis using assms Some by (auto simp: output_ok_def writeMessage_def)
qed (use assms in \<open>simp add: writeMessage_def\<close>)

lemma output_ok_cong: "output_ok p \<Longrightarrow> pr_Written q = pr_Written p \<Longrightarrow> output_ok q"
  by (simp add: output_ok_def)

lemma output_ok_sendError: "output_ok p \<Longrightarrow> output_ok (sendError e p)"
  by (simp add: sendError_def output_ok_write)

lemma output_ok_closeConn: "output_ok p \<Longrightarrow> output_ok (closeConn p)"
  by (simp add: output_ok_def)

text \<open>
  An invariant of single connections: the interface says which operations of a connection must keep it, and
  then it holds of every connection in every run.
\<close>

locale peer_invariant =
  fixes P :: "Peer \<Rightarrow> bool"
  assumes new: "P newPeer"
    and reading: "P p \<Longrightarrow> P (readData chunk p)"
    and closing: "P p \<Longrightarrow> P (closeConn p)"
    and writing: "P p \<Longrightarrow> fromServer m \<Longrightarrow> P (writeMessage m p)"
    and processing: "P p \<Longrightarrow> P ((fst (processMessage i m p))\<lparr>pr_Pending := ms\<rparr>)"
begin

lemma daemonStep_keeps:
  assumes "\<forall>i p. dm_Peers d i = Some p \<longrightarrow> P p"
  shows "\<forall>i p. dm_Peers (daemonStep rt ev d) i = Some p \<longrightarrow> P p"
proof (cases ev)
  case (Handle i)
  have "P (p1\<lparr>pr_Pending := ms\<rparr>)" if "processMessage i m p = (p1, out, c)" "P p" for m p p1 out c ms
    using processing[OF that(2), where i = i and m = m and ms = ms] that(1) by simp
  then show ?thesis using Handle assms by (auto split: option.splits list.splits prod.splits if_splits)
next
  case (Beat i)
  have "P (heartbeat p)" if "P p" for p using that writing by (simp add: heartbeat_def)
  then show ?thesis using Beat assms by (auto split: option.splits if_splits)
qed (use assms in \<open>auto split: option.splits if_splits intro: new reading closing writing\<close>)

end

sublocale peer_invariant \<subseteq> peers: step_invariant "daemonStep rt" "\<lambda>d. \<forall>i p. dm_Peers d i = Some p \<longrightarrow> P p" for rt
  by unfold_locales (rule daemonStep_keeps)

context peer_invariant
begin

lemma run_keeps: "dm_Peers (daemonRun rt events) i = Some p \<Longrightarrow> P p"
  using peers.run_kept[of newDaemon rt events] by (simp add: daemonRun_def newDaemon_def)

end

interpretation outputs: peer_invariant output_ok
proof unfold_locales
  show "output_ok newPeer"
    by (simp add: output_ok_def newPeer_def takeMessage_def DecodeMessage_def NewSdBuffer_def message_framer.frames_None)
  show "output_ok (readData chunk p)" if "output_ok p" for chunk p
    by (rule output_ok_cong[OF that]) (simp add: readData_def Let_def split: prod.split)
  have fst: "output_ok (fst (processMessage i m p))" if "output_ok p" for i m p
    using that by (cases m) (auto simp: handler_defs Let_def intro: output_ok_sendError output_ok_closeConn output_ok_cong split: prod.split)
  show "output_ok ((fst (processMessage i m p))\<lparr>pr_Pending := ms\<rparr>)" if "output_ok p" for i m p ms
    by (rule output_ok_cong[of "fst (processMessage i m p)"]) (simp_all add: that fst)
qed (auto intro: output_ok_closeConn output_ok_write)

text \<open>C26: Everything the daemon writes to a connection is a sequence of complete messages a client can decode,
  each an error, a ticket or a heartbeat, in any interleaving of the goroutines.\<close>

theorem output_is_server_messages:
  assumes "dm_Peers (daemonRun rt events) i = Some p"
  shows "\<exists>ms. frames takeMessage (pr_Written p) = (ms, []) \<and> list_all fromServer ms"
  using outputs.run_keeps[OF assms] by (simp add: output_ok_def)

text \<open>Connections are never forgotten.\<close>

interpretation known: step_invariant "daemonStep rt" "\<lambda>d. dm_Peers d i \<noteq> None" for rt i
proof unfold_locales
  show "dm_Peers (daemonStep rt ev d) i \<noteq> None" if "dm_Peers d i \<noteq> None" for d ev
    using that by (cases ev) (auto split: option.split list.split prod.split)
qed

definition heartbeatEvents :: "Event list" where
  "heartbeatEvents = [Accept 3, Read 3 [0x40, 0, 0, 0, 10], Handle 3, Beat 3, Read 3 [0x40, 0, 0, 0, 5], Handle 3]"

lemma heartbeat_peer: "\<exists>p. dm_Peers (daemonRun rt heartbeatEvents) 3 = Some p"
proof -
  have "daemonRun rt heartbeatEvents = fold (daemonStep rt) (tl heartbeatEvents) (daemonStep rt (Accept 3) newDaemon)"
    by (simp add: daemonRun_def heartbeatEvents_def del: daemonStep.simps)
  moreover have "dm_Peers (daemonStep rt (Accept 3) newDaemon) 3 \<noteq> None" by (simp add: newDaemon_def)
  ultimately show ?thesis using known.run_kept by (metis not_None_eq)
qed

theorem output_is_server_messages_witness:
  "\<exists>p ms. dm_Peers (daemonRun stableRuntime heartbeatEvents) 3 = Some p \<and> frames takeMessage (pr_Written p) = (ms, [])"
  using heartbeat_peer output_is_server_messages by blast

section \<open>Refusals and heartbeats\<close>

lemma tenth_nonzero:
  assumes i: "1 \<le> n" "n < 2 ^ 32"
  shows "floatOfInt n * roundF64 (1 / 10) \<noteq> Fin 0"
proof -
  have f: "floatOfInt n = Fin (of_int n)" using i by (intro floatOfInt_exact) simp
  obtain c where c: "roundF64 (1 / 10) = Fin c" "relErr (1 / 2 ^ 53) (1 / 10) c"
    using roundF64_relErr[of "1 / 10"] by auto
  from relErr_range[OF c(2)] have c2: "1 / 20 \<le> c" "c \<le> 1 / 5" by simp_all
  have r: "1 \<le> (of_int n :: rat)" "(of_int n :: rat) \<le> 2 ^ 32"
    using i by simp_all
  have "1 * (1 / 20) \<le> of_int n * c" using r(1) c2(1) by (intro mult_mono) simp_all
  moreover have "of_int n * c \<le> 2 ^ 32 * (1 / 5)" using r c2 by (intro mult_mono) simp_all
  ultimately obtain y where y: "roundF64 (of_int n * c) = Fin y" "relErr (1 / 2 ^ 53) (of_int n * c) y"
      and p: "0 < of_int n * c"
    using roundF64_relErr[of "of_int n * c"] by auto
  from relErr_range(3)[OF y(2) _ p] have "y \<noteq> 0" by simp
  then show ?thesis by (simp add: f c(1) y(1))
qed

lemma heartbeat_nonzero:
  assumes "interval \<noteq> (0 :: U32)"
  shows "floatOfInt (uint interval) * roundF64 (1 / 10) \<noteq> Fin 0"
proof (rule tenth_nonzero)
  have "uint interval \<noteq> 0" using assms by (metis uint_0_iff)
  then show "1 \<le> uint interval" using uint_ge_0[of interval] by linarith
  show "uint interval < 2 ^ 32" using uint_bounded[of interval] by simp
qed

text \<open>C27: The daemon refuses what the protocol forbids: a second role, a plate from a connection that is no camera, and a
  heartbeat request after one with a non-zero interval are each answered with an error message and a closed
  socket, put nothing in the dispatcher's queue, and leave the connection's state unchanged.\<close>

theorem forbidden_requests_are_refused:
  assumes "m = IAmCameraMessage road mile limit \<and> cn_ConnKind (pr_Conn p) \<noteq> unknown \<or>
           m = IAmDispatcherMessage numroads roads \<and> cn_ConnKind (pr_Conn p) \<noteq> unknown \<or>
           m = PlateMessage plate timestamp \<and> cn_ConnKind (pr_Conn p) \<noteq> camera \<or>
           m = WantHeartbeatMessage interval \<and> p = handleHeartbeatRequest interval0 p0 \<and> interval0 \<noteq> 0"
  shows "\<exists>e. fst (processMessage i m p) = closeConn (sendError e p) \<and> fst (snd (processMessage i m p)) = []"
proof -
  have "cn_HBInterval (pr_Conn (handleHeartbeatRequest interval0 p0)) \<noteq> Fin 0" if "interval0 \<noteq> 0"
    using heartbeat_nonzero[OF that] by (simp add: handleHeartbeatRequest_def Let_def)
  then show ?thesis using assms
    by (auto simp: handler_defs)
qed

theorem forbidden_requests_are_refused_witness:
  "\<not> pr_Open (fst (processMessage 1 (WantHeartbeatMessage 5) (handleHeartbeatRequest 10 newPeer)))"
  using forbidden_requests_are_refused[of "WantHeartbeatMessage 5" 0 0 0 "handleHeartbeatRequest 10 newPeer" 0 "[]" "[]" 0 5 10 newPeer 1]
  by (auto simp del: processMessage.simps)

definition beats_ok :: "Peer \<Rightarrow> bool" where
  "beats_ok p \<longleftrightarrow> filter (\<lambda>hb. hb \<noteq> Fin 0) (pr_Beats p) = (if cn_HBInterval (pr_Conn p) = Fin 0 then [] else [cn_HBInterval (pr_Conn p)])"

interpretation beats: peer_invariant beats_ok
proof unfold_locales
  show "beats_ok ((fst (processMessage i m p))\<lparr>pr_Pending := ms\<rparr>)" if "beats_ok p" for i m p ms
    using that by (cases m) (auto simp: beats_ok_def handler_defs Let_def)
qed (auto simp: beats_ok_def newPeer_def readData_def Let_def split: prod.split)

text \<open>However often the client asks, of the intervals heartbeats are started with at most one is not zero, and it is the one
  the connection has on record.\<close>

theorem at_most_one_heartbeat:
  assumes "dm_Peers (daemonRun rt events) i = Some p"
  shows "filter (\<lambda>hb. hb \<noteq> Fin 0) (pr_Beats p) \<in> {[], [cn_HBInterval (pr_Conn p)]}"
  using beats.run_keeps[OF assms] by (simp add: beats_ok_def)

theorem at_most_one_heartbeat_witness:
  "\<exists>p. dm_Peers (daemonRun stableRuntime heartbeatEvents) 3 = Some p \<and> length (filter (\<lambda>hb. hb \<noteq> Fin 0) (pr_Beats p)) \<le> 1"
proof -
  obtain p where p: "dm_Peers (daemonRun stableRuntime heartbeatEvents) 3 = Some p" using heartbeat_peer by blast
  with at_most_one_heartbeat[OF p] show ?thesis by auto
qed

text \<open>
  An unknown message is answered with the words "Closing connection", but the connection stays open, and
  the byte stays at the front of the buffer, so no later message of the client is ever read.
\<close>

lemma unknown_extracts:
  "ExtractFromSbBuffer (NewSdBuffer [0xFF]) = ([invalidNotice], 0)"
  "ExtractFromSbBuffer (NewSdBuffer (0xFF # cameraBytes 0 0)) = ([invalidNotice], 0)"
  by code_simp+

theorem unknown_message_keeps_connection:
  "\<exists>p. dm_Peers (daemonRun rt [Accept 1, Read 1 [0xFF], Handle 1, Read 1 (cameraBytes 0 0), Handle 1]) 1 = Some p \<and>
     pr_Open p \<and> cn_ConnKind (pr_Conn p) = unknown \<and> hd (pr_Buffer p) = 0xFF"
proof -
  have n: "processMessage i invalidNotice p = (sendError ''Unknown message. Closing connection'' p, [], False)" for i p
    by (simp add: invalidNotice_def)
  have u: "sendError e (p\<lparr>pr_Pending := ms\<rparr>) = (sendError e p)\<lparr>pr_Pending := ms\<rparr>" for e p ms
    by (simp add: sendError_def writeMessage_def split: option.split)
  show ?thesis by (simp add: daemonRun_def daemon_simps unknown_extracts n)
qed

end
