(* ===== verification/Go_Files.thy ===== *)
theory Go_Files
  imports Go_Strings "HOL-Library.AList" "HOL-Library.List_Lexorder" "HOL-Library.Char_ord"
begin

text \<open>
  What the code storage server uses of \<open>path/filepath\<close> and \<open>os\<close>. A disk is an association list from
  resolved paths (lists of names below the working directory, which is taken as the root) to
  directories and regular files; there are no symbolic links, and operations fail only for
  the structural reasons given here (space, permissions and name lengths are not modelled).
\<close>

section \<open>Paths\<close>

abbreviation sep :: char where "sep \<equiv> CHR ''/''"

text \<open>The kernel's walk along the names of a path; the accumulator is reversed.\<close>

fun walk :: "string list \<Rightarrow> string list \<Rightarrow> string list" where
  "walk acc [] = acc"
| "walk acc (n # ns) =
     walk (if n = '''' \<or> n = ''.'' then acc else if n = ''..'' then tl acc else n # acc) ns"

definition resolve :: "string \<Rightarrow> string list" where
  "resolve p = rev (walk [] (splitOn sep p))"

text \<open>\<open>filepath.Clean\<close>: the stack is reversed and may have \<open>..\<close> at its bottom for a relative path.\<close>

fun cleanWalk :: "bool \<Rightarrow> string list \<Rightarrow> string list \<Rightarrow> string list" where
  "cleanWalk rooted st [] = st"
| "cleanWalk rooted st (n # ns) =
     cleanWalk rooted
       (if n = '''' \<or> n = ''.'' then st
        else if n = ''..''
          then (case st of [] \<Rightarrow> if rooted then [] else [''..''] | t # ts \<Rightarrow> if t = ''..'' then ''..'' # st else ts)
        else n # st) ns"

definition IsAbs :: "string \<Rightarrow> bool" where
  "IsAbs p \<longleftrightarrow> p \<noteq> [] \<and> hd p = sep"

definition Clean :: "string \<Rightarrow> string" where
  "Clean p =
     (let st = rev (cleanWalk (IsAbs p) [] (splitOn sep p)) in
      if IsAbs p then sep # joinWith sep st else if st = [] then ''.'' else joinWith sep st)"

text \<open>\<open>filepath.Join\<close> of two elements.\<close>

definition Join :: "string \<Rightarrow> string \<Rightarrow> string" where
  "Join a b = (if a \<noteq> [] then Clean (a @ sep # b) else if b \<noteq> [] then Clean b else [])"

text \<open>The part behind the last separator, and the part up to it.\<close>

definition afterSep :: "char \<Rightarrow> string \<Rightarrow> string" where
  "afterSep c p = rev (takeWhile (\<lambda>x. x \<noteq> c) (rev p))"

definition uptoSep :: "char \<Rightarrow> string \<Rightarrow> string" where
  "uptoSep c p = rev (dropWhile (\<lambda>x. x \<noteq> c) (rev p))"

definition Dir :: "string \<Rightarrow> string" where
  "Dir p = Clean (uptoSep sep p)"

definition Base :: "string \<Rightarrow> string" where
  "Base p =
     (if p = [] then ''.''
      else let b = afterSep sep (rev (dropWhile (\<lambda>x. x = sep) (rev p))) in if b = [] then ''/'' else b)"

definition Ext :: "string \<Rightarrow> string" where
  "Ext p = (let b = afterSep sep p in if CHR ''.'' \<in> set b then CHR ''.'' # afterSep (CHR ''.'') b else [])"

text \<open>What an entry of a directory can be called.\<close>

definition simpleName :: "string \<Rightarrow> bool" where
  "simpleName n \<longleftrightarrow> n \<noteq> '''' \<and> n \<noteq> ''.'' \<and> n \<noteq> ''..'' \<and> sep \<notin> set n"

section \<open>The disk\<close>

datatype Node = Directory | Regular string

type_synonym Disk = "(string list \<times> Node) list"

definition osStat :: "Disk \<Rightarrow> string \<Rightarrow> Node option" where
  "osStat d p = (if resolve p = [] then Some Directory else map_of d (resolve p))"

definition isDirKey :: "Disk \<Rightarrow> string list \<Rightarrow> bool" where
  "isDirKey d k \<longleftrightarrow> k = [] \<or> map_of d k = Some Directory"

text \<open>\<open>os.Create\<close>: truncates or makes a regular file in an existing directory.\<close>

definition osCreate :: "Disk \<Rightarrow> string \<Rightarrow> Disk option" where
  "osCreate d p =
     (let k = resolve p in
      if k \<noteq> [] \<and> isDirKey d (butlast k) \<and> map_of d k \<noteq> Some Directory then Some (AList.update k (Regular []) d) else None)"

text \<open>The content after all writes to the file at \<open>p\<close>.\<close>

definition osWrite :: "Disk \<Rightarrow> string \<Rightarrow> string \<Rightarrow> Disk" where
  "osWrite d p content = AList.update (resolve p) (Regular content) d"

definition osRemove :: "Disk \<Rightarrow> string \<Rightarrow> Disk option" where
  "osRemove d p =
     (case map_of d (resolve p) of
        Some (Regular content) \<Rightarrow> Some (AList.delete (resolve p) d)
      | _ \<Rightarrow> None)"

text \<open>\<open>os.MkdirAll\<close>: makes every missing directory on the way; fails where a regular file is in it.\<close>

fun mkdirs :: "string list \<Rightarrow> string list \<Rightarrow> Disk \<Rightarrow> Disk option" where
  "mkdirs k [] d = Some d"
| "mkdirs k (n # ns) d =
     (case map_of d (k @ [n]) of
        None \<Rightarrow> mkdirs (k @ [n]) ns (AList.update (k @ [n]) Directory d)
      | Some Directory \<Rightarrow> mkdirs (k @ [n]) ns d
      | Some (Regular content) \<Rightarrow> None)"

definition osMkdirAll :: "Disk \<Rightarrow> string \<Rightarrow> Disk option" where
  "osMkdirAll d p = mkdirs [] (resolve p) d"

definition osRemoveAll :: "Disk \<Rightarrow> string \<Rightarrow> Disk" where
  "osRemoveAll d p = filter (\<lambda>(q, node). take (length (resolve p)) q \<noteq> resolve p) d"

text \<open>\<open>os.ReadDir\<close>: the names in a directory, sorted, with what is there.\<close>

definition dirNames :: "Disk \<Rightarrow> string list \<Rightarrow> string list" where
  "dirNames d k = sort (remdups (filter simpleName (map last (filter (\<lambda>q. q \<noteq> [] \<and> butlast q = k) (map fst d)))))"

section \<open>Lemmas on paths\<close>

lemma walk_append: "walk acc (xs @ ys) = walk (walk acc xs) ys"
  by (induction xs arbitrary: acc) auto

lemma splitOn_append_sep: "splitOn s (a @ s # b) = splitOn s a @ splitOn s b"
  by (induction a) (auto split: list.splits)

lemma resolve_append: "resolve (a @ sep # b) = rev (walk (rev (resolve a)) (splitOn sep b))"
  by (simp add: resolve_def splitOn_append_sep walk_append)

lemma resolve_child: "simpleName n \<Longrightarrow> resolve (a @ sep # n) = resolve a @ [n]"
  by (simp add: resolve_append simpleName_def splitOn_no_sep)

lemma walk_names: "\<forall>n\<in>set ns. simpleName n \<Longrightarrow> walk acc ns = rev ns @ acc"
  by (induction ns arbitrary: acc) (auto simp: simpleName_def)

definition notUp :: "string \<Rightarrow> bool" where
  "notUp n \<longleftrightarrow> n \<noteq> ''..''"

lemma cleanWalk_walk:
  "takeWhile notUp (cleanWalk rooted st ns) = walk (takeWhile notUp st) ns"
proof (induction rooted st ns rule: cleanWalk.induct)
  case (2 rooted st n ns)
  let ?st = "if n = '''' \<or> n = ''.'' then st
        else if n = ''..''
          then (case st of [] \<Rightarrow> if rooted then [] else [''..''] | t # ts \<Rightarrow> if t = ''..'' then ''..'' # st else ts)
        else n # st"
  have st: "takeWhile notUp ?st =
    (if n = '''' \<or> n = ''.'' then takeWhile notUp st else if n = ''..'' then tl (takeWhile notUp st) else n # takeWhile notUp st)"
    by (cases st) (simp_all add: notUp_def)
  show ?case unfolding cleanWalk.simps walk.simps "2.IH" st by (rule refl)
qed simp

lemma resolve_join:
  assumes "\<forall>n\<in>set ns. simpleName n"
  shows "walk [] (splitOn sep (joinWith sep (replicate k ''..'' @ ns))) = rev ns"
proof (cases "replicate k ''..'' @ ns = []")
  case False
  have "sep \<notin> set n" if "n \<in> set (replicate k ''..'' @ ns)" for n
  proof (cases "n \<in> set ns")
    case True
    then show ?thesis using assms by (simp add: simpleName_def)
  next
    case False
    then have "n = ''..''" using that by simp
    then show ?thesis by simp
  qed
  then have "\<forall>n\<in>set (replicate k ''..'' @ ns). sep \<notin> set n" by blast
  moreover have "walk [] (replicate k ''..'' @ ns) = rev ns" using assms
    by (induction k) (simp_all add: walk_names)
  ultimately show ?thesis by (simp add: split_join[OF False])
qed simp

lemma cleanWalk_shape:
  assumes "\<forall>n\<in>set ns. sep \<notin> set n" "\<exists>k names. st = names @ replicate k ''..'' \<and> (\<forall>n\<in>set names. simpleName n)"
  shows "\<exists>k names. cleanWalk rooted st ns = names @ replicate k ''..'' \<and> (\<forall>n\<in>set names. simpleName n)"
  using assms
proof (induction rooted st ns rule: cleanWalk.induct)
  case (2 rooted st n ns)
  from "2.prems"(2) obtain k names where st: "st = names @ replicate k ''..''" "\<forall>n\<in>set names. simpleName n" by blast
  let ?st = "if n = '''' \<or> n = ''.'' then st
        else if n = ''..''
          then (case st of [] \<Rightarrow> if rooted then [] else [''..''] | t # ts \<Rightarrow> if t = ''..'' then ''..'' # st else ts)
        else n # st"
  have "\<exists>k names. ?st = names @ replicate k ''..'' \<and> (\<forall>n\<in>set names. simpleName n)"
  proof (cases "n = ''..''")
    case True
    show ?thesis
    proof (cases names)
      case Nil
      have "?st = [] @ replicate (if k = 0 \<and> rooted then 0 else Suc k) ''..''"
        using st Nil True by (cases k) auto
      then show ?thesis by (metis empty_iff list.set(1))
    next
      case (Cons t ts)
      then have "t \<noteq> ''..''" using st(2) by (auto simp: simpleName_def)
      then have "?st = ts @ replicate k ''..''" using st(1) Cons True by simp
      then show ?thesis using st(2) Cons by (metis list.set_intros(2))
    qed
  next
    case False
    show ?thesis
    proof (cases "n = '''' \<or> n = ''.''")
      case True
      then show ?thesis using st by auto
    next
      case nf: False
      then have "simpleName n" using False "2.prems"(1) by (simp add: simpleName_def)
      then have "?st = (n # names) @ replicate k ''..'' \<and> (\<forall>m\<in>set (n # names). simpleName m)" using nf False st by auto
      then show ?thesis by blast
    qed
  qed
  then show ?case using "2.IH" "2.prems"(1) by simp
qed simp

lemma resolve_Clean [simp]: "resolve (Clean p) = resolve p"
proof -
  let ?st = "cleanWalk (IsAbs p) [] (splitOn sep p)"
  obtain k names where st: "?st = names @ replicate k ''..''" "\<forall>n\<in>set names. simpleName n"
    using cleanWalk_shape[of "splitOn sep p" "[]" "IsAbs p"] splitOn_parts[of _ sep p] by auto
  have "takeWhile notUp ?st = names"
    unfolding st(1) using st(2) by (subst takeWhile_append2) (auto simp: notUp_def simpleName_def)
  then have n: "walk [] (splitOn sep p) = names" using cleanWalk_walk[of "IsAbs p" "[]" "splitOn sep p"] by simp
  have r: "rev ?st = replicate k ''..'' @ rev names" unfolding st(1) by simp
  have j: "walk [] (splitOn sep (joinWith sep (rev ?st))) = names"
    unfolding r using resolve_join[of "rev names" k] st(2) by simp
  then show ?thesis unfolding resolve_def n by (auto simp: Clean_def Let_def)
qed

lemma resolve_Join: "a \<noteq> [] \<Longrightarrow> simpleName n \<Longrightarrow> resolve (Join a n) = resolve a @ [n]"
  by (simp add: Join_def resolve_child)

section \<open>Lemmas on the disk\<close>

text \<open>What an operation keeps of a disk: everything but the regular file at one key.\<close>

definition keepsBut :: "string list \<Rightarrow> Disk \<Rightarrow> Disk \<Rightarrow> bool" where
  "keepsBut k d d' \<longleftrightarrow>
     (\<forall>q. map_of d q = Some Directory \<longrightarrow> map_of d' q = Some Directory) \<and>
     (\<forall>q content. q \<noteq> k \<longrightarrow> map_of d q = Some (Regular content) \<longrightarrow> map_of d' q = Some (Regular content))"

lemma keepsBut_refl [simp]: "keepsBut k d d"
  by (simp add: keepsBut_def)

lemma keepsBut_trans: "keepsBut k d d' \<Longrightarrow> keepsBut k d' d'' \<Longrightarrow> keepsBut k d d''"
  by (simp add: keepsBut_def)

lemma keepsBut_dir: "keepsBut k d d' \<Longrightarrow> isDirKey d q \<Longrightarrow> isDirKey d' q"
  by (auto simp: keepsBut_def isDirKey_def)

lemma mkdirs_keeps: "mkdirs k ns d = Some d' \<Longrightarrow> keepsBut q d d'"
proof (induction k ns d rule: mkdirs.induct)
  case (2 k n ns d)
  show ?case
  proof (cases "map_of d (k @ [n])")
    case None
    then have "keepsBut q d (AList.update (k @ [n]) Directory d)" by (auto simp: keepsBut_def update_conv')
    then show ?thesis using None 2 keepsBut_trans by fastforce
  next
    case (Some node)
    then show ?thesis using 2 by (cases node) auto
  qed
qed simp

lemma mkdirs_dir: "mkdirs k ns d = Some d' \<Longrightarrow> isDirKey d k \<Longrightarrow> isDirKey d' (k @ ns)"
proof (induction k ns d rule: mkdirs.induct)
  case (2 k n ns d)
  show ?case
  proof (cases "map_of d (k @ [n])")
    case None
    then show ?thesis using 2 by (simp add: isDirKey_def update_conv')
  next
    case (Some node)
    then show ?thesis using 2 by (cases node) (auto simp: isDirKey_def)
  qed
qed simp

lemma osMkdirAll_keeps: "osMkdirAll d p = Some d' \<Longrightarrow> keepsBut q d d'"
  unfolding osMkdirAll_def by (rule mkdirs_keeps)

lemma osMkdirAll_dir: "osMkdirAll d p = Some d' \<Longrightarrow> isDirKey d' (resolve p)"
  using mkdirs_dir[of "[]" "resolve p" d d'] by (simp add: osMkdirAll_def isDirKey_def)

text \<open>A directory all of whose ancestors exist is left alone.\<close>

lemma mkdirs_existing: "\<forall>j\<le>length ns. isDirKey d (k @ take j ns) \<Longrightarrow> mkdirs k ns d = Some d"
proof (induction k ns d rule: mkdirs.induct)
  case (2 k n ns d)
  from "2.prems"[rule_format, of 1] have m: "map_of d (k @ [n]) = Some Directory" by (simp add: isDirKey_def)
  have "\<forall>j\<le>length ns. isDirKey d ((k @ [n]) @ take j ns)"
    using "2.prems"[rule_format, of "Suc j" for j] by simp
  then show ?case using m "2.IH"(2)[OF m refl] by simp
qed simp

lemma osCreate_Some:
  assumes "osCreate d p = Some d'"
  shows "d' = AList.update (resolve p) (Regular []) d" "resolve p \<noteq> []" "isDirKey d (butlast (resolve p))"
    "map_of d (resolve p) \<noteq> Some Directory"
  using assms by (auto simp: osCreate_def Let_def split: if_splits)

lemma keepsBut_update: "map_of d k \<noteq> Some Directory \<Longrightarrow> keepsBut k d (AList.update k node d)"
  by (auto simp: keepsBut_def update_conv')

lemma keepsBut_delete: "map_of d k \<noteq> Some Directory \<Longrightarrow> keepsBut k d (AList.delete k d)"
  by (auto simp: keepsBut_def delete_conv')

end
