(* ===== verification/VCS_Store.thy ===== *)
theory VCS_Store
  imports Go_Files
begin

text \<open>
  \<open>internal/voraciouscodestorage\<close>, files \<open>file.go\<close>, \<open>versionedFile.go\<close>, \<open>folder.go\<close> and
  \<open>filemanager.go\<close>: versioned text files in a tree of folders, each revision a file on the disk. The Go
  maps of a folder are association lists; the disk is passed along. Locking is left out (the
  mutex of a versioned file makes its operations atomic, and an operation is one function here).
\<close>

section \<open>Errors and readers\<close>

datatype vcsError = ErrNonTextData | ErrExist | ErrNotExist | IoError string | NilPointer

text \<open>
  What is left to read from a connection: the pieces in which reads will deliver it, and whether the
  stream ends in an error other than \<open>io.EOF\<close>. A read takes at most the rest of one piece.
\<close>

record Reader =
  rd_Pieces :: "string list"
  rd_Fails :: bool

definition unread :: "Reader \<Rightarrow> string" where
  "unread r = concat (rd_Pieces r)"

section \<open>Text files\<close>

record File =
  fl_Name :: string
  fl_Ext :: string
  fl_Bytes :: int
  fl_AbsolutePath :: string

definition validText :: "string \<Rightarrow> bool" where
  "validText data = list_all (\<lambda>b. \<not> ((byte_of b < 32 \<or> byte_of b > 126) \<and> byte_of b \<noteq> 10 \<and> byte_of b \<noteq> 13 \<and> byte_of b \<noteq> 9)) data"

text \<open>
  The loop of \<open>NewTextFile\<close> on a reader limited to \<open>limit\<close> bytes: the error it ends with, what it wrote,
  and what is left to read.
\<close>

function copyText :: "nat \<Rightarrow> Reader \<Rightarrow> string \<Rightarrow> vcsError option \<times> string \<times> Reader" where
  "copyText limit r written =
     (if limit = 0 then (None, written, r)
      else
        (case rd_Pieces r of
           [] \<Rightarrow> (if rd_Fails r then Some (IoError ''error reading from reader'') else None, written, r)
         | piece # pieces \<Rightarrow>
             (let n = min (min 4096 limit) (length piece);
                  data = take n piece;
                  r1 = r\<lparr>rd_Pieces := (if n = length piece then pieces else drop n piece # pieces)\<rparr>
              in if \<not> validText data then (Some ErrNonTextData, written, r1)
                 else copyText (limit - n) r1 (written @ data))))"
  by pat_completeness auto
termination
  by (relation "measure (\<lambda>(limit, r, written). length (unread r) + length (rd_Pieces r))")
    (auto simp: unread_def min_def split: if_splits)

declare copyText.simps [simp del]

definition NewTextFile :: "Disk \<Rightarrow> Reader \<Rightarrow> string \<Rightarrow> string \<Rightarrow> int \<Rightarrow> (vcsError + File) \<times> Disk \<times> Reader" where
  "NewTextFile d r absPath ext numBytes =
     (if osStat d (Dir absPath) = None then (Inl (IoError ''path does not exist''), d, r)
      else
        (case osCreate d absPath of
           None \<Rightarrow> (Inl (IoError ''error creating file''), d, r)
         | Some d1 \<Rightarrow>
             (let (err, written, r1) = copyText (nat numBytes) r [];
                  d2 = osWrite d1 absPath written
              in case err of
                   Some ErrNonTextData \<Rightarrow>
                     (Inl ErrNonTextData, case osRemove d2 absPath of None \<Rightarrow> d2 | Some d3 \<Rightarrow> d3, r1)
                 | Some e \<Rightarrow> (Inl e, d2, r1)
                 | None \<Rightarrow>
                     (Inr \<lparr>fl_Name = Base absPath, fl_Ext = ext, fl_Bytes = numBytes, fl_AbsolutePath = absPath\<rparr>, d2, r1))))"

definition ReadFile :: "Disk \<Rightarrow> File \<Rightarrow> string option" where
  "ReadFile d f =
     (case osStat d (fl_AbsolutePath f) of
        Some (Regular content) \<Rightarrow> Some content
      | _ \<Rightarrow> None)"

definition DeleteFile :: "Disk \<Rightarrow> File \<Rightarrow> Disk option" where
  "DeleteFile d f = osRemove d (fl_AbsolutePath f)"

section \<open>Versioned files\<close>

record VersionedFile =
  vf_LatestVersion :: nat
  vf_AbsolutePath :: string
  vf_FileName :: string
  vf_Files :: "nat \<Rightarrow> File option"

definition NewVersionedFile ::
  "Disk \<Rightarrow> string \<Rightarrow> Reader \<Rightarrow> int \<Rightarrow> (vcsError + VersionedFile) \<times> Disk \<times> Reader" where
  "NewVersionedFile d absPath r bytes =
     (case NewTextFile d r (absPath @ ''.1'') (Ext absPath) bytes of
        (Inl e, d1, r1) \<Rightarrow> (Inl e, d1, r1)
      | (Inr file, d1, r1) \<Rightarrow>
          (Inr \<lparr>vf_LatestVersion = 1, vf_AbsolutePath = absPath, vf_FileName = Base absPath,
                vf_Files = (\<lambda>_. None)(0 := Some file)\<rparr>, d1, r1))"

text \<open>The comparison loop on the contents of two files; a read of a file fills the buffer while it can.\<close>

function compareLoop :: "string \<Rightarrow> string \<Rightarrow> bool" where
  "compareLoop content1 content2 =
     (let buf1 = take 4096 content1; buf2 = take 4096 content2 in
      if length buf1 \<noteq> length buf2 then False
      else if buf1 \<noteq> buf2 then False
      else if content1 = [] \<and> content2 = [] then True
      else if content1 = [] \<or> content2 = [] then False
      else compareLoop (drop 4096 content1) (drop 4096 content2))"
  by pat_completeness auto
termination
  by (relation "measure (\<lambda>(a, b). length a)") auto

declare compareLoop.simps [simp del]

definition compareFiles :: "Disk \<Rightarrow> string \<Rightarrow> string \<Rightarrow> bool option" where
  "compareFiles d file1AbsPath file2AbsPath =
     (case (osStat d file1AbsPath, osStat d file2AbsPath) of
        (Some (Regular content1), Some (Regular content2)) \<Rightarrow>
          Some (if length content1 \<noteq> length content2 then False
                else if resolve file1AbsPath = resolve file2AbsPath then True
                else compareLoop content1 content2)
      | _ \<Rightarrow> None)"

definition AddVersion ::
  "Disk \<Rightarrow> VersionedFile \<Rightarrow> Reader \<Rightarrow> int \<Rightarrow> (vcsError + File) \<times> VersionedFile \<times> Disk \<times> Reader" where
  "AddVersion d vf r bytes =
     (case vf_Files vf (vf_LatestVersion vf - 1) of
        None \<Rightarrow> (Inl NilPointer, vf, d, r)
      | Some oldFile \<Rightarrow>
          (case NewTextFile d r (vf_AbsolutePath vf @ ''.'' @ itoa (int (vf_LatestVersion vf + 1))) (fl_Ext oldFile) bytes of
             (Inl e, d1, r1) \<Rightarrow> (Inl e, vf, d1, r1)
           | (Inr newFile, d1, r1) \<Rightarrow>
               (case compareFiles d1 (fl_AbsolutePath oldFile) (fl_AbsolutePath newFile) of
                  None \<Rightarrow> (Inl (IoError ''error comparing files''), vf, d1, r1)
                | Some True \<Rightarrow> (Inr oldFile, vf, case osRemove d1 (fl_AbsolutePath newFile) of None \<Rightarrow> d1 | Some d2 \<Rightarrow> d2, r1)
                | Some False \<Rightarrow>
                    (Inr newFile,
                     vf\<lparr>vf_LatestVersion := vf_LatestVersion vf + 1, vf_Files := (vf_Files vf)(vf_LatestVersion vf := Some newFile)\<rparr>,
                     d1, r1))))"

definition GetLatest :: "VersionedFile \<Rightarrow> vcsError + File option" where
  "GetLatest vf =
     (if vf_LatestVersion vf < 1 then Inl (IoError ''no versions available'') else Inr (vf_Files vf (vf_LatestVersion vf - 1)))"

definition GetVersion :: "VersionedFile \<Rightarrow> int \<Rightarrow> vcsError + File option" where
  "GetVersion vf version =
     (if version < 1 \<or> version > int (vf_LatestVersion vf) then Inl (IoError ''invalid version number'')
      else Inr (vf_Files vf (nat version - 1)))"

text \<open>Deleting stops at the first error.\<close>

fun deleteLoop :: "VersionedFile \<Rightarrow> nat list \<Rightarrow> Disk \<Rightarrow> (vcsError + unit) \<times> Disk" where
  "deleteLoop vf [] d = (Inr (), d)"
| "deleteLoop vf (i # is) d =
     (case vf_Files vf i of
        None \<Rightarrow> (Inl NilPointer, d)
      | Some file \<Rightarrow>
          (case DeleteFile d file of
             None \<Rightarrow> (Inl (IoError ''error deleting file''), d)
           | Some d1 \<Rightarrow> deleteLoop vf is d1))"

definition DeleteVersions :: "VersionedFile \<Rightarrow> Disk \<Rightarrow> (vcsError + unit) \<times> Disk" where
  "DeleteVersions vf d = deleteLoop vf [0..<vf_LatestVersion vf] d"

section \<open>Folders\<close>

datatype Folder =
  Folder (fd_AbsolutePath: string) (fd_Name: string) (fd_Files: "(string \<times> VersionedFile) list") (fd_SubFolders: "(string \<times> Folder) list")

definition NewFolder :: "Disk \<Rightarrow> string \<Rightarrow> (vcsError + Folder) \<times> Disk" where
  "NewFolder d absPath =
     (case osMkdirAll d absPath of
        None \<Rightarrow> (Inl (IoError ''mkdir''), d)
      | Some d1 \<Rightarrow> (Inr (Folder absPath (Base absPath) [] []), d1))"

definition AddNewFile ::
  "Disk \<Rightarrow> Folder \<Rightarrow> string \<Rightarrow> Reader \<Rightarrow> int \<Rightarrow> (vcsError + VersionedFile) \<times> Folder \<times> Disk \<times> Reader" where
  "AddNewFile d f fileName r bytes =
     (if map_of (fd_Files f) fileName \<noteq> None then (Inl ErrExist, f, d, r)
      else
        (case NewVersionedFile d (fd_AbsolutePath f @ ''/'' @ fileName) r bytes of
           (Inl e, d1, r1) \<Rightarrow> (Inl e, f, d1, r1)
         | (Inr file, d1, r1) \<Rightarrow>
             (Inr file, Folder (fd_AbsolutePath f) (fd_Name f) (AList.update fileName file (fd_Files f)) (fd_SubFolders f), d1, r1)))"

definition AddNewSubFolder :: "Disk \<Rightarrow> Folder \<Rightarrow> string \<Rightarrow> (vcsError + Folder) \<times> Folder \<times> Disk" where
  "AddNewSubFolder d f folderName =
     (let fullPath = fd_AbsolutePath f @ ''/'' @ folderName in
      case osMkdirAll d fullPath of
        None \<Rightarrow> (Inl (IoError ''mkdir''), f, d)
      | Some d1 \<Rightarrow>
          (let subFolder = Folder fullPath [] [] []
           in (Inr subFolder,
               Folder (fd_AbsolutePath f) (fd_Name f) (fd_Files f) (AList.update folderName subFolder (fd_SubFolders f)), d1)))"

definition GetFiles :: "Folder \<Rightarrow> VersionedFile list" where
  "GetFiles f = map snd (fd_Files f)"

definition GetSubFolders :: "Folder \<Rightarrow> Folder list" where
  "GetSubFolders f = map snd (fd_SubFolders f)"

definition IsEmptyFolder :: "Folder \<Rightarrow> bool" where
  "IsEmptyFolder f \<longleftrightarrow> length (fd_Files f) = 0 \<and> length (fd_SubFolders f) = 0"

definition DeleteFolder :: "Folder \<Rightarrow> Disk \<Rightarrow> Disk" where
  "DeleteFolder f d = osRemoveAll d (fd_AbsolutePath f)"

section \<open>The file manager\<close>

fun descend :: "Folder \<Rightarrow> string list \<Rightarrow> Folder option" where
  "descend currentFolder [] = Some currentFolder"
| "descend currentFolder (part # parts) =
     (if part = '''' then descend currentFolder parts
      else
        (case map_of (fd_SubFolders currentFolder) part of
           None \<Rightarrow> None
         | Some subFolder \<Rightarrow> descend subFolder parts))"

definition GetFolder :: "Folder \<Rightarrow> string \<Rightarrow> Folder option" where
  "GetFolder root path = descend root (splitOn sep (Clean path))"

definition setSubFolder :: "Folder \<Rightarrow> string \<Rightarrow> Folder \<Rightarrow> Folder" where
  "setSubFolder f name sub = Folder (fd_AbsolutePath f) (fd_Name f) (fd_Files f) (AList.update name sub (fd_SubFolders f))"

definition setFile :: "Folder \<Rightarrow> string \<Rightarrow> VersionedFile \<Rightarrow> Folder" where
  "setFile f name vf = Folder (fd_AbsolutePath f) (fd_Name f) (AList.update name vf (fd_Files f)) (fd_SubFolders f)"

text \<open>
  The walk of \<open>AddFile\<close> from the current folder along the remaining folder names, then the file: the
  result, the folder with what changed below it, the disk and the rest of the reader.
\<close>

fun addFileIn ::
  "Disk \<Rightarrow> Folder \<Rightarrow> string list \<Rightarrow> string \<Rightarrow> Reader \<Rightarrow> int \<Rightarrow> (vcsError + VersionedFile) \<times> Folder \<times> Disk \<times> Reader" where
  "addFileIn d currentFolder [] fileName r bytes =
     (case map_of (fd_Files currentFolder) fileName of
        Some existingFile \<Rightarrow>
          (case AddVersion d existingFile r bytes of
             (Inl e, vf, d1, r1) \<Rightarrow> (Inl e, setFile currentFolder fileName vf, d1, r1)
           | (Inr file, vf, d1, r1) \<Rightarrow> (Inr vf, setFile currentFolder fileName vf, d1, r1))
      | None \<Rightarrow> AddNewFile d currentFolder fileName r bytes)"
| "addFileIn d currentFolder (folderName # folders) fileName r bytes =
     (case map_of (fd_SubFolders currentFolder) folderName of
        Some subFolder \<Rightarrow>
          (case addFileIn d subFolder folders fileName r bytes of
             (res, sub', d1, r1) \<Rightarrow> (res, setSubFolder currentFolder folderName sub', d1, r1))
      | None \<Rightarrow>
          if folderName = '''' then addFileIn d currentFolder folders fileName r bytes
          else
            (case NewFolder d (Join (fd_AbsolutePath currentFolder) folderName) of
               (Inl e, d1) \<Rightarrow> (Inl e, currentFolder, d1, r)
             | (Inr subFolder, d1) \<Rightarrow>
                 (case addFileIn d1 subFolder folders fileName r bytes of
                    (res, sub', d2, r1) \<Rightarrow> (res, setSubFolder currentFolder folderName sub', d2, r1))))"

definition AddFile ::
  "Disk \<Rightarrow> Folder \<Rightarrow> string \<Rightarrow> Reader \<Rightarrow> int \<Rightarrow> (vcsError + VersionedFile) \<times> Folder \<times> Disk \<times> Reader" where
  "AddFile d root fullPath r bytes =
     (let pathSplit = splitOn sep fullPath
      in addFileIn d root (butlast pathSplit) (last pathSplit) r bytes)"

text \<open>Errors of the deletions in \<open>Clear\<close> are ignored.\<close>

definition ClearStore :: "Folder \<Rightarrow> Disk \<Rightarrow> Folder \<times> Disk" where
  "ClearStore root d =
     (let d1 = fold DeleteFolder (GetSubFolders root) d;
          d2 = fold (\<lambda>vf d. snd (DeleteVersions vf d)) (GetFiles root) d1
      in (Folder (fd_AbsolutePath root) (fd_Name root) [] [], d2))"

section \<open>Reading the store back from the disk\<close>

record RawFile =
  rf_AbsolutePath :: string
  rf_Name :: string
  rf_Version :: int

abbreviation dot :: char where "dot \<equiv> CHR ''.''"

fun groupVersionedFiles :: "string list \<Rightarrow> (string \<times> RawFile list) list \<Rightarrow> (string \<times> RawFile list) list" where
  "groupVersionedFiles [] grouped = grouped"
| "groupVersionedFiles (absPath # entries) grouped =
     (let filename = Base absPath in
      if dot \<notin> set filename then groupVersionedFiles entries grouped
      else
        (let name = butlast (uptoSep dot filename) in
         case atoi (afterSep dot filename) of
           None \<Rightarrow> groupVersionedFiles entries grouped
         | Some version \<Rightarrow>
             (let rawFile = \<lparr>rf_AbsolutePath = absPath, rf_Name = name, rf_Version = version\<rparr>;
                  old = (case map_of grouped name of None \<Rightarrow> [] | Some rs \<Rightarrow> rs)
              in groupVersionedFiles entries (AList.update name (old @ [rawFile]) grouped))))"

fun hasGap :: "nat \<Rightarrow> RawFile list \<Rightarrow> bool" where
  "hasGap i [] = False"
| "hasGap i (e # entries) = (if rf_Version e \<noteq> int (i + 1) then True else hasGap (i + 1) entries)"

definition parseValidGroups :: "(string \<times> RawFile list) list \<Rightarrow> (string \<times> RawFile list) list" where
  "parseValidGroups grouped =
     filter (\<lambda>(name, entries). \<not> hasGap 0 entries) (map (\<lambda>(name, entries). (name, sort_key rf_Version entries)) grouped)"

definition rawToFile :: "Disk \<Rightarrow> RawFile \<Rightarrow> File option" where
  "rawToFile d entry =
     (case osStat d (rf_AbsolutePath entry) of
        None \<Rightarrow> None
      | Some node \<Rightarrow>
          Some \<lparr>fl_Name = rf_Name entry, fl_Ext = Ext (rf_AbsolutePath entry),
                fl_Bytes = (case node of Regular content \<Rightarrow> int (length content) | Directory \<Rightarrow> 0),
                fl_AbsolutePath = rf_AbsolutePath entry\<rparr>)"

definition groupsToVersionedFiles :: "Disk \<Rightarrow> (string \<times> RawFile list) list \<Rightarrow> VersionedFile list" where
  "groupsToVersionedFiles d groups =
     map (\<lambda>(name, entries).
       \<lparr>vf_LatestVersion = nat (rf_Version (last entries)), vf_AbsolutePath = rf_AbsolutePath (hd entries), vf_FileName = name,
        vf_Files = (\<lambda>i. if i < length entries then rawToFile d (entries ! i) else None)\<rparr>) groups"

text \<open>The folders below are made with \<open>NewFolder\<close>, which leaves the disk alone: they exist.\<close>

definition keysBelow :: "Disk \<Rightarrow> string list \<Rightarrow> nat" where
  "keysBelow d k = length (filter (\<lambda>q. take (length k) q = k \<and> length k < length q) (map fst d))"

definition subDirs :: "Disk \<Rightarrow> string \<Rightarrow> string list" where
  "subDirs d absPath = filter (\<lambda>n. map_of d (resolve absPath @ [n]) = Some Directory) (dirNames d (resolve absPath))"

definition plainFiles :: "Disk \<Rightarrow> string \<Rightarrow> string list" where
  "plainFiles d absPath = filter (\<lambda>n. map_of d (resolve absPath @ [n]) \<noteq> Some Directory) (dirNames d (resolve absPath))"

lemma keysBelow_less:
  assumes "n \<in> set (dirNames d (resolve absPath))"
  shows "keysBelow d (resolve (absPath @ sep # n)) < keysBelow d (resolve absPath)"
proof -
  let ?k = "resolve absPath"
  have n: "simpleName n" "?k @ [n] \<in> set (map fst d)"
  proof -
    obtain q where q: "simpleName (last q)" "q \<noteq> []" "butlast q = ?k" "q \<in> set (map fst d)" "n = last q"
      using assms by (auto simp: dirNames_def)
    then show "simpleName n" "?k @ [n] \<in> set (map fst d)" using append_butlast_last_id[of q] by simp_all
  qed
  let ?P = "\<lambda>q. take (length ?k) q = ?k \<and> length ?k < length q"
  let ?Q = "\<lambda>q. take (length (?k @ [n])) q = ?k @ [n] \<and> length (?k @ [n]) < length q"
  have sub: "?P q" if "?Q q" for q
  proof -
    have "take (length ?k) (take (length (?k @ [n])) q) = take (length ?k) (?k @ [n])" using that by (simp only:)
    then show ?thesis using that by simp
  qed
  have "length (filter ?Q (map fst d)) < length (filter ?P (map fst d))"
  proof (rule length_filter_strict)
    show "\<And>q. ?Q q \<Longrightarrow> ?P q" by (rule sub)
    show "?k @ [n] \<in> set (map fst d)" by (rule n(2))
  qed simp_all
  then show ?thesis unfolding keysBelow_def resolve_child[OF n(1)] .
qed

function populateFolder :: "Disk \<Rightarrow> Folder \<Rightarrow> Folder" where
  "populateFolder d folder =
     (let absPath = fd_AbsolutePath folder;
          subs = map (\<lambda>n. (n, populateFolder d (Folder (absPath @ ''/'' @ n) (Base (absPath @ ''/'' @ n)) [] [])))
                   (subDirs d absPath);
          files = map (\<lambda>n. absPath @ ''/'' @ n) (plainFiles d absPath);
          versionedFiles = groupsToVersionedFiles d (parseValidGroups (groupVersionedFiles files []))
      in Folder absPath (fd_Name folder)
           (fold (\<lambda>vf. AList.update (vf_FileName vf) vf) versionedFiles (fd_Files folder))
           (fold (\<lambda>(n, sub). AList.update n sub) subs (fd_SubFolders folder)))"
  by pat_completeness auto
termination
  by (relation "measure (\<lambda>(d, folder). keysBelow d (resolve (fd_AbsolutePath folder)))")
    (auto simp: subDirs_def keysBelow_less)

declare populateFolder.simps [simp del]

definition NewFileManager :: "Disk \<Rightarrow> string \<Rightarrow> (vcsError + Folder) \<times> Disk" where
  "NewFileManager d rootPath =
     (if osStat d rootPath = None then (Inl ErrNotExist, d)
      else
        (case NewFolder d rootPath of
           (Inl e, d1) \<Rightarrow> (Inl e, d1)
         | (Inr rootFolder, d1) \<Rightarrow> (Inr (populateFolder d1 rootFolder), d1)))"

section \<open>Copying text\<close>

text \<open>
  A copy that ends without error has taken exactly the next \<open>limit\<close> bytes of the stream (or all of it,
  when it is shorter) and leaves what follows, in whatever pieces the stream arrives.
\<close>

lemma validText_append: "validText (a @ b) \<longleftrightarrow> validText a \<and> validText b"
  by (simp add: validText_def)

lemma copyText_ok:
  "copyText limit r written = (None, content, r1) \<Longrightarrow>
   content = written @ take limit (unread r) \<and> unread r1 = drop limit (unread r) \<and> rd_Fails r1 = rd_Fails r \<and>
   validText (take limit (unread r))"
proof (induction limit r written rule: copyText.induct)
  case (1 limit r written)
  show ?case
  proof (cases "limit = 0 \<or> rd_Pieces r = []")
    case True
    with 1(2) show ?thesis
      by (auto simp: copyText.simps[of limit r written] unread_def validText_def split: if_splits)
  next
    case False
    then obtain piece pieces where p: "rd_Pieces r = piece # pieces" "limit \<noteq> 0" by (cases "rd_Pieces r") auto
    let ?n = "min (min 4096 limit) (length piece)"
    let ?data = "take ?n piece"
    let ?r1 = "r\<lparr>rd_Pieces := (if ?n = length piece then pieces else drop ?n piece # pieces)\<rparr>"
    have v: "validText ?data" and c: "copyText (limit - ?n) ?r1 (written @ ?data) = (None, content, r1)"
      using 1(2) p by (auto simp: copyText.simps[of limit r written] Let_def split: if_splits)
    have u: "unread r = ?data @ unread ?r1" by (auto simp: unread_def p(1))
    have "length ?data = ?n" by simp
    moreover have "?n \<le> limit" by simp
    ultimately have t: "take limit (unread r) = ?data @ take (limit - ?n) (unread ?r1)"
        "drop limit (unread r) = drop (limit - ?n) (unread ?r1)"
      unfolding u by (simp_all only: take_append drop_append) (simp_all add: min_def)
    from "1.IH"[OF p(2,1) refl refl refl _ c] v t show ?thesis by (simp add: validText_append)
  qed
qed

lemma copyText_total:
  "validText (take limit (unread r)) \<Longrightarrow> \<not> rd_Fails r \<Longrightarrow> fst (copyText limit r written) = None"
proof (induction limit r written rule: copyText.induct)
  case (1 limit r written)
  show ?case
  proof (cases "limit = 0 \<or> rd_Pieces r = []")
    case True
    with 1(3) show ?thesis
      by (auto simp: copyText.simps[of limit r written] split: list.split)
  next
    case False
    then obtain piece pieces where p: "rd_Pieces r = piece # pieces" "limit \<noteq> 0" by (cases "rd_Pieces r") auto
    let ?n = "min (min 4096 limit) (length piece)"
    let ?data = "take ?n piece"
    let ?r1 = "r\<lparr>rd_Pieces := (if ?n = length piece then pieces else drop ?n piece # pieces)\<rparr>"
    have u: "unread r = ?data @ unread ?r1" by (auto simp: unread_def p(1))
    have "length ?data = ?n" by simp
    moreover have "?n \<le> limit" by simp
    ultimately have t: "take limit (unread r) = ?data @ take (limit - ?n) (unread ?r1)"
      unfolding u by (simp_all only: take_append) (simp_all add: min_def)
    with 1(2) have v: "validText ?data" "validText (take (limit - ?n) (unread ?r1))" by (simp_all add: validText_append)
    from "1.IH"[OF p(2,1) refl refl refl _ v(2)] v(1) 1(3) show ?thesis
      by (simp add: copyText.simps[of limit r written] p Let_def)
  qed
qed

section \<open>Comparing files\<close>

lemma compareLoop_eq: "compareLoop a b = (a = b)"
proof (induction a b rule: compareLoop.induct)
  case (1 a b)
  show ?case
  proof (cases "take 4096 a = take 4096 b")
    case False
    then have "a \<noteq> b" by blast
    then show ?thesis using False by (subst compareLoop.simps) (auto simp: Let_def)
  next
    case True
    then have "a = b \<longleftrightarrow> drop 4096 a = drop 4096 b" by (metis append_take_drop_id)
    moreover have "(a = []) = (b = [])" using True by (metis take_eq_Nil zero_neq_numeral)
    ultimately show ?thesis using True 1 by (subst compareLoop.simps) (auto simp: Let_def)
  qed
qed

end
