(* ===== verification/VCS_Refine.thy ===== *)
theory VCS_Refine
  imports VCS_Store
begin

text \<open>
  The invariant of the store, its abstraction to revision lists per path, and the refinement: adding a
  file appends a revision to one path and changes no other.
\<close>

section \<open>Names and keys of revisions\<close>

definition revisionName :: "string \<Rightarrow> nat \<Rightarrow> string" where
  "revisionName name i = name @ ''.'' @ itoa (int (i + 1))"

definition revisionKey :: "string list \<Rightarrow> string \<Rightarrow> nat \<Rightarrow> string list" where
  "revisionKey k name i = k @ [revisionName name i]"

lemma itoa_digits: "c \<in> set (itoa (int n)) \<Longrightarrow> isDigit c"
  using natDigits_isDigit by (simp add: itoa_def)

lemma itoa_no: "\<not> isDigit c \<Longrightarrow> c \<notin> set (itoa (int n))"
  using itoa_digits by blast

lemma itoa_inj: "itoa (int m) = itoa (int n) \<Longrightarrow> m = n"
proof -
  assume "itoa (int m) = itoa (int n)"
  then have "parseDigits (natDigits m) = parseDigits (natDigits n)" by (simp add: itoa_def)
  then show ?thesis by simp
qed

lemma last_sep_unique:
  assumes "c \<notin> set u" "c \<notin> set v" "a @ c # u = b @ c # v"
  shows "a = b \<and> u = v"
proof -
  have "rev u @ c # rev a = rev v @ c # rev b" using arg_cong[OF assms(3), of rev] by simp
  then have "takeWhile (\<lambda>x. x \<noteq> c) (rev u @ c # rev a) = takeWhile (\<lambda>x. x \<noteq> c) (rev v @ c # rev b)" by (simp only:)
  moreover have "takeWhile (\<lambda>x. x \<noteq> c) (rev w @ c # z) = rev w" if "c \<notin> set w" for w z
    using that by (subst takeWhile_append2) auto
  ultimately have "u = v" using assms(1,2) by simp
  then show ?thesis using assms(3) by simp
qed

lemma revisionName_inj: "revisionName a i = revisionName b j \<longleftrightarrow> a = b \<and> i = j"
proof
  assume "revisionName a i = revisionName b j"
  then have "a @ CHR ''.'' # itoa (int (i + 1)) = b @ CHR ''.'' # itoa (int (j + 1))" by (simp add: revisionName_def)
  then have "a = b \<and> itoa (int (i + 1)) = itoa (int (j + 1))"
    by (rule last_sep_unique[rotated 2]) (rule itoa_no; simp add: isDigit_def byte_of_def)+
  then show "a = b \<and> i = j" using itoa_inj[of "i + 1" "j + 1"] by simp
qed simp

lemma revisionKey_inj: "revisionKey (k @ p) a i = revisionKey (k @ q) b j \<longleftrightarrow> p = q \<and> a = b \<and> i = j"
  by (auto simp: revisionKey_def revisionName_inj)

lemma revisionName_simple: "sep \<notin> set name \<Longrightarrow> simpleName (revisionName name i)"
proof -
  assume s: "sep \<notin> set name"
  have d: "itoa (int (i + 1)) \<noteq> []" by (simp add: itoa_def)
  then have "isDigit (last (revisionName name i))" using itoa_digits[of _ "i + 1"] by (simp add: revisionName_def)
  then have "last (revisionName name i) \<noteq> CHR ''.''" by (auto simp: isDigit_def byte_of_def)
  then have "revisionName name i \<noteq> ''.''" "revisionName name i \<noteq> ''..''" by auto
  moreover have "sep \<notin> set (itoa (int (i + 1)))" by (rule itoa_no) (simp add: isDigit_def byte_of_def)
  then have "sep \<notin> set (revisionName name i)" "revisionName name i \<noteq> []" using s by (simp_all add: revisionName_def)
  ultimately show ?thesis by (simp add: simpleName_def)
qed

lemma resolve_revision:
  "sep \<notin> set name \<Longrightarrow> resolve a = k \<Longrightarrow> resolve (a @ sep # name @ ''.'' @ itoa (int (i + 1))) = revisionKey k name i"
  using resolve_child[OF revisionName_simple[of name i], of a] by (simp add: revisionKey_def revisionName_def)

section \<open>The invariant of the store\<close>

definition fileContent :: "Disk \<Rightarrow> File \<Rightarrow> string" where
  "fileContent d f = (case ReadFile d f of Some c \<Rightarrow> c | None \<Rightarrow> [])"

text \<open>A revision: the length on record and the content.\<close>

definition revisionAt :: "Disk \<Rightarrow> VersionedFile \<Rightarrow> nat \<Rightarrow> int \<times> string" where
  "revisionAt d vf i = (case vf_Files vf i of Some f \<Rightarrow> (fl_Bytes f, fileContent d f) | None \<Rightarrow> (0, []))"

definition revs :: "Disk \<Rightarrow> VersionedFile \<Rightarrow> (int \<times> string) list" where
  "revs d vf = map (revisionAt d vf) [0..<vf_LatestVersion vf]"

definition tracked :: "Disk \<Rightarrow> string list \<Rightarrow> string \<Rightarrow> VersionedFile \<Rightarrow> nat \<Rightarrow> bool" where
  "tracked d k name vf i \<longleftrightarrow>
     (\<exists>f c. vf_Files vf i = Some f \<and> resolve (fl_AbsolutePath f) = revisionKey k name i \<and>
        map_of d (revisionKey k name i) = Some (Regular c))"

definition vfile_ok :: "Disk \<Rightarrow> string list \<Rightarrow> string \<Rightarrow> VersionedFile \<Rightarrow> bool" where
  "vfile_ok d k name vf \<longleftrightarrow>
     sep \<notin> set name \<and> 1 \<le> vf_LatestVersion vf \<and>
     (\<exists>a. vf_AbsolutePath vf = a @ sep # name \<and> resolve a = k) \<and>
     (\<forall>i<vf_LatestVersion vf. tracked d k name vf i)"

definition node_ok :: "Disk \<Rightarrow> string list \<Rightarrow> Folder \<Rightarrow> bool" where
  "node_ok d k g \<longleftrightarrow>
     isDirKey d k \<and> resolve (fd_AbsolutePath g) = k \<and> fd_AbsolutePath g \<noteq> [] \<and>
     (\<forall>name vf. map_of (fd_Files g) name = Some vf \<longrightarrow> vfile_ok d k name vf) \<and>
     (\<forall>n s. map_of (fd_SubFolders g) n = Some s \<longrightarrow> simpleName n)"

fun subAt :: "Folder \<Rightarrow> string list \<Rightarrow> Folder option" where
  "subAt f [] = Some f"
| "subAt f (n # ns) = (case map_of (fd_SubFolders f) n of None \<Rightarrow> None | Some s \<Rightarrow> subAt s ns)"

definition store_ok :: "Disk \<Rightarrow> string list \<Rightarrow> Folder \<Rightarrow> bool" where
  "store_ok d k f \<longleftrightarrow> (\<forall>p g. subAt f p = Some g \<longrightarrow> node_ok d (k @ p) g)"

text \<open>The abstract store: the revisions of every file.\<close>

definition revisions :: "Disk \<Rightarrow> Folder \<Rightarrow> string list \<Rightarrow> string \<Rightarrow> (int \<times> string) list option" where
  "revisions d f p name =
     (case subAt f p of None \<Rightarrow> None | Some g \<Rightarrow> map_option (revs d) (map_of (fd_Files g) name))"

lemma store_ok_rec:
  "store_ok d k f \<longleftrightarrow> node_ok d k f \<and> (\<forall>n s. map_of (fd_SubFolders f) n = Some s \<longrightarrow> store_ok d (k @ [n]) s)"
proof
  assume s: "store_ok d k f"
  have "node_ok d ((k @ [n]) @ p) g" if "map_of (fd_SubFolders f) n = Some t" "subAt t p = Some g" for n t p g
    using s[unfolded store_ok_def, rule_format, of "n # p" g] that by simp
  then show "node_ok d k f \<and> (\<forall>n s. map_of (fd_SubFolders f) n = Some s \<longrightarrow> store_ok d (k @ [n]) s)"
    using s[unfolded store_ok_def, rule_format, of "[]" f] by (auto simp: store_ok_def)
next
  assume a: "node_ok d k f \<and> (\<forall>n s. map_of (fd_SubFolders f) n = Some s \<longrightarrow> store_ok d (k @ [n]) s)"
  show "store_ok d k f" unfolding store_ok_def
  proof (intro allI impI)
    fix p g assume g: "subAt f p = Some g"
    show "node_ok d (k @ p) g"
    proof (cases p)
      case Nil
      then show ?thesis using g a by simp
    next
      case (Cons n ns)
      then obtain s where "map_of (fd_SubFolders f) n = Some s" "subAt s ns = Some g" using g by (auto split: option.splits)
      then show ?thesis using a Cons by (auto simp: store_ok_def)
    qed
  qed
qed

lemma tracked_content:
  assumes "tracked d k name vf i"
  obtains f c where "vf_Files vf i = Some f" "resolve (fl_AbsolutePath f) = revisionKey k name i"
    "map_of d (revisionKey k name i) = Some (Regular c)" "fileContent d f = c"
proof -
  obtain f c where f: "vf_Files vf i = Some f" "resolve (fl_AbsolutePath f) = revisionKey k name i"
    "map_of d (revisionKey k name i) = Some (Regular c)" using assms by (auto simp: tracked_def)
  moreover have "fileContent d f = c" using f by (simp add: fileContent_def ReadFile_def osStat_def revisionKey_def)
  ultimately show ?thesis by (rule that)
qed

lemma length_revs [simp]: "length (revs d vf) = vf_LatestVersion vf"
  by (simp add: revs_def)

text \<open>A change of the disk elsewhere changes neither the invariant nor the revisions.\<close>

lemma tracked_keeps:
  assumes "keepsBut K d d'" "tracked d k name vf i" "revisionKey k name i \<noteq> K"
  shows "tracked d' k name vf i \<and> revisionAt d' vf i = revisionAt d vf i"
proof -
  obtain f c where f: "vf_Files vf i = Some f" "resolve (fl_AbsolutePath f) = revisionKey k name i"
    "map_of d (revisionKey k name i) = Some (Regular c)" "fileContent d f = c" using assms(2) by (rule tracked_content)
  have c': "map_of d' (revisionKey k name i) = Some (Regular c)" using assms(1,3) f(3) by (simp add: keepsBut_def)
  then have "fileContent d' f = c" using f(2) by (simp add: fileContent_def ReadFile_def osStat_def revisionKey_def)
  then show ?thesis using f c' by (auto simp: tracked_def revisionAt_def)
qed

lemma vfile_keeps:
  assumes "keepsBut K d d'" "vfile_ok d k name vf" "\<forall>i<vf_LatestVersion vf. revisionKey k name i \<noteq> K"
  shows "vfile_ok d' k name vf \<and> revs d' vf = revs d vf"
  using assms tracked_keeps[OF assms(1)] by (auto simp: vfile_ok_def revs_def)

lemma node_keeps:
  assumes "keepsBut K d d'" "node_ok d k g"
    "\<forall>name vf i. map_of (fd_Files g) name = Some vf \<longrightarrow> i < vf_LatestVersion vf \<longrightarrow> revisionKey k name i \<noteq> K"
  shows "node_ok d' k g \<and> (\<forall>name vf. map_of (fd_Files g) name = Some vf \<longrightarrow> revs d' vf = revs d vf)"
proof -
  have "vfile_ok d' k name vf \<and> revs d' vf = revs d vf" if "map_of (fd_Files g) name = Some vf" for name vf
    using vfile_keeps[OF assms(1), of k name vf] assms(2,3) that by (simp add: node_ok_def)
  then show ?thesis using assms(2) keepsBut_dir[OF assms(1)] by (simp add: node_ok_def)
qed

lemma store_keeps:
  assumes "keepsBut K d d'" "store_ok d k f"
    "\<And>p g name vf i. subAt f p = Some g \<Longrightarrow> map_of (fd_Files g) name = Some vf \<Longrightarrow> i < vf_LatestVersion vf \<Longrightarrow>
       revisionKey (k @ p) name i \<noteq> K"
  shows "store_ok d' k f" "revisions d' f p name = revisions d f p name"
proof -
  have n: "node_ok d' (k @ p) g \<and> (\<forall>name vf. map_of (fd_Files g) name = Some vf \<longrightarrow> revs d' vf = revs d vf)"
    if "subAt f p = Some g" for p g
    using node_keeps[OF assms(1), of "k @ p" g] assms(2,3) that by (auto simp: store_ok_def)
  then show "store_ok d' k f" by (simp add: store_ok_def)
  show "revisions d' f p name = revisions d f p name" using n
    by (cases "subAt f p"; simp add: revisions_def) (cases "map_of (fd_Files (the (subAt f p))) name"; simp)
qed

section \<open>Writing a revision\<close>

lemma copyText_err: "fst (copyText limit r written) \<in> {None, Some ErrNonTextData, Some (IoError ''error reading from reader'')}"
proof (induction limit r written rule: copyText.induct)
  case (1 limit r written)
  show ?case
  proof (cases "limit = 0 \<or> rd_Pieces r = []")
    case True
    then show ?thesis by (auto simp: copyText.simps[of limit r written] split: list.split)
  next
    case False
    then obtain piece pieces where "rd_Pieces r = piece # pieces" "limit \<noteq> 0" by (cases "rd_Pieces r") auto
    then show ?thesis using 1 by (subst copyText.simps) (simp add: Let_def)
  qed
qed

lemma NewTextFile_err: "fst (NewTextFile d r absPath ext n) \<noteq> Inl NilPointer"
proof -
  obtain err w r1 where c: "copyText (nat n) r [] = (err, w, r1)" by (metis prod_cases3)
  then have "err \<in> {None, Some ErrNonTextData, Some (IoError ''error reading from reader'')}"
    using copyText_err[of "nat n" r "[]"] by simp
  then show ?thesis using c by (auto simp: NewTextFile_def Let_def split: option.split)
qed

lemma NewTextFile_spec:
  assumes "NewTextFile d r absPath ext n = (res, d', r')" "resolve absPath = K" "K \<noteq> []"
  shows "keepsBut K d d' \<and>
    (\<forall>file. res = Inr file \<longrightarrow>
       fl_AbsolutePath file = absPath \<and> fl_Bytes file = n \<and> fl_Ext file = ext \<and>
       map_of d' K = Some (Regular (take (nat n) (unread r))) \<and>
       map_of d K \<noteq> Some Directory \<and>
       unread r' = drop (nat n) (unread r) \<and> rd_Fails r' = rd_Fails r)"
proof (cases "osStat d (Dir absPath) = None")
  case True
  then show ?thesis using assms(1) by (auto simp: NewTextFile_def)
next
  case st: False
  show ?thesis
  proof (cases "osCreate d absPath")
    case None
    then show ?thesis using assms(1) st by (auto simp: NewTextFile_def)
  next
    case (Some d1)
    from osCreate_Some[OF Some] have d1: "d1 = AList.update K (Regular []) d" "map_of d K \<noteq> Some Directory"
      using assms(2) by auto
    obtain err written r1 where c: "copyText (nat n) r [] = (err, written, r1)" by (metis prod_cases3)
    let ?d2 = "AList.update K (Regular written) d1"
    have "map_of d1 K \<noteq> Some Directory" by (simp add: d1(1) update_conv')
    then have "keepsBut K d1 ?d2" by (rule keepsBut_update)
    then have k2: "keepsBut K d ?d2" using keepsBut_trans[OF keepsBut_update[OF d1(2)]] d1(1) by blast
    have k3: "keepsBut K d (AList.delete K ?d2)"
      using keepsBut_trans[OF k2 keepsBut_delete[of ?d2 K]] by (simp add: update_conv')
    show ?thesis
    proof (cases err)
      case None
      from copyText_ok[OF c[unfolded None]] show ?thesis
        using assms(1,2) st Some c None k2 d1 by (auto simp: NewTextFile_def osWrite_def update_conv')
    next
      case e: (Some e)
      then show ?thesis
        using assms(1,2) st Some c k2 k3
        by (cases e) (auto simp: NewTextFile_def osWrite_def osRemove_def update_conv' split: option.splits)
    qed
  qed
qed

text \<open>What storing \<open>data\<close>, announced as \<open>bytes\<close> long, makes of the revisions of a file.\<close>

definition newRevs :: "(int \<times> string) list option \<Rightarrow> int \<Rightarrow> string \<Rightarrow> (int \<times> string) list" where
  "newRevs old bytes data =
     (case old of
        None \<Rightarrow> [(bytes, data)]
      | Some rs \<Rightarrow> if rs \<noteq> [] \<and> snd (last rs) = data then rs else rs @ [(bytes, data)])"

lemma NewVersionedFile_spec:
  assumes "NewVersionedFile d (a @ sep # name) r bytes = (res, d', r')" "resolve a = k" "sep \<notin> set name"
  shows "keepsBut (revisionKey k name 0) d d' \<and>
    (\<forall>vf. res = Inr vf \<longrightarrow> vfile_ok d' k name vf \<and> revs d' vf = [(bytes, take (nat bytes) (unread r))] \<and>
       unread r' = drop (nat bytes) (unread r) \<and> rd_Fails r' = rd_Fails r)"
proof -
  obtain res1 where n: "NewTextFile d r ((a @ sep # name) @ ''.1'') (Ext (a @ sep # name)) bytes = (res1, d', r')"
    using assms(1) by (auto simp: NewVersionedFile_def split: prod.splits sum.splits)
  have "itoa (int (0 + 1)) = ''1''" by code_simp
  then have K: "resolve ((a @ sep # name) @ ''.1'') = revisionKey k name 0"
    using resolve_revision[OF assms(3,2), of 0] by simp
  have "revisionKey k name 0 \<noteq> []" by (simp add: revisionKey_def)
  from NewTextFile_spec[OF n K this] show ?thesis
    using assms n K
    by (auto simp: NewVersionedFile_def vfile_ok_def tracked_def revs_def revisionAt_def fileContent_def ReadFile_def osStat_def revisionKey_def
        split: sum.splits prod.splits)
qed

lemma compareFiles_tracked:
  assumes "resolve p1 = revisionKey k name i" "map_of d (revisionKey k name i) = Some (Regular c1)"
    "resolve p2 = revisionKey k name j" "map_of d (revisionKey k name j) = Some (Regular c2)"
  shows "compareFiles d p1 p2 = Some (c1 = c2)"
  using assms by (auto simp: compareFiles_def osStat_def compareLoop_eq revisionKey_def)

lemma AddVersion_spec:
  assumes "AddVersion d vf r bytes = (res, vf', d', r')" "vfile_ok d k name vf"
  shows "keepsBut (revisionKey k name (vf_LatestVersion vf)) d d' \<and> vfile_ok d' k name vf' \<and>
    (case res of
       Inl e \<Rightarrow> e \<noteq> NilPointer \<and> vf' = vf
     | Inr file \<Rightarrow> revs d' vf' = newRevs (Some (revs d vf)) bytes (take (nat bytes) (unread r)) \<and>
         unread r' = drop (nat bytes) (unread r) \<and> rd_Fails r' = rd_Fails r)"
proof -
  let ?n = "vf_LatestVersion vf"
  let ?K = "revisionKey k name ?n"
  let ?data = "take (nat bytes) (unread r)"
  have ok: "1 \<le> ?n" "sep \<notin> set name" "\<forall>i<?n. tracked d k name vf i" using assms(2) by (auto simp: vfile_ok_def)
  obtain a where a: "vf_AbsolutePath vf = a @ sep # name" "resolve a = k" using assms(2) by (auto simp: vfile_ok_def)
  have "tracked d k name vf (?n - 1)" using ok by simp
  then obtain old c where old: "vf_Files vf (?n - 1) = Some old" "resolve (fl_AbsolutePath old) = revisionKey k name (?n - 1)"
    "map_of d (revisionKey k name (?n - 1)) = Some (Regular c)" "fileContent d old = c" by (rule tracked_content)
  let ?path = "vf_AbsolutePath vf @ ''.'' @ itoa (int (?n + 1))"
  have K: "resolve ?path = ?K" using resolve_revision[OF ok(2) a(2), of ?n] a(1) by simp
  obtain res1 d1 r1 where n: "NewTextFile d r ?path (fl_Ext old) bytes = (res1, d1, r1)" by (metis prod_cases3)
  have Kne: "?K \<noteq> []" by (simp add: revisionKey_def)
  note spec = NewTextFile_spec[OF n K Kne]
  have keep: "\<forall>i<?n. revisionKey k name i \<noteq> ?K" using revisionKey_inj[of k "[]" name _ "[]"] by auto
  note same = vfile_keeps[OF _ assms(2) keep]
  show ?thesis
  proof (cases res1)
    case (Inl e)
    then have "res = Inl e \<and> vf' = vf \<and> d' = d1" using assms(1) old n by (auto simp: AddVersion_def)
    moreover have "e \<noteq> NilPointer" using NewTextFile_err[of d r ?path "fl_Ext old" bytes] n Inl by auto
    ultimately show ?thesis using spec same by auto
  next
    case (Inr new)
    from spec Inr have new: "fl_AbsolutePath new = ?path" "map_of d1 ?K = Some (Regular ?data)" "keepsBut ?K d d1"
      "unread r1 = drop (nat bytes) (unread r)" "rd_Fails r1 = rd_Fails r" by auto
    have "revisionKey k name (?n - 1) \<noteq> ?K" using keep ok(1) by simp
    then have oc: "map_of d1 (revisionKey k name (?n - 1)) = Some (Regular c)" using new(3) old(3) by (simp add: keepsBut_def)
    have cmp: "compareFiles d1 (fl_AbsolutePath old) (fl_AbsolutePath new) = Some (c = ?data)"
      using compareFiles_tracked[OF old(2) oc _ new(2)] K new(1) by simp
    have last: "snd (last (revs d vf)) = c" using ok(1) old(1,4) by (simp add: revs_def revisionAt_def last_map)
    have ne: "revs d vf \<noteq> []" using ok(1) by (simp add: revs_def)
    show ?thesis
    proof (cases "c = ?data")
      case True
      let ?d2 = "AList.delete ?K d1"
      have res: "res = Inr old" "vf' = vf" "d' = ?d2" "r' = r1"
        using assms(1) old n Inr cmp True new(1,2) K by (auto simp: AddVersion_def osRemove_def)
      have k: "keepsBut ?K d ?d2" using keepsBut_trans[OF new(3) keepsBut_delete[of d1 ?K]] new(2) by simp
      have "newRevs (Some (revs d vf)) bytes ?data = revs d vf" using last ne True by (simp add: newRevs_def)
      then show ?thesis unfolding res using same[OF k] k new(4,5) by simp
    next
      case False
      let ?vf = "vf\<lparr>vf_LatestVersion := ?n + 1, vf_Files := (vf_Files vf)(?n := Some new)\<rparr>"
      have res: "res = Inr new" "vf' = ?vf" "d' = d1" "r' = r1"
        using assms(1) old n Inr cmp False by (auto simp: AddVersion_def)
      have t: "tracked d1 k name ?vf i" if "i < ?n + 1" for i
      proof (cases "i = ?n")
        case True
        then show ?thesis using K new(1,2) by (simp add: tracked_def)
      next
        case False
        then have "tracked d1 k name vf i" using same[OF new(3)] that by (simp add: vfile_ok_def)
        then show ?thesis using False by (simp add: tracked_def)
      qed
      then have "vfile_ok d1 k name ?vf" using ok a by (auto simp: vfile_ok_def)
      moreover have "fileContent d1 new = ?data" using K new(1,2) by (simp add: fileContent_def ReadFile_def osStat_def revisionKey_def)
      then have "revs d1 ?vf = revs d1 vf @ [(bytes, ?data)]" using spec Inr by (simp add: revs_def revisionAt_def)
      moreover have "newRevs (Some (revs d vf)) bytes ?data = revs d vf @ [(bytes, ?data)]" using last ne False by (simp add: newRevs_def)
      ultimately show ?thesis unfolding res using same[OF new(3)] new(3,4,5) by simp
    qed
  qed
qed

section \<open>Adding a file\<close>

definition nextKey :: "Disk \<Rightarrow> string list \<Rightarrow> Folder \<Rightarrow> string list \<Rightarrow> string \<Rightarrow> string list" where
  "nextKey d k f p name = revisionKey (k @ p) name (case revisions d f p name of None \<Rightarrow> 0 | Some rs \<Rightarrow> length rs)"

lemma nextKey_untracked:
  assumes "subAt f q = Some g" "map_of (fd_Files g) nm = Some vf" "i < vf_LatestVersion vf"
  shows "revisionKey (k @ q) nm i \<noteq> nextKey d k f p name"
proof
  assume "revisionKey (k @ q) nm i = nextKey d k f p name"
  then have "q = p \<and> nm = name \<and> i = (case revisions d f p name of None \<Rightarrow> 0 | Some rs \<Rightarrow> length rs)"
    unfolding nextKey_def by (simp only: revisionKey_inj)
  moreover from this have "revisions d f p name = Some (revs d vf)" using assms by (simp add: revisions_def)
  ultimately show False using assms(3) by simp
qed

lemma store_keeps_next:
  assumes "keepsBut (nextKey d0 k f p name) d d'" "store_ok d k f"
  shows "store_ok d' k f" "revisions d' f q nm = revisions d f q nm"
  using store_keeps[OF assms] nextKey_untracked by metis+

lemma Clean_ne: "Clean p \<noteq> []"
proof (cases "IsAbs p")
  case False
  let ?st = "cleanWalk False [] (splitOn sep p)"
  obtain k names where st: "?st = names @ replicate k ''..''" "\<forall>n\<in>set names. simpleName n"
    using cleanWalk_shape[of "splitOn sep p" "[]" False] splitOn_parts[of _ sep p] by auto
  have ne: "n \<noteq> []" if "n \<in> set (rev ?st)" for n
    using that st by (auto simp: simpleName_def)
  show ?thesis
  proof (cases "rev ?st")
    case Nil
    then show ?thesis using False by (simp add: Clean_def Let_def)
  next
    case (Cons x xs)
    then have "x \<noteq> []" using ne[of x] by simp
    then have "joinWith sep (rev ?st) \<noteq> []" using Cons by (cases xs) auto
    then show ?thesis using False Cons by (simp add: Clean_def Let_def)
  qed
qed (simp add: Clean_def Let_def)

lemma NewFolder_spec:
  assumes "NewFolder d (Join a n) = (Inr sub, d1)" "a \<noteq> []" "simpleName n" "resolve a = k"
  shows "keepsBut K d d1" "store_ok d1 (k @ [n]) sub" "fd_Files sub = []" "fd_SubFolders sub = []"
proof -
  have m: "osMkdirAll d (Join a n) = Some d1" "sub = Folder (Join a n) (Base (Join a n)) [] []"
    using assms(1) by (auto simp: NewFolder_def split: option.splits)
  then show "keepsBut K d d1" "fd_Files sub = []" "fd_SubFolders sub = []" using osMkdirAll_keeps by auto
  have "isDirKey d1 (k @ [n])" using osMkdirAll_dir[OF m(1)] resolve_Join[OF assms(2,3)] assms(4) by simp
  then show "store_ok d1 (k @ [n]) sub"
    using resolve_Join[OF assms(2,3)] assms(2,4) m(2)
    by (subst store_ok_rec) (simp add: node_ok_def Join_def Clean_ne)
qed

text \<open>Replacing a sub-folder.\<close>

lemma subAt_setSubFolder:
  "subAt (setSubFolder f n sub) q =
   (case q of [] \<Rightarrow> Some (setSubFolder f n sub)
    | m # ms \<Rightarrow> if m = n then subAt sub ms else subAt f q)"
  by (cases q) (auto simp: setSubFolder_def update_conv')

lemma revisions_setSubFolder:
  "revisions d (setSubFolder f n sub) q nm =
   (case q of [] \<Rightarrow> revisions d f [] nm
    | m # ms \<Rightarrow> if m = n then revisions d sub ms nm else revisions d f q nm)"
proof (cases q)
  case Nil
  then show ?thesis by (simp add: revisions_def setSubFolder_def)
next
  case (Cons m ms)
  then show ?thesis unfolding revisions_def subAt_setSubFolder by simp
qed

lemma store_ok_setSubFolder:
  assumes "store_ok d k f" "store_ok d (k @ [n]) sub" "simpleName n"
  shows "store_ok d k (setSubFolder f n sub)"
proof -
  have "node_ok d k (setSubFolder f n sub)"
    using assms(1,3) by (subst (asm) store_ok_rec) (auto simp: node_ok_def setSubFolder_def update_conv')
  moreover have "store_ok d (k @ [m]) s" if "map_of (fd_SubFolders (setSubFolder f n sub)) m = Some s" for m s
    using that assms(1,2) store_ok_rec[of d k f] by (auto simp: setSubFolder_def update_conv' split: if_splits)
  ultimately show ?thesis by (subst store_ok_rec) blast
qed

lemma store_ok_setFile:
  assumes "store_ok d k f" "vfile_ok d k name vf"
  shows "store_ok d k (setFile f name vf)"
  using assms by (subst store_ok_rec, subst (asm) store_ok_rec) (auto simp: node_ok_def setFile_def update_conv')

lemma revisions_setFile:
  "revisions d (setFile f name vf) q nm = (if q = [] \<and> nm = name then Some (revs d vf) else revisions d f q nm)"
  by (cases q) (auto simp: revisions_def setFile_def update_conv')

definition addOutcome ::
  "Disk \<Rightarrow> Disk \<Rightarrow> Folder \<Rightarrow> Folder \<Rightarrow> string list \<Rightarrow> string \<Rightarrow> Reader \<Rightarrow> Reader \<Rightarrow> int \<Rightarrow> vcsError + VersionedFile \<Rightarrow> bool" where
  "addOutcome d d' f f' p name r r' bytes res \<longleftrightarrow>
     (\<forall>q nm. (q, nm) \<noteq> (p, name) \<longrightarrow> revisions d' f' q nm = revisions d f q nm) \<and>
     (case res of
        Inl e \<Rightarrow> e \<noteq> NilPointer \<and> revisions d' f' p name = revisions d f p name
      | Inr vf \<Rightarrow>
          revisions d' f' p name = Some (newRevs (revisions d f p name) bytes (take (nat bytes) (unread r))) \<and>
          vf_LatestVersion vf = length (newRevs (revisions d f p name) bytes (take (nat bytes) (unread r))) \<and>
          unread r' = drop (nat bytes) (unread r) \<and> rd_Fails r' = rd_Fails r)"

lemma addFileIn_here:
  assumes "store_ok d k f" "sep \<notin> set name" "addFileIn d f [] name r bytes = (res, f', d', r')"
  shows "keepsBut (nextKey d k f [] name) d d' \<and> store_ok d' k f' \<and> addOutcome d d' f f' [] name r r' bytes res"
proof (cases "map_of (fd_Files f) name")
  case (Some vf)
  then have vok: "vfile_ok d k name vf" using assms(1) by (subst (asm) store_ok_rec) (simp add: node_ok_def)
  have K: "nextKey d k f [] name = revisionKey k name (vf_LatestVersion vf)"
    using Some by (simp add: nextKey_def revisions_def)
  obtain res1 vf' d1 r1 where av: "AddVersion d vf r bytes = (res1, vf', d1, r1)" by (metis prod_cases4)
  have out: "f' = setFile f name vf'" "d' = d1" "r' = r1" "res = (case res1 of Inl e \<Rightarrow> Inl e | Inr file \<Rightarrow> Inr vf')"
    using assms(3) Some av by (auto split: sum.splits)
  note spec = AddVersion_spec[OF av vok]
  have keep: "keepsBut (nextKey d k f [] name) d d'" using spec out(2) K by simp
  note same = store_keeps_next[OF keep assms(1)]
  have "store_ok d' k f'" using store_ok_setFile[OF same(1)] spec out by simp
  moreover have "revisions d f [] name = Some (revs d vf)" using Some by (simp add: revisions_def)
  moreover have "revisions d' f' [] name = Some (revs d' vf')" unfolding out by (simp add: revisions_setFile)
  moreover have "revs d' vf = revs d vf" using same(2)[of "[]" name] Some by (simp add: revisions_def)
  moreover have "\<forall>q nm. (q, nm) \<noteq> ([], name) \<longrightarrow> revisions d' f' q nm = revisions d f q nm"
    unfolding out(1) using same(2) by (simp add: revisions_setFile)
  moreover have "vf_LatestVersion vf' = length (newRevs (Some (revs d vf)) bytes (take (nat bytes) (unread r)))" if "res1 = Inr fl" for fl
    using spec that length_revs[of d1 vf'] by simp
  ultimately show ?thesis using keep spec out unfolding addOutcome_def by (cases res1) auto
next
  case None
  have abs: "resolve (fd_AbsolutePath f) = k" using assms(1) by (subst (asm) store_ok_rec) (simp add: node_ok_def)
  have old: "revisions d f [] name = None" using None by (simp add: revisions_def)
  then have K: "nextKey d k f [] name = revisionKey k name 0" by (simp add: nextKey_def)
  obtain res1 d1 r1 where nv: "NewVersionedFile d (fd_AbsolutePath f @ sep # name) r bytes = (res1, d1, r1)" by (metis prod_cases3)
  have out: "d' = d1" "r' = r1" "res = res1" "f' = (case res1 of Inl e \<Rightarrow> f | Inr vf \<Rightarrow> setFile f name vf)"
    using assms(3) None nv by (auto simp: AddNewFile_def setFile_def split: sum.splits)
  note spec = NewVersionedFile_spec[OF nv abs assms(2)]
  have keep: "keepsBut (nextKey d k f [] name) d d'" using spec out(1) K by simp
  note same = store_keeps_next[OF keep assms(1)]
  show ?thesis
  proof (cases res1)
    case (Inl e)
    have "e \<noteq> NilPointer" using nv Inl NewTextFile_err[of d r "fd_AbsolutePath f @ sep # name @ ''.1''"]
      by (auto simp: NewVersionedFile_def split: prod.splits sum.splits) (metis fst_conv)
    then show ?thesis using keep same old out Inl by (simp add: addOutcome_def)
  next
    case (Inr vf)
    have "store_ok d' k f'" using store_ok_setFile[OF same(1)] spec out Inr by simp
    then show ?thesis using keep spec same old out Inr
      by (auto simp: addOutcome_def revisions_setFile newRevs_def dest: arg_cong[of _ _ length])
  qed
qed


lemma revisions_fresh: "fd_Files sub = [] \<Longrightarrow> fd_SubFolders sub = [] \<Longrightarrow> revisions d sub q nm = None"
  by (cases q) (auto simp: revisions_def)

lemma nextKey_sub:
  assumes "\<And>q. revisions d f (n # q) name = revisions d1 sub q name"
  shows "nextKey d k f (n # p) name = nextKey d1 (k @ [n]) sub p name"
  using assms[of p] by (simp add: nextKey_def)

lemma addOutcome_sub:
  assumes "addOutcome d1 d' sub sub' p name r r' bytes res"
    and "\<And>q nm. revisions d f (n # q) nm = revisions d1 sub q nm"
    and "\<And>q nm. revisions d' f q nm = revisions d f q nm"
  shows "addOutcome d d' f (setSubFolder f n sub') (n # p) name r r' bytes res"
proof -
  have "revisions d' (setSubFolder f n sub') q nm = revisions d f q nm" if "(q, nm) \<noteq> (n # p, name)" for q nm
  proof (cases q)
    case Nil
    then show ?thesis by (simp add: revisions_setSubFolder assms(3))
  next
    case (Cons m ms)
    then show ?thesis using assms that by (auto simp: revisions_setSubFolder addOutcome_def)
  qed
  moreover have "revisions d' (setSubFolder f n sub') (n # p) name = revisions d' sub' p name"
    by (simp add: revisions_setSubFolder)
  ultimately show ?thesis using assms(1) by (simp add: addOutcome_def assms(2) split: sum.splits)
qed

lemma addFileIn_spec:
  assumes "store_ok d k f" "\<forall>n\<in>set folders. n = '''' \<or> simpleName n" "sep \<notin> set name"
    "addFileIn d f folders name r bytes = (res, f', d', r')" "p = filter (\<lambda>n. n \<noteq> '''') folders"
  shows "keepsBut (nextKey d k f p name) d d' \<and> store_ok d' k f' \<and> addOutcome d d' f f' p name r r' bytes res"
  using assms
proof (induction folders arbitrary: d k f f' p)
  case Nil
  then show ?case using addFileIn_here[OF Nil(1,3)] by simp
next
  case (Cons n folders)
  let ?p = "filter (\<lambda>n. n \<noteq> '''') folders"
  have nok: "node_ok d k f" "\<And>m s. map_of (fd_SubFolders f) m = Some s \<Longrightarrow> store_ok d (k @ [m]) s"
    using Cons.prems(1) store_ok_rec by blast+
  have names: "\<forall>n\<in>set folders. n = '''' \<or> simpleName n" using Cons.prems(2) by simp
  show ?case
  proof (cases "map_of (fd_SubFolders f) n")
    case (Some sub)
    then have n: "simpleName n" "n \<noteq> ''''" using nok(1) by (auto simp: node_ok_def simpleName_def)
    obtain sub' where a: "addFileIn d sub folders name r bytes = (res, sub', d', r')" "f' = setSubFolder f n sub'"
      using Cons.prems(4) Some by (auto split: prod.splits)
    from Cons.IH[OF nok(2)[OF Some] names Cons.prems(3) a(1) refl]
    have ih: "keepsBut (nextKey d (k @ [n]) sub ?p name) d d'" "store_ok d' (k @ [n]) sub'"
      "addOutcome d d' sub sub' ?p name r r' bytes res" by auto
    have r: "revisions d f (n # q) nm = revisions d sub q nm" for q nm using Some by (simp add: revisions_def)
    have keep: "keepsBut (nextKey d k f (n # ?p) name) d d'" using ih(1) nextKey_sub[of d f n name d sub k ?p] r by simp
    note same = store_keeps_next[OF keep Cons.prems(1)]
    have "addOutcome d d' f f' (n # ?p) name r r' bytes res" unfolding a(2) by (rule addOutcome_sub[OF ih(3) r same(2)])
    moreover have "store_ok d' k f'" unfolding a(2) by (rule store_ok_setSubFolder[OF same(1) ih(2) n(1)])
    ultimately show ?thesis using keep n(2) Cons.prems(5) by simp
  next
    case None
    show ?thesis
    proof (cases "n = ''''")
      case True
      then have "addFileIn d f folders name r bytes = (res, f', d', r')" using Cons.prems(4) None by simp
      from Cons.IH[OF Cons.prems(1) names Cons.prems(3) this refl] show ?thesis using True Cons.prems(5) by simp
    next
      case False
      then have n: "simpleName n" using Cons.prems(2) by simp
      have abs: "fd_AbsolutePath f \<noteq> []" "resolve (fd_AbsolutePath f) = k" using nok(1) by (auto simp: node_ok_def)
      obtain nf d1 where nf: "NewFolder d (Join (fd_AbsolutePath f) n) = (nf, d1)" by force
      show ?thesis
      proof (cases nf)
        case (Inl e)
        then have "f' = f" "d' = d" "res = Inl e" "e \<noteq> NilPointer"
          using Cons.prems(4) None False nf by (auto simp: NewFolder_def split: option.splits)
        then show ?thesis using Cons.prems(1) by (simp add: addOutcome_def)
      next
        case (Inr sub)
        note fresh = NewFolder_spec[OF nf[unfolded Inr] abs(1) n abs(2)]
        obtain sub' where a: "addFileIn d1 sub folders name r bytes = (res, sub', d', r')" "f' = setSubFolder f n sub'"
          using Cons.prems(4) None False nf Inr by (auto split: prod.splits)
        from Cons.IH[OF fresh(2) names Cons.prems(3) a(1) refl]
        have ih: "keepsBut (nextKey d1 (k @ [n]) sub ?p name) d1 d'" "store_ok d' (k @ [n]) sub'"
          "addOutcome d1 d' sub sub' ?p name r r' bytes res" by auto
        have r: "revisions d f (n # q) nm = revisions d1 sub q nm" for q nm
          using None revisions_fresh[OF fresh(3,4)] by (simp add: revisions_def)
        have keep: "keepsBut (nextKey d k f (n # ?p) name) d d'"
          using keepsBut_trans[OF fresh(1) ih(1)] nextKey_sub[of d f n name d1 sub k ?p] r by simp
        note same = store_keeps_next[OF keep Cons.prems(1)]
        have "addOutcome d d' f f' (n # ?p) name r r' bytes res" unfolding a(2) by (rule addOutcome_sub[OF ih(3) r same(2)])
        moreover have "store_ok d' k f'" unfolding a(2) by (rule store_ok_setSubFolder[OF same(1) ih(2) n])
        ultimately show ?thesis using keep False Cons.prems(5) by simp
      qed
    qed
  qed
qed

end
