(* ===== verification/VCS_Server.thy ===== *)
theory VCS_Server
  imports VCS_Refine
begin

text \<open>
  \<open>internal/voraciouscodestorage/vcs.go\<close>: the commands of a connection. A handler returns its error, what
  it wrote to the connection, the store, the disk and the rest of the input. Writes succeed (a failed
  one only ends the connection), and connections are served one command at a time.
\<close>

section \<open>Paths of requests\<close>

definition isLegal :: "char \<Rightarrow> bool" where
  "isLegal r \<longleftrightarrow>
     (CHR ''a'' \<le> r \<and> r \<le> CHR ''z'') \<or> (CHR ''A'' \<le> r \<and> r \<le> CHR ''Z'') \<or> (CHR ''0'' \<le> r \<and> r \<le> CHR ''9'') \<or>
     r = CHR ''_'' \<or> r = CHR ''-'' \<or> r = CHR ''.'' \<or> r = CHR ''/'' \<or> r = CHR 0x5C"

fun containsDoubleSlash :: "string \<Rightarrow> bool" where
  "containsDoubleSlash (a # b # s) = (if a = sep \<and> b = sep then True else containsDoubleSlash (b # s))"
| "containsDoubleSlash s = False"

definition isValidPath :: "string \<Rightarrow> bool" where
  "isValidPath p =
     (if \<not> IsAbs p then False
      else if containsDoubleSlash p then False
      else if \<not> list_all isLegal p then False
      else if p = '''' then False
      else True)"

definition splitDirFile :: "string \<Rightarrow> string \<times> string" where
  "splitDirFile fullPath = (uptoSep sep fullPath, afterSep sep fullPath)"

section \<open>Messages and numbers\<close>

definition newlineChar :: char where
  "newlineChar = char_of (10 :: nat)"

definition sendMessage :: "string \<Rightarrow> bool \<Rightarrow> string" where
  "sendMessage message readyFollowUp =
     message @ [newlineChar] @ (if readyFollowUp then ''READY'' @ [newlineChar] else [])"

text \<open>
  The value \<open>strconv.Atoi\<close> returns beside its error: zero for a syntax error, the nearest \<open>int64\<close> for a
  number that does not fit.
\<close>

definition atoiValue :: "string \<Rightarrow> int" where
  "atoiValue s =
     (case atoi s of
        Some n \<Rightarrow> n
      | None \<Rightarrow>
          (let (neg, ds) = (case s of
                [] \<Rightarrow> (False, [])
              | c # cs \<Rightarrow> if c = CHR ''-'' then (True, cs) else if c = CHR ''+'' then (False, cs) else (False, s))
           in case parseDigits ds of
                None \<Rightarrow> 0
              | Some n \<Rightarrow> if neg then - (2 ^ 63) else 2 ^ 63 - 1))"

text \<open>
  \<open>strings.ToUpper\<close>, as far as a comparison with ASCII words can tell: besides the ASCII letters, two
  other runes have ASCII upper case, U+0131 (\<open>I\<close>) and U+017F (\<open>S\<close>).
\<close>

definition upperByte :: "char \<Rightarrow> char" where
  "upperByte c = (if 97 \<le> byte_of c \<and> byte_of c \<le> 122 then char_of (byte_of c - 32) else c)"

fun toUpper :: "string \<Rightarrow> string" where
  "toUpper (a # b # s) =
     (if byte_of a = 196 \<and> byte_of b = 177 then CHR ''I'' # toUpper s
      else if byte_of a = 197 \<and> byte_of b = 191 then CHR ''S'' # toUpper s
      else upperByte a # toUpper (b # s))"
| "toUpper [a] = [upperByte a]"
| "toUpper [] = []"

section \<open>Handlers\<close>

record VcsState =
  vs_Root :: Folder
  vs_Disk :: Disk

definition handleHelp :: string where
  "handleHelp = sendMessage ''OK Usage: HELP|GET|PUT|LIST'' True"

definition handlePut ::
  "Reader \<Rightarrow> VcsState \<Rightarrow> string list \<Rightarrow> vcsError option \<times> string \<times> VcsState \<times> Reader" where
  "handlePut r st commandList =
     (if length commandList \<noteq> 3 then (None, sendMessage ''ERR usage: PUT file length newline data'' True, st, r)
      else if \<not> isValidPath (commandList ! 1) then (None, sendMessage ''ERR illegal file name'' False, st, r)
      else
        (let readLimit = atoiValue (commandList ! 2) in
         case AddFile (vs_Disk st) (vs_Root st) (commandList ! 1) r readLimit of
           (res, root, d, r1) \<Rightarrow>
             (let st1 = \<lparr>vs_Root = root, vs_Disk = d\<rparr> in
              case res of
                Inl e \<Rightarrow>
                  if e = ErrNonTextData then (None, sendMessage ''ERR text files only'' True, st1, r1)
                  else (Some e, [], st1, r1)
              | Inr file \<Rightarrow> (None, sendMessage (''OK r'' @ itoa (int (vf_LatestVersion file))) True, st1, r1))))"

definition handleGet :: "VcsState \<Rightarrow> string list \<Rightarrow> vcsError option \<times> string" where
  "handleGet st commandList =
     (let sendNoSuchFile = (None, sendMessage ''ERR no such file'' True) in
      if length commandList < 2 \<or> length commandList > 3 then (None, sendMessage ''ERR usage: GET file [revision]'' True)
      else if \<not> isValidPath (commandList ! 1) then (None, sendMessage ''ERR illegal file name'' False)
      else
        (let (dir, fileName) = splitDirFile (commandList ! 1) in
         case GetFolder (vs_Root st) dir of
           None \<Rightarrow> sendNoSuchFile
         | Some targetFolder \<Rightarrow>
             (case map_of (fd_Files targetFolder) fileName of
                None \<Rightarrow> sendNoSuchFile
              | Some vf \<Rightarrow>
                  (let revisionInput = (if length commandList = 3
                        then (if take 1 (commandList ! 2) = ''r'' then tl (commandList ! 2) else commandList ! 2) else []);
                       revision = (if length commandList = 3
                        then (case atoi revisionInput of
                                None \<Rightarrow> None
                              | Some parsedRevision \<Rightarrow>
                                  if parsedRevision < 1 \<or> parsedRevision > int (vf_LatestVersion vf) then None
                                  else Some (nat parsedRevision))
                        else Some (vf_LatestVersion vf))
                   in case revision of
                        None \<Rightarrow> (None, sendMessage ''ERR no such revision'' True)
                      | Some n \<Rightarrow>
                          (case vf_Files vf (n - 1) of
                             None \<Rightarrow> (Some NilPointer, [])
                           | Some targetFile \<Rightarrow>
                               (let ok = sendMessage (''OK '' @ itoa (fl_Bytes targetFile)) False in
                                case ReadFile (vs_Disk st) targetFile of
                                  None \<Rightarrow> (Some (IoError ''error reading file''), ok)
                                | Some content \<Rightarrow> (None, ok @ content @ sendMessage ''READY'' False)))))))"

definition handleList :: "VcsState \<Rightarrow> string list \<Rightarrow> string" where
  "handleList st commandList =
     (if \<not> isValidPath (commandList ! 1) then sendMessage ''ERR illegal dir name'' False
      else
        (case GetFolder (vs_Root st) (commandList ! 1) of
           None \<Rightarrow> sendMessage ''OK 0'' True
         | Some targetFolder \<Rightarrow>
             (let itemCount = length (fd_Files targetFolder) + length (fd_SubFolders targetFolder);
                  folders = sort_key fd_Name (GetSubFolders targetFolder);
                  files = sort_key vf_FileName (GetFiles targetFolder)
              in sendMessage (''OK '' @ itoa (int itemCount)) False @
                 concat (map (\<lambda>folder. sendMessage (fd_Name folder @ ''/ DIR'') False) folders) @
                 concat (map (\<lambda>file. sendMessage (vf_FileName file @ '' r'' @ itoa (int (vf_LatestVersion file))) False) files) @
                 sendMessage ''READY'' False)))"

section \<open>The connection\<close>

text \<open>\<open>reader.ReadString\<close>: a line with its newline, or none when the stream ends first.\<close>

fun dropPieces :: "nat \<Rightarrow> string list \<Rightarrow> string list" where
  "dropPieces n [] = []"
| "dropPieces n (p # ps) =
     (if n = 0 then p # ps else if length p \<le> n then dropPieces (n - length p) ps else drop n p # ps)"

definition ReadLine :: "Reader \<Rightarrow> (string \<times> Reader) option" where
  "ReadLine r =
     (case find_index (\<lambda>c. c = newlineChar) (unread r) of
        None \<Rightarrow> None
      | Some i \<Rightarrow> Some (take (i + 1) (unread r), r\<lparr>rd_Pieces := dropPieces (i + 1) (rd_Pieces r)\<rparr>))"

text \<open>One command: its output, the state after it, and whether the loop goes on.\<close>

definition runCommand :: "Reader \<Rightarrow> VcsState \<Rightarrow> string \<Rightarrow> string \<times> VcsState \<times> Reader \<times> bool" where
  "runCommand r st command =
     (let commandList = splitOn (CHR '' '') command;
          method = toUpper (commandList ! 0)
      in if method = ''HELP'' then (handleHelp, st, r, True)
         else if method = ''LIST'' then
           (if length commandList < 2 then (sendMessage ''ERR usage: LIST dir'' True, st, r, True)
            else (handleList st commandList, st, r, True))
         else if method = ''GET'' then
           (case handleGet st commandList of (err, out) \<Rightarrow> (out, st, r, err = None))
         else if method = ''PUT'' then
           (case handlePut r st commandList of (err, out, st1, r1) \<Rightarrow> (out, st1, r1, err = None))
         else if method = ''CLEAR'' then
           (case ClearStore (vs_Root st) (vs_Disk st) of
              (root, d) \<Rightarrow> (sendMessage ''OK cleared fs contents'' True, \<lparr>vs_Root = root, vs_Disk = d\<rparr>, r, True))
         else (sendMessage (''ERR illegal method '' @ commandList ! 0) False, st, r, False))"

lemma concat_dropPieces: "concat (dropPieces n ps) = drop n (concat ps)"
  by (induction n ps rule: dropPieces.induct) auto

lemma ReadLine_unread:
  assumes "ReadLine r = Some (line, r1)"
  shows "unread r = line @ unread r1 \<and> line \<noteq> [] \<and> rd_Fails r1 = rd_Fails r"
proof -
  obtain i where i: "find_index (\<lambda>c. c = newlineChar) (unread r) = Some i" "line = take (i + 1) (unread r)"
    "r1 = r\<lparr>rd_Pieces := dropPieces (i + 1) (rd_Pieces r)\<rparr>"
    using assms by (auto simp: ReadLine_def split: option.splits)
  have "i < length (unread r)" using find_index_Some[OF i(1)] by simp
  then have "line \<noteq> []" using i(2) by (cases "unread r") auto
  moreover have "unread r1 = drop (i + 1) (unread r)" by (simp add: i(3) unread_def concat_dropPieces)
  ultimately show ?thesis using i by simp
qed

lemma copyText_shrinks: "copyText limit r written = (err, content, r1) \<Longrightarrow> length (unread r1) \<le> length (unread r)"
proof (induction limit r written rule: copyText.induct)
  case (1 limit r written)
  show ?case
  proof (cases "limit = 0 \<or> rd_Pieces r = []")
    case True
    then show ?thesis using 1(2) by (auto simp: copyText.simps[of limit r written] split: list.splits if_splits)
  next
    case False
    then obtain piece pieces where p: "rd_Pieces r = piece # pieces" "limit \<noteq> 0" by (cases "rd_Pieces r") auto
    let ?n = "min (min 4096 limit) (length piece)"
    let ?r1 = "r\<lparr>rd_Pieces := (if ?n = length piece then pieces else drop ?n piece # pieces)\<rparr>"
    have "length (unread ?r1) \<le> length (unread r)" by (simp add: unread_def p)
    moreover have "r1 = ?r1 \<or> copyText (limit - ?n) ?r1 (written @ take ?n piece) = (err, content, r1) \<and> validText (take ?n piece)"
      using 1(2) p by (auto simp: copyText.simps[of limit r written] Let_def split: if_splits)
    ultimately show ?thesis using "1.IH"[OF p(2,1) refl refl refl] by fastforce
  qed
qed

text \<open>No command gives input back.\<close>

lemma NewTextFile_shrinks: "length (unread (snd (snd (NewTextFile d r absPath ext n)))) \<le> length (unread r)"
proof -
  obtain err w r1 where c: "copyText (nat n) r [] = (err, w, r1)" by (metis prod_cases3)
  from copyText_shrinks[OF c] show ?thesis
    using c by (auto simp: NewTextFile_def Let_def split: option.split vcsError.split)
qed

lemma NewTextFile_rest: "NewTextFile d r absPath ext n = (res, d1, r1) \<Longrightarrow> length (unread r1) \<le> length (unread r)"
  using NewTextFile_shrinks[of d r absPath ext n] by simp

lemma AddVersion_rest: "AddVersion d vf r bytes = (res, vf1, d1, r1) \<Longrightarrow> length (unread r1) \<le> length (unread r)"
  by (auto simp: AddVersion_def NewTextFile_rest split: option.splits prod.splits sum.splits bool.splits)

lemma AddNewFile_rest: "AddNewFile d f name r bytes = (res, f1, d1, r1) \<Longrightarrow> length (unread r1) \<le> length (unread r)"
  by (auto simp: AddNewFile_def NewVersionedFile_def NewTextFile_rest split: option.splits prod.splits sum.splits if_splits)

lemma addFileIn_rest:
  "addFileIn d f folders name r bytes = (res, f1, d1, r1) \<Longrightarrow> length (unread r1) \<le> length (unread r)"
proof (induction folders arbitrary: d f f1)
  case Nil
  then show ?case by (auto simp: AddVersion_rest AddNewFile_rest split: option.splits prod.splits sum.splits)
next
  case (Cons n folders)
  then show ?case by (auto split: option.splits prod.splits sum.splits if_splits)
qed

lemma runCommand_rest: "runCommand r st command = (out, st1, r1, go) \<Longrightarrow> length (unread r1) \<le> length (unread r)"
  by (auto simp: runCommand_def handlePut_def AddFile_def addFileIn_rest Let_def split: prod.splits sum.splits if_splits)

text \<open>\<open>handleConnection\<close>: all the output of a connection, and the state it leaves.\<close>

function commandLoop :: "Reader \<Rightarrow> VcsState \<Rightarrow> string \<times> VcsState" where
  "commandLoop r st =
     (case ReadLine r of
        None \<Rightarrow> ([], st)
      | Some (line, r1) \<Rightarrow>
          (case runCommand r1 st (butlast line) of
             (out, st1, r2, go) \<Rightarrow>
               if go then (case commandLoop r2 st1 of (out', st2) \<Rightarrow> (out @ out', st2)) else (out, st1)))"
  by pat_completeness auto
termination
proof (relation "measure (\<lambda>(r, st). length (unread r))", goal_cases)
  case (2 r st x line r1 out rest st1 z r2 go)
  then have "length (unread r1) < length (unread r)" using ReadLine_unread[of r line r1] by auto
  moreover have "runCommand r1 st (butlast line) = (out, st1, r2, go)" using 2 by simp
  then have "length (unread r2) \<le> length (unread r1)" by (rule runCommand_rest)
  ultimately show ?case by simp
qed simp

declare commandLoop.simps [simp del]

definition handleConnection :: "Reader \<Rightarrow> VcsState \<Rightarrow> string \<times> VcsState" where
  "handleConnection r st = (case commandLoop r st of (out, st1) \<Rightarrow> (sendMessage ''READY'' False @ out, st1))"

text \<open>The store a server starts with: none when \<open>log.Fatalf\<close> ends it. The variable \<open>DATA_DIR\<close> is an argument.\<close>

definition localDefaultDataDir :: string where
  "localDefaultDataDir = ''./data''"

definition getDataDir :: "string \<Rightarrow> Disk \<Rightarrow> (string \<times> Disk) option" where
  "getDataDir env d =
     (let dataDir = (if env = '''' then localDefaultDataDir else env) in
      if osStat d dataDir = None then map_option (\<lambda>d1. (dataDir, d1)) (osMkdirAll d dataDir)
      else Some (dataDir, d))"

definition startServer :: "string \<Rightarrow> Disk \<Rightarrow> VcsState option" where
  "startServer env d =
     (case getDataDir env d of
        None \<Rightarrow> None
      | Some (dataDir, d1) \<Rightarrow>
          (case NewFileManager d1 dataDir of
             (Inl e, d2) \<Rightarrow> None
           | (Inr root, d2) \<Rightarrow> Some \<lparr>vs_Root = root, vs_Disk = d2\<rparr>))"

section \<open>The folder and the name of a path\<close>

definition pathDirs :: "string \<Rightarrow> string list" where
  "pathDirs path = filter (\<lambda>n. n \<noteq> '''') (butlast (splitOn sep path))"

definition pathFile :: "string \<Rightarrow> string" where
  "pathFile path = last (splitOn sep path)"

text \<open>A valid path without the names \<open>.\<close> and \<open>..\<close> for folders.\<close>

definition plainPath :: "string \<Rightarrow> bool" where
  "plainPath path \<longleftrightarrow> isValidPath path \<and> list_all (\<lambda>n. n \<noteq> ''.'' \<and> n \<noteq> ''..'') (butlast (splitOn sep path))"

lemma descend_subAt:
  "\<forall>n\<in>set parts. n \<noteq> '''' \<Longrightarrow> descend f parts = subAt f parts"
  by (induction parts arbitrary: f) (auto split: option.split)

lemma descend_filter: "descend f parts = descend f (filter (\<lambda>n. n \<noteq> '''') parts)"
  by (induction parts arbitrary: f) (auto split: option.split)

lemma split_dir:
  assumes "sep \<in> set p"
  shows "splitOn sep (uptoSep sep p) = butlast (splitOn sep p) @ [[]]" "afterSep sep p = last (splitOn sep p)"
    "uptoSep sep p \<noteq> []" "uptoSep sep p @ afterSep sep p = p"
proof -
  have "sep \<in> set (rev p)" using assms by simp
  then have ne: "dropWhile (\<lambda>x. x \<noteq> sep) (rev p) \<noteq> []" by (auto simp: dropWhile_eq_Nil_conv)
  have "hd (dropWhile (\<lambda>x. x \<noteq> sep) (rev p)) = sep" using hd_dropWhile[OF ne] by blast
  then obtain w where w: "dropWhile (\<lambda>x. x \<noteq> sep) (rev p) = sep # w"
    using ne by (cases "dropWhile (\<lambda>x. x \<noteq> sep) (rev p)") simp_all
  have u: "uptoSep sep p = rev w @ sep # []" by (simp add: uptoSep_def w)
  have "rev (takeWhile (\<lambda>x. x \<noteq> sep) (rev p) @ dropWhile (\<lambda>x. x \<noteq> sep) (rev p)) = p" by simp
  then have q: "uptoSep sep p @ afterSep sep p = p" unfolding afterSep_def uptoSep_def by (simp only: rev_append)
  then have p: "p = rev w @ sep # afterSep sep p" unfolding u by simp
  show "uptoSep sep p \<noteq> []" unfolding u by simp
  show "uptoSep sep p @ afterSep sep p = p" by (rule q)
  have a: "sep \<notin> set (afterSep sep p)" by (auto simp: afterSep_def dest: set_takeWhileD)
  have "splitOn sep p = splitOn sep (rev w) @ [afterSep sep p]"
    by (subst p) (simp add: splitOn_append_sep splitOn_no_sep[OF a])
  then show "splitOn sep (uptoSep sep p) = butlast (splitOn sep p) @ [[]]" "afterSep sep p = last (splitOn sep p)"
    unfolding u by (simp_all add: splitOn_append_sep)
qed

lemma cleanWalk_plain:
  "\<forall>n\<in>set ns. n \<noteq> ''.'' \<and> n \<noteq> ''..'' \<Longrightarrow> cleanWalk rooted st ns = rev (filter (\<lambda>n. n \<noteq> '''') ns) @ st"
  by (induction rooted st ns rule: cleanWalk.induct) auto

lemma GetFolder_plain:
  assumes "IsAbs p" "\<forall>n\<in>set (splitOn sep p). n \<noteq> ''.'' \<and> n \<noteq> ''..''"
  shows "GetFolder root p = subAt root (filter (\<lambda>n. n \<noteq> '''') (splitOn sep p))"
proof -
  let ?ns = "filter (\<lambda>n. n \<noteq> '''') (splitOn sep p)"
  have c: "Clean p = sep # joinWith sep ?ns"
    using assms by (simp add: Clean_def Let_def cleanWalk_plain)
  have "filter (\<lambda>n. n \<noteq> '''') (splitOn sep (Clean p)) = ?ns"
  proof (cases "?ns = []")
    case True
    then show ?thesis unfolding c by simp
  next
    case False
    have "\<forall>n\<in>set ?ns. sep \<notin> set n" using splitOn_parts[of _ sep p] by auto
    then show ?thesis unfolding c using split_join[OF False] by simp
  qed
  moreover have "descend root ?ns = subAt root ?ns" by (rule descend_subAt) simp
  ultimately show ?thesis unfolding GetFolder_def by (subst descend_filter) simp
qed

lemma plain_split:
  assumes "plainPath path"
  shows "GetFolder root (fst (splitDirFile path)) = subAt root (pathDirs path)" "snd (splitDirFile path) = pathFile path"
    "\<forall>n\<in>set (butlast (splitOn sep path)). n = '''' \<or> simpleName n" "sep \<notin> set (pathFile path)"
proof -
  have p: "IsAbs path" "\<forall>n\<in>set (butlast (splitOn sep path)). n \<noteq> ''.'' \<and> n \<noteq> ''..''"
    using assms by (auto simp: plainPath_def isValidPath_def list_all_iff split: if_splits)
  then have s: "sep \<in> set path" by (cases path) (auto simp: IsAbs_def)
  note sp = split_dir[OF s]
  have "hd (uptoSep sep path) = hd path" using sp(3,4) by (metis hd_append2)
  then have "IsAbs (uptoSep sep path)" using p(1) sp(3) by (simp add: IsAbs_def)
  then show "GetFolder root (fst (splitDirFile path)) = subAt root (pathDirs path)"
    using p(2) by (simp add: splitDirFile_def GetFolder_plain sp(1) pathDirs_def)
  show "snd (splitDirFile path) = pathFile path" by (simp add: splitDirFile_def sp(2) pathFile_def)
  show "\<forall>n\<in>set (butlast (splitOn sep path)). n = '''' \<or> simpleName n"
    using p(2) splitOn_parts[of _ sep path] in_set_butlastD[of _ "splitOn sep path"] unfolding simpleName_def by blast
  show "sep \<notin> set (pathFile path)" unfolding pathFile_def by (rule splitOn_parts[of _ sep path]) simp
qed


section \<open>Storing and reading\<close>

definition vcs_ok :: "string list \<Rightarrow> VcsState \<Rightarrow> bool" where
  "vcs_ok k st \<longleftrightarrow> store_ok (vs_Disk st) k (vs_Root st)"

text \<open>The revisions of the file with a path, as length on record and content.\<close>

definition stored :: "VcsState \<Rightarrow> string list \<Rightarrow> string \<Rightarrow> (int \<times> string) list option" where
  "stored st dirs name = revisions (vs_Disk st) (vs_Root st) dirs name"

lemma handlePut_spec:
  assumes "vcs_ok k st" "plainPath path"
    and "handlePut r st [cmd, path, len] = (err, out, st', r')"
    and "data = take (nat (atoiValue len)) (unread r)"
    and "new = newRevs (stored st (pathDirs path) (pathFile path)) (atoiValue len) data"
  shows "vcs_ok k st' \<and>
    (\<forall>q nm. (q, nm) \<noteq> (pathDirs path, pathFile path) \<longrightarrow> stored st' q nm = stored st q nm) \<and>
    (if err = None \<and> out \<noteq> sendMessage ''ERR text files only'' True
     then out = sendMessage (''OK r'' @ itoa (int (length new))) True \<and>
       stored st' (pathDirs path) (pathFile path) = Some new \<and> unread r' = drop (nat (atoiValue len)) (unread r)
     else err \<noteq> Some NilPointer \<and> stored st' (pathDirs path) (pathFile path) = stored st (pathDirs path) (pathFile path))"
proof -
  have valid: "isValidPath path" using assms(2) by (simp add: plainPath_def)
  obtain res root d r1 where a: "AddFile (vs_Disk st) (vs_Root st) path r (atoiValue len) = (res, root, d, r1)" by (metis prod_cases4)
  have out: "st' = \<lparr>vs_Root = root, vs_Disk = d\<rparr>" "r' = r1"
      "(err, out) = (case res of
         Inl e \<Rightarrow> if e = ErrNonTextData then (None, sendMessage ''ERR text files only'' True) else (Some e, [])
       | Inr file \<Rightarrow> (None, sendMessage (''OK r'' @ itoa (int (vf_LatestVersion file))) True))"
    using assms(3) valid a by (auto simp: handlePut_def Let_def split: sum.splits if_splits)
  have "addFileIn (vs_Disk st) (vs_Root st) (butlast (splitOn sep path)) (pathFile path) r (atoiValue len) = (res, root, d, r1)"
    using a by (simp add: AddFile_def pathFile_def Let_def)
  note spec = addFileIn_spec[OF assms(1)[unfolded vcs_ok_def] plain_split(3)[OF assms(2)] plain_split(4)[OF assms(2)] this refl,
      folded pathDirs_def]
  have ne: "sendMessage (''OK r'' @ s) True \<noteq> sendMessage ''ERR text files only'' True" for s
    by (simp add: sendMessage_def)
  show ?thesis
  proof (cases res)
    case (Inl e)
    have "e \<noteq> NilPointer" using spec Inl by (simp add: addOutcome_def)
    then have "err = None \<and> out = sendMessage ''ERR text files only'' True \<or> err = Some e \<and> err \<noteq> Some NilPointer"
      using out(3) Inl by (auto split: if_splits)
    moreover have "vcs_ok k st'" using spec by (simp add: vcs_ok_def out(1))
    moreover have "stored st' q nm = stored st q nm" for q nm
      using spec Inl by (cases "(q, nm) = (pathDirs path, pathFile path)") (simp_all add: addOutcome_def stored_def out(1))
    ultimately show ?thesis by auto
  next
    case (Inr vf)
    then have "err = None" "out = sendMessage (''OK r'' @ itoa (int (vf_LatestVersion vf))) True" using out(3) by auto
    then show ?thesis using spec out(1,2) Inr ne assms(4,5) by (simp add: addOutcome_def vcs_ok_def stored_def)
  qed
qed

text \<open>C29: Storing a file is what its contract says, for every valid path without dots: a PUT that is answered with
  \<open>OK\<close> has appended its data as the newest revision of exactly this path (or nothing, when the newest revision
  has the same content), the answer names that revision, and exactly the announced bytes are taken from the
  stream; a PUT that fails changes the revisions of no path; and the invariant that ties the folder tree to the disk
  is kept in every case.\<close>

theorem put_refines_store:
  assumes "vcs_ok k st" "plainPath path"
    and "handlePut r st [cmd, path, len] = (err, out, st', r')"
    and "data = take (nat (atoiValue len)) (unread r)"
    and "new = newRevs (stored st (pathDirs path) (pathFile path)) (atoiValue len) data"
  shows "vcs_ok k st' \<and>
    (\<forall>q nm. (q, nm) \<noteq> (pathDirs path, pathFile path) \<longrightarrow> stored st' q nm = stored st q nm) \<and>
    (if err = None \<and> out \<noteq> sendMessage ''ERR text files only'' True
     then out = sendMessage (''OK r'' @ itoa (int (length new))) True \<and>
       stored st' (pathDirs path) (pathFile path) = Some new \<and> unread r' = drop (nat (atoiValue len)) (unread r)
     else err \<noteq> Some NilPointer \<and> stored st' (pathDirs path) (pathFile path) = stored st (pathDirs path) (pathFile path))"
  using assms by (rule handlePut_spec)

lemma handleGet_spec:
  assumes "vcs_ok k st" "plainPath path" "stored st (pathDirs path) (pathFile path) = Some rs"
    and "args = [] \<and> n = length rs \<or> args = [''r'' @ itoa (int n)] \<and> 1 \<le> n \<and> n \<le> length rs \<and> n < 2 ^ 63"
  shows "handleGet st (cmd # path # args) =
    (None, sendMessage (''OK '' @ itoa (fst (rs ! (n - 1)))) False @ snd (rs ! (n - 1)) @ sendMessage ''READY'' False)"
proof -
  have valid: "isValidPath path" using assms(2) by (simp add: plainPath_def)
  obtain g vf where g: "subAt (vs_Root st) (pathDirs path) = Some g" "map_of (fd_Files g) (pathFile path) = Some vf"
      "rs = revs (vs_Disk st) vf"
    using assms(3) by (auto simp: stored_def revisions_def split: option.splits)
  have vok: "vfile_ok (vs_Disk st) (k @ pathDirs path) (pathFile path) vf"
    using assms(1) g(1,2) by (auto simp: vcs_ok_def store_ok_def node_ok_def)
  have len: "length rs = vf_LatestVersion vf" "1 \<le> vf_LatestVersion vf" using g(3) vok by (auto simp: vfile_ok_def)
  have n: "1 \<le> n" "n \<le> vf_LatestVersion vf" using assms(4) len by auto
  then have "tracked (vs_Disk st) (k @ pathDirs path) (pathFile path) vf (n - 1)" using vok by (simp add: vfile_ok_def)
  then obtain f c where f: "vf_Files vf (n - 1) = Some f" "resolve (fl_AbsolutePath f) = revisionKey (k @ pathDirs path) (pathFile path) (n - 1)"
    "map_of (vs_Disk st) (revisionKey (k @ pathDirs path) (pathFile path) (n - 1)) = Some (Regular c)" "fileContent (vs_Disk st) f = c"
    by (rule tracked_content)
  have rd: "ReadFile (vs_Disk st) f = Some c" using f(2,3) by (simp add: ReadFile_def osStat_def revisionKey_def)
  have r: "rs ! (n - 1) = (fl_Bytes f, c)" using n f(1,4) by (simp add: g(3) revs_def revisionAt_def)
  obtain dir where sd: "splitDirFile path = (dir, pathFile path)" and G: "GetFolder (vs_Root st) dir = Some g"
    using plain_split(1,2)[OF assms(2)] g(1) by (metis prod.collapse)
  show ?thesis
  proof (cases args)
    case Nil
    then have "n = vf_LatestVersion vf" using assms(4) len by auto
    then show ?thesis using Nil valid f(1) rd r
      by (simp add: handleGet_def sd G g(2))
  next
    case (Cons a as)
    then have a: "a = ''r'' @ itoa (int n)" "as = []" "n < 2 ^ 63" using assms(4) len by auto
    have "int n < 2 ^ 63" using a(3) by (simp only: of_nat_less_iff[symmetric, where ?'a = int] of_nat_power of_nat_numeral)
    have "atoi (itoa (int n)) = Some (int n)" using \<open>int n < 2 ^ 63\<close> by (intro atoi_itoa) auto
    then show ?thesis using Cons a(1,2) valid f(1) rd r n
      by (simp add: handleGet_def sd G g(2))
  qed
qed

section \<open>A sample\<close>

definition emptyStore :: VcsState where
  "emptyStore = \<lparr>vs_Root = Folder ''/data'' ''data'' [] [], vs_Disk = [([''data''], Directory)]\<rparr>"

lemma emptyStore_ok: "vcs_ok [''data''] emptyStore"
proof -
  have "resolve ''/data'' = [''data'']" by code_simp
  then show ?thesis
    unfolding vcs_ok_def by (subst store_ok_rec) (simp add: emptyStore_def node_ok_def isDirKey_def)
qed

lemma atoiValue_itoa: "- (2 ^ 63) \<le> n \<Longrightarrow> n < 2 ^ 63 \<Longrightarrow> atoiValue (itoa n) = n"
  by (simp add: atoiValue_def atoi_itoa)

definition samplePath :: string where "samplePath = ''/src/a.txt''"

lemma samplePath_plain: "plainPath samplePath"
  by code_simp

definition sampleReader :: Reader where
  "sampleReader = \<lparr>rd_Pieces = [''he'', ''llorest''], rd_Fails = False\<rparr>"

lemma sample_add:
  "map_sum id vf_LatestVersion (fst (AddFile (vs_Disk emptyStore) (vs_Root emptyStore) samplePath sampleReader 5)) = Inr 1"
  by code_simp

lemma sample_put: "fst (handlePut sampleReader emptyStore [''PUT'', samplePath, itoa 5]) = None \<and>
   fst (snd (handlePut sampleReader emptyStore [''PUT'', samplePath, itoa 5])) = sendMessage ''OK r1'' True"
proof -
  obtain res root d r1 where a: "AddFile (vs_Disk emptyStore) (vs_Root emptyStore) samplePath sampleReader 5 = (res, root, d, r1)"
    by (metis prod_cases4)
  then obtain vf where vf: "res = Inr vf" "vf_LatestVersion vf = 1" using sample_add by (cases res) auto
  have i: "itoa 1 = ''1''" by code_simp
  show ?thesis using a vf samplePath_plain i
    by (simp add: handlePut_def atoiValue_itoa plainPath_def)
qed

definition samplePut :: "vcsError option \<times> string \<times> VcsState \<times> Reader" where
  "samplePut = handlePut sampleReader emptyStore [''PUT'', samplePath, itoa 5]"

lemma sample_facts:
  "stored emptyStore [''src''] ''a.txt'' = None" "pathDirs samplePath = [''src'']" "pathFile samplePath = ''a.txt''"
  "unread sampleReader = ''hellorest''"
  by code_simp+

lemma newRevs_sample: "newRevs None 5 ''hello'' = [(5, ''hello'')]"
  by (simp add: newRevs_def)

lemma samplePut_eq:
  obtains st r where "samplePut = (None, sendMessage ''OK r1'' True, st, r)"
    "sendMessage ''OK r1'' True \<noteq> sendMessage ''ERR text files only'' True"
proof -
  obtain err out st r where "samplePut = (err, out, st, r)" by (metis prod_cases4)
  then show ?thesis using that[of st r] sample_put by (simp add: samplePut_def sendMessage_def)
qed

theorem put_refines_store_witness:
  "vcs_ok [''data''] (fst (snd (snd samplePut))) \<and> unread (snd (snd (snd samplePut))) = ''rest''"
proof (rule samplePut_eq)
  fix st r assume p: "samplePut = (None, sendMessage ''OK r1'' True, st, r)"
    and ne: "sendMessage ''OK r1'' True \<noteq> sendMessage ''ERR text files only'' True"
  from put_refines_store[OF emptyStore_ok samplePath_plain p[unfolded samplePut_def] refl refl]
  have "vcs_ok [''data''] st \<and> unread r = ''rest''" using ne by (auto simp: sample_facts(4) atoiValue_itoa)
  then show ?thesis by (simp only: p fst_conv snd_conv)
qed

lemma samplePut_stored:
  "vcs_ok [''data''] (fst (snd (snd samplePut)))"
  "stored (fst (snd (snd samplePut))) (pathDirs samplePath) (pathFile samplePath) = Some [(5, ''hello'')]"
proof -
  have "vcs_ok [''data''] (fst (snd (snd samplePut))) \<and>
    stored (fst (snd (snd samplePut))) (pathDirs samplePath) (pathFile samplePath) = Some [(5, ''hello'')]"
  proof (rule samplePut_eq)
    fix st r assume p: "samplePut = (None, sendMessage ''OK r1'' True, st, r)"
      and ne: "sendMessage ''OK r1'' True \<noteq> sendMessage ''ERR text files only'' True"
    have n: "newRevs (stored emptyStore (pathDirs samplePath) (pathFile samplePath)) (atoiValue (itoa 5))
      (take (nat (atoiValue (itoa 5))) (unread sampleReader)) = [(5, ''hello'')]"
      unfolding sample_facts by (simp add: atoiValue_itoa newRevs_sample)
    from handlePut_spec[OF emptyStore_ok samplePath_plain p[unfolded samplePut_def] refl refl]
    have "vcs_ok [''data''] st \<and> stored st (pathDirs samplePath) (pathFile samplePath) = Some [(5, ''hello'')]"
      using ne unfolding n by simp
    then show ?thesis by (simp only: p fst_conv snd_conv)
  qed
  then show "vcs_ok [''data''] (fst (snd (snd samplePut)))"
    "stored (fst (snd (snd samplePut))) (pathDirs samplePath) (pathFile samplePath) = Some [(5, ''hello'')]" by auto
qed

text \<open>
  A valid path may contain \<open>..\<close>: the folder of that name is made with \<open>filepath.Join\<close>, which removes it, so the
  file is written beside the data directory.
\<close>

theorem put_escapes_data_directory:
  "isValidPath ''/../x'' \<and>
   (case AddFile (vs_Disk emptyStore) (vs_Root emptyStore) ''/../x'' sampleReader 5 of
      (res, root, d, r) \<Rightarrow> map_of d [''x.1''] = Some (Regular ''hello''))"
  by code_simp

lemma GetFolder_sees_no_parent:
  "(case AddFile (vs_Disk emptyStore) (vs_Root emptyStore) ''/../x'' sampleReader 5 of
      (res, root, d, r) \<Rightarrow> map_option (\<lambda>f. length (fd_Files f)) (GetFolder root (fst (splitDirFile ''/../x''))) = Some 0)"
  by code_simp

end
