(* ===== verification/VCS_Restart.thy ===== *)
theory VCS_Restart
  imports VCS_Refine
begin

text \<open>
  Reading the store back from the disk (\<open>populate\<close> and its helpers in \<open>filemanager.go\<close>), as a restart of the
  server does.
\<close>

section \<open>Entries of a directory\<close>

lemma afterSep_snoc: "c \<notin> set u \<Longrightarrow> afterSep c (a @ c # u) = u"
  by (simp add: afterSep_def) (subst takeWhile_append2; auto)

lemma uptoSep_snoc: "c \<notin> set u \<Longrightarrow> uptoSep c (a @ c # u) = a @ [c]"
  by (simp add: uptoSep_def) (subst dropWhile_append2; auto)

lemma Base_child: "sep \<notin> set n \<Longrightarrow> n \<noteq> [] \<Longrightarrow> Base (a @ sep # n) = n"
proof -
  assume n: "sep \<notin> set n" "n \<noteq> []"
  then obtain m x where m: "n = m @ [x]" "x \<noteq> sep" by (cases n rule: rev_cases) auto
  then have "rev (dropWhile (\<lambda>x. x = sep) (rev (a @ sep # n))) = a @ sep # n" by simp
  then show ?thesis using n afterSep_snoc[OF n(1), of a] by (simp add: Base_def Let_def)
qed

lemma dot_digits: "dot \<notin> set (itoa (int n))"
  by (rule itoa_no) (simp add: isDigit_def byte_of_def)

text \<open>What the loop of \<open>groupVersionedFiles\<close> makes of one entry.\<close>

definition parseEntry :: "string \<Rightarrow> RawFile option" where
  "parseEntry absPath =
     (let filename = Base absPath in
      if dot \<notin> set filename then None
      else
        (case atoi (afterSep dot filename) of
           None \<Rightarrow> None
         | Some version \<Rightarrow>
             Some \<lparr>rf_AbsolutePath = absPath, rf_Name = butlast (uptoSep dot filename), rf_Version = version\<rparr>))"

definition rawOf :: "string \<Rightarrow> string \<Rightarrow> nat \<Rightarrow> RawFile" where
  "rawOf a name i = \<lparr>rf_AbsolutePath = a @ sep # revisionName name i, rf_Name = name, rf_Version = int (i + 1)\<rparr>"

lemma parseEntry_revision:
  assumes "sep \<notin> set name" "i + 1 < 2 ^ 63"
  shows "parseEntry (a @ sep # revisionName name i) = Some (rawOf a name i)"
proof -
  have s: "sep \<notin> set (revisionName name i)" "revisionName name i \<noteq> []"
    using revisionName_simple[OF assms(1), of i] by (auto simp: simpleName_def)
  have b: "Base (a @ sep # revisionName name i) = name @ dot # itoa (int (i + 1))"
    using Base_child[OF s] by (simp add: revisionName_def)
  have "int (i + 1) < 2 ^ 63" using assms(2) by (simp only: of_nat_less_iff[symmetric, where ?'a = int] of_nat_power of_nat_numeral)
  then have "atoi (itoa (int (i + 1))) = Some (int (i + 1))" by (intro atoi_itoa) simp_all
  then show ?thesis
    unfolding parseEntry_def b Let_def afterSep_snoc[OF dot_digits] uptoSep_snoc[OF dot_digits]
    by (simp add: rawOf_def)
qed

definition addRaw :: "RawFile \<Rightarrow> (string \<times> RawFile list) list \<Rightarrow> (string \<times> RawFile list) list" where
  "addRaw raw grouped =
     AList.update (rf_Name raw) ((case map_of grouped (rf_Name raw) of None \<Rightarrow> [] | Some rs \<Rightarrow> rs) @ [raw]) grouped"

lemma group_fold: "groupVersionedFiles es grouped = fold addRaw (List.map_filter parseEntry es) grouped"
proof (induction es arbitrary: grouped)
  case (Cons p es)
  have "groupVersionedFiles (p # es) grouped =
    groupVersionedFiles es (case parseEntry p of None \<Rightarrow> grouped | Some raw \<Rightarrow> addRaw raw grouped)"
    by (auto simp: parseEntry_def addRaw_def Let_def split: option.split)
  then show ?case using Cons.IH by (auto simp: List.map_filter_simps split: option.split)
qed (simp add: List.map_filter_simps)

lemma fold_addRaw:
  "map_of (fold addRaw rs grouped) name =
   (let new = filter (\<lambda>r. rf_Name r = name) rs in
    if new = [] then map_of grouped name else Some ((case map_of grouped name of None \<Rightarrow> [] | Some old \<Rightarrow> old) @ new))"
  by (induction rs arbitrary: grouped) (auto simp: addRaw_def update_conv' Let_def)

lemma keys_addRaw: "distinct (map fst grouped) \<Longrightarrow> distinct (map fst (fold addRaw rs grouped))"
  by (induction rs arbitrary: grouped) (auto simp: addRaw_def distinct_update)

section \<open>A complete group is recovered\<close>

lemma hasGap_none: "\<not> hasGap i es \<longleftrightarrow> (\<forall>j<length es. rf_Version (es ! j) = int (i + j + 1))"
proof (induction i es rule: hasGap.induct)
  case (2 i e es)
  have "(\<forall>j<Suc (length es). rf_Version ((e # es) ! j) = int (i + j + 1)) \<longleftrightarrow>
    rf_Version e = int (i + 1) \<and> (\<forall>j<length es. rf_Version (es ! j) = int (i + 1 + j + 1))"
    by (auto simp: less_Suc_eq_0_disj)
  then show ?case using 2 by auto
qed simp

lemma sort_group:
  assumes "distinct rs" "set rs = rawOf a name ` {0..<n}"
  shows "sort_key rf_Version rs = map (rawOf a name) [0..<n]"
proof -
  let ?s = "sort_key rf_Version rs"
  have s: "set ?s = rawOf a name ` {0..<n}" "distinct ?s" using assms by simp_all
  have inj: "inj_on rf_Version (set ?s)" unfolding s(1) by (auto simp: inj_on_def rawOf_def)
  have "sorted (map rf_Version ?s)" "distinct (map rf_Version ?s)" using s(2) inj by (simp_all add: distinct_map)
  moreover have "sorted (map rf_Version (map (rawOf a name) [0..<n]))" "distinct (map rf_Version (map (rawOf a name) [0..<n]))"
    by (auto simp: rawOf_def sorted_map comp_def distinct_map inj_on_def intro: sorted_wrt_mono_rel[OF _ sorted_wrt_upt])
  moreover have "set (map rf_Version ?s) = set (map rf_Version (map (rawOf a name) [0..<n]))" using s(1) by (simp add: image_image)
  ultimately have "map rf_Version ?s = map rf_Version (map (rawOf a name) [0..<n])" by (rule sorted_distinct_set_unique)
  moreover have "inj_on rf_Version (set ?s \<union> set (map (rawOf a name) [0..<n]))" using inj s(1) by simp
  ultimately show ?thesis by (metis map_inj_on)
qed

lemma map_of_parseValid:
  assumes "distinct (map fst grouped)"
  shows "map_of (parseValidGroups grouped) name =
    (case map_of grouped name of
       None \<Rightarrow> None
     | Some es \<Rightarrow> if hasGap 0 (sort_key rf_Version es) then None else Some (sort_key rf_Version es))"
  using assms
proof (induction grouped)
  case (Cons p grouped)
  obtain n es where p: "p = (n, es)" by force
  have "map_of (parseValidGroups grouped) n = None" using Cons p
    by (force simp: parseValidGroups_def map_of_eq_None_iff)
  then show ?case using Cons p by (auto simp: parseValidGroups_def)
qed (simp add: parseValidGroups_def)

text \<open>
  A directory whose files are the revisions \<open>1\<close> to \<open>n name\<close> of some names is grouped back into these
  names with exactly these revisions, in order.
\<close>

lemma groups_recovered:
  assumes "distinct es" "set es = {a @ sep # revisionName name i |name i. i < n name}"
    and "\<And>name. 0 < n name \<Longrightarrow> sep \<notin> set name \<and> n name < 2 ^ 63"
  shows "map_of (parseValidGroups (groupVersionedFiles es [])) name =
    (if n name = 0 then None else Some (map (rawOf a name) [0..<n name]))"
proof -
  let ?raws = "List.map_filter parseEntry es"
  have entry: "parseEntry (a @ sep # revisionName nm i) = Some (rawOf a nm i)" if "i < n nm" for nm i
    using parseEntry_revision[of nm i a] assms(3)[of nm] that by simp
  have raws: "set ?raws = {rawOf a nm i |nm i. i < n nm}"
  proof -
    have "set ?raws = {r. \<exists>e\<in>set es. parseEntry e = Some r}" by (force simp: List.map_filter_def)
    then show ?thesis unfolding assms(2) using entry by auto (metis, blast)
  qed
  have "distinct ?raws"
  proof -
    have "inj_on (the \<circ> parseEntry) (set es)"
      unfolding assms(2) by (auto simp: inj_on_def entry rawOf_def)
    moreover have "?raws = map (the \<circ> parseEntry) (filter (\<lambda>e. parseEntry e \<noteq> None) es)" by (simp add: List.map_filter_def)
    ultimately show ?thesis using assms(1) by (auto simp: distinct_map intro: inj_on_subset)
  qed
  then have d: "distinct (filter (\<lambda>r. rf_Name r = name) ?raws)" by simp
  have s: "set (filter (\<lambda>r. rf_Name r = name) ?raws) = rawOf a name ` {0..<n name}"
    unfolding set_filter raws by (auto simp: rawOf_def)
  note srt = sort_group[OF d s]
  have "\<not> hasGap 0 (map (rawOf a name) [0..<n name])" by (simp add: hasGap_none) (simp add: rawOf_def)
  moreover have "filter (\<lambda>r. rf_Name r = name) ?raws = [] \<longleftrightarrow> n name = 0" using s by (metis atLeast0LessThan image_is_empty lessThan_empty_iff set_empty)
  ultimately show ?thesis
    using keys_addRaw[of "[]" ?raws] srt by (simp add: group_fold map_of_parseValid fold_addRaw Let_def)
qed


section \<open>Restart\<close>

lemma fold_update_keys:
  "distinct (map key vs) \<Longrightarrow>
   map_of (fold (\<lambda>v. AList.update (key v) v) vs al) x =
   (case map_of (map (\<lambda>v. (key v, v)) vs) x of None \<Rightarrow> map_of al x | Some v \<Rightarrow> Some v)"
proof (induction vs arbitrary: al)
  case (Cons v vs)
  have ih: "map_of (fold (\<lambda>v. AList.update (key v) v) vs (AList.update (key v) v al)) x =
    (case map_of (map (\<lambda>v. (key v, v)) vs) x of None \<Rightarrow> map_of (AList.update (key v) v al) x | Some v \<Rightarrow> Some v)"
    using Cons by simp
  show ?case
  proof (cases "x = key v")
    case True
    then have "map_of (map (\<lambda>v. (key v, v)) vs) x = None" using Cons.prems by (auto simp: map_of_eq_None_iff)
    then show ?thesis using ih True by (simp add: update_conv')
  next
    case False
    then show ?thesis using ih by (simp add: update_conv' split: option.split)
  qed
qed simp

lemma map_of_map_snd: "map_of (map (\<lambda>(n, es). (n, f n es)) groups) x = map_option (f x) (map_of groups x)"
  by (induction groups) auto

definition versionedOf :: "Disk \<Rightarrow> string \<Rightarrow> RawFile list \<Rightarrow> VersionedFile" where
  "versionedOf d name entries =
     \<lparr>vf_LatestVersion = nat (rf_Version (last entries)), vf_AbsolutePath = rf_AbsolutePath (hd entries), vf_FileName = name,
      vf_Files = (\<lambda>i. if i < length entries then rawToFile d (entries ! i) else None)\<rparr>"

lemma groupsToVersionedFiles_eq: "groupsToVersionedFiles d groups = map (\<lambda>(name, entries). versionedOf d name entries) groups"
  by (simp add: groupsToVersionedFiles_def versionedOf_def)

lemma keys_parseValid: "distinct (map fst grouped) \<Longrightarrow> distinct (map fst (parseValidGroups grouped))"
  unfolding parseValidGroups_def by (induction grouped) (auto, force)

text \<open>The files of a folder read back from the disk.\<close>

lemma populated_files:
  "map_of (fd_Files (populateFolder d (Folder dir b [] []))) name =
   map_option (versionedOf d name) (map_of (parseValidGroups (groupVersionedFiles (map (\<lambda>n. dir @ sep # n) (plainFiles d dir)) [])) name)"
proof -
  let ?groups = "parseValidGroups (groupVersionedFiles (map (\<lambda>n. dir @ sep # n) (plainFiles d dir)) [])"
  let ?vs = "map (\<lambda>(name, entries). versionedOf d name entries) ?groups"
  have "distinct (map fst ?groups)" using keys_parseValid keys_addRaw[of "[]"] by (simp add: group_fold)
  moreover have "map vf_FileName (map (\<lambda>(name, entries). versionedOf d name entries) gs) = map fst gs" for gs
    by (induction gs) (auto simp: versionedOf_def)
  ultimately have "distinct (map vf_FileName ?vs)" by (simp only:)
  note f = fold_update_keys[OF this, of "[]" name]
  have keys: "map (\<lambda>v. (vf_FileName v, v)) (map (\<lambda>(n, es). versionedOf d n es) gs) = map (\<lambda>(n, es). (n, versionedOf d n es)) gs" for gs
    by (induction gs) (auto simp: versionedOf_def)
  have "fd_Files (populateFolder d (Folder dir b [] [])) = fold (\<lambda>v. AList.update (vf_FileName v) v) ?vs []"
    by (subst populateFolder.simps) (simp add: Let_def groupsToVersionedFiles_eq)
  then show ?thesis using f unfolding keys map_of_map_snd by (simp split: option.split)
qed

definition latestOf :: "Folder \<Rightarrow> string \<Rightarrow> nat" where
  "latestOf g name = (case map_of (fd_Files g) name of None \<Rightarrow> 0 | Some vf \<Rightarrow> vf_LatestVersion vf)"

text \<open>C33: A restart recovers the store: when the files in a folder's directory are exactly the revisions the folder
  knows, reading the directory back (grouping the names, parsing their version numbers, sorting, checking for
  gaps) gives, for every file, exactly the same revisions with the same contents, their lengths now taken from
  the disk.\<close>

theorem restart_recovers_revisions:
  assumes "node_ok d k g" "resolve dir = k"
    and "set (plainFiles d dir) = {revisionName name i |name i. i < latestOf g name}"
    and "\<forall>name. latestOf g name < 2 ^ 63"
  shows "map_option (revs d) (map_of (fd_Files (populateFolder d (Folder dir b [] []))) name) =
    map_option (\<lambda>vf. map (\<lambda>(len, content). (int (length content), content)) (revs d vf)) (map_of (fd_Files g) name)"
proof -
  let ?es = "map (\<lambda>n. dir @ sep # n) (plainFiles d dir)"
  have d: "distinct ?es" by (simp add: plainFiles_def dirNames_def distinct_map inj_on_def)
  have s: "set ?es = {dir @ sep # revisionName name i |name i. i < latestOf g name}" using assms(3) by auto
  have vok: "vfile_ok d k nm vf" if "map_of (fd_Files g) nm = Some vf" for nm vf using assms(1) that by (simp add: node_ok_def)
  have n: "sep \<notin> set nm \<and> latestOf g nm < 2 ^ 63" if "0 < latestOf g nm" for nm
    using that vok[of nm] assms(4) by (auto simp: latestOf_def vfile_ok_def split: option.splits)
  note gr = groups_recovered[OF d s n, of name]
  show ?thesis
  proof (cases "map_of (fd_Files g) name")
    case None
    then show ?thesis using gr by (simp add: populated_files latestOf_def)
  next
    case (Some vf)
    let ?n = "vf_LatestVersion vf"
    have ok: "1 \<le> ?n" "\<forall>i<?n. tracked d k name vf i" using vok[OF Some] by (auto simp: vfile_ok_def)
    have l: "latestOf g name = ?n" using Some by (simp add: latestOf_def)
    let ?vf = "versionedOf d name (map (rawOf dir name) [0..<?n])"
    have sn: "sep \<notin> set name" using vok[OF Some] by (simp add: vfile_ok_def)
    have at: "revisionAt d ?vf i = (int (length (snd (revisionAt d vf i))), snd (revisionAt d vf i))" if "i < ?n" for i
    proof -
      have t: "tracked d k name vf i" using ok(2) that by simp
      obtain f c where f: "vf_Files vf i = Some f" "map_of d (revisionKey k name i) = Some (Regular c)" "fileContent d f = c"
        by (rule tracked_content[OF t]) blast
      have "resolve (dir @ sep # revisionName name i) = revisionKey k name i"
        using resolve_child[OF revisionName_simple[OF sn]] assms(2) by (simp add: revisionKey_def)
      then have "osStat d (rf_AbsolutePath (rawOf dir name i)) = Some (Regular c)" using f(2) by (simp add: osStat_def rawOf_def revisionKey_def)
      then obtain fl where "rawToFile d (rawOf dir name i) = Some fl" "fl_Bytes fl = int (length c)" "fileContent d fl = c"
        by (simp add: rawToFile_def fileContent_def ReadFile_def)
      then show ?thesis using that f by (simp add: revisionAt_def versionedOf_def)
    qed
    have "vf_LatestVersion ?vf = ?n" using ok(1) by (simp add: versionedOf_def last_map rawOf_def)
    then have "revs d ?vf = map (\<lambda>(len, content). (int (length content), content)) (revs d vf)"
      using at by (simp add: revs_def case_prod_beta)
    then show ?thesis using gr ok(1) Some by (simp add: populated_files l)
  qed
qed

section \<open>A sample, and what a restart loses\<close>

definition sampleDisk :: Disk where
  "sampleDisk = [([''data''], Directory), ([''data'', ''a.txt.1''], Regular ''x''), ([''data'', ''a.txt.2''], Regular ''yz'')]"

definition sampleVersions :: VersionedFile where
  "sampleVersions = versionedOf sampleDisk ''a.txt'' [rawOf ''/data'' ''a.txt'' 0, rawOf ''/data'' ''a.txt'' 1]"

definition sampleFolder :: Folder where
  "sampleFolder = Folder ''/data'' ''data'' [(''a.txt'', sampleVersions\<lparr>vf_AbsolutePath := ''/data/a.txt''\<rparr>)] []"

lemma sample_versions:
  "vf_LatestVersion sampleVersions = 2" "revs sampleDisk sampleVersions = [(1, ''x''), (2, ''yz'')]"
  by code_simp+

lemma sample_tracked: "i < 2 \<Longrightarrow> tracked sampleDisk [''data''] ''a.txt'' sampleVersions i"
proof -
  have "map_option (\<lambda>f. resolve (fl_AbsolutePath f)) (vf_Files sampleVersions 0) = Some [''data'', ''a.txt.1'']"
    "map_option (\<lambda>f. resolve (fl_AbsolutePath f)) (vf_Files sampleVersions 1) = Some [''data'', ''a.txt.2'']"
    "revisionKey [''data''] ''a.txt'' 0 = [''data'', ''a.txt.1'']" "revisionKey [''data''] ''a.txt'' 1 = [''data'', ''a.txt.2'']"
    by code_simp+
  moreover assume "i < 2"
  then have "i = 0 \<or> i = 1" by auto
  ultimately show ?thesis by (auto simp: tracked_def sampleDisk_def)
qed

lemma sampleFolder_ok: "node_ok sampleDisk [''data''] sampleFolder"
proof -
  have r: "resolve ''/data'' = [''data'']" by code_simp
  let ?vf = "sampleVersions\<lparr>vf_AbsolutePath := ''/data/a.txt''\<rparr>"
  have "tracked sampleDisk [''data''] ''a.txt'' ?vf i" if "i < vf_LatestVersion ?vf" for i
    using sample_tracked[of i] that by (simp add: sample_versions tracked_def)
  moreover have "vf_AbsolutePath ?vf = ''/data'' @ sep # ''a.txt''" by simp
  moreover have "sep \<notin> set ''a.txt''" "1 \<le> vf_LatestVersion ?vf" by (simp_all add: sample_versions)
  ultimately have v: "vfile_ok sampleDisk [''data''] ''a.txt'' ?vf" unfolding vfile_ok_def using r by blast
  have "isDirKey sampleDisk [''data'']" by code_simp
  moreover have "fd_Files sampleFolder = [(''a.txt'', ?vf)]" "fd_SubFolders sampleFolder = []" "fd_AbsolutePath sampleFolder = ''/data''"
    by (simp_all add: sampleFolder_def)
  ultimately show ?thesis unfolding node_ok_def using v r by simp
qed

lemma sample_plain: "set (plainFiles sampleDisk ''/data'') = {revisionName name i |name i. i < latestOf sampleFolder name}"
proof -
  have p: "plainFiles sampleDisk ''/data'' = [''a.txt.1'', ''a.txt.2'']" by code_simp
  have r: "revisionName ''a.txt'' 0 = ''a.txt.1''" "revisionName ''a.txt'' 1 = ''a.txt.2''" by code_simp+
  have "i < latestOf sampleFolder name \<longleftrightarrow> name = ''a.txt'' \<and> (i = 0 \<or> i = 1)" for name i
    by (auto simp: latestOf_def sampleFolder_def sample_versions)
  then have "{revisionName name i |name i. i < latestOf sampleFolder name} = {revisionName ''a.txt'' 0, revisionName ''a.txt'' 1}" by (simp only:) auto
  then show ?thesis unfolding p r by simp
qed

theorem restart_recovers_revisions_witness:
  "map_option (revs sampleDisk) (map_of (fd_Files (populateFolder sampleDisk (Folder ''/data'' ''data'' [] []))) ''a.txt'') =
   Some [(1, ''x''), (2, ''yz'')]"
proof -
  have r: "resolve ''/data'' = [''data'']" by code_simp
  have "latestOf sampleFolder name \<le> 2" for name by (simp add: latestOf_def sampleFolder_def sample_versions)
  moreover have "(2::nat) < 2 ^ 63" by simp
  ultimately have l: "\<forall>name. latestOf sampleFolder name < 2 ^ 63" using order_le_less_trans by blast
  have f: "map_of (fd_Files sampleFolder) ''a.txt'' = Some (sampleVersions\<lparr>vf_AbsolutePath := ''/data/a.txt''\<rparr>)"
    by (simp add: sampleFolder_def)
  have v: "revs sampleDisk (sampleVersions\<lparr>vf_AbsolutePath := ''/data/a.txt''\<rparr>) = [(1, ''x''), (2, ''yz'')]"
    by (subst sample_versions(2)[symmetric]) (simp add: revs_def revisionAt_def)
  show ?thesis
    using restart_recovers_revisions[OF sampleFolder_ok r sample_plain l, where b = "''data''" and name = "''a.txt''"]
    by (simp only: f option.map v) simp
qed

text \<open>
  The versioned file a restart makes has the path of its first revision as its own, so a new revision
  goes to \<open>a.txt.1.3\<close>; it can be read until the next restart, which does not find it among the revisions.
\<close>

definition restarted :: Folder where
  "restarted = Folder ''/data'' ''data'' [(''a.txt'', sampleVersions)] []"

lemma restarted_is_populated: "restarted = populateFolder sampleDisk (Folder ''/data'' ''data'' [] [])"
proof -
  have g: "parseValidGroups (groupVersionedFiles (map (\<lambda>n. ''/data'' @ ''/'' @ n) (plainFiles sampleDisk ''/data'')) []) =
    [(''a.txt'', [rawOf ''/data'' ''a.txt'' 0, rawOf ''/data'' ''a.txt'' 1])]" by code_simp
  have s: "subDirs sampleDisk ''/data'' = []" by code_simp
  have n: "vf_FileName (versionedOf d nm es) = nm" for d nm es by (simp add: versionedOf_def)
  show ?thesis
    by (subst populateFolder.simps)
      (simp add: restarted_def g[simplified] s groupsToVersionedFiles_eq n Let_def sampleVersions_def)
qed

definition newUpload :: Reader where
  "newUpload = \<lparr>rd_Pieces = [''new''], rd_Fails = False\<rparr>"

definition afterUpload :: Disk where
  "afterUpload = fst (snd (snd (AddFile sampleDisk restarted ''/a.txt'' newUpload 3)))"

theorem restart_loses_new_revisions:
  "map_sum id vf_LatestVersion (fst (AddFile sampleDisk (populateFolder sampleDisk (Folder ''/data'' ''data'' [] [])) ''/a.txt'' newUpload 3)) = Inr 3 \<and>
   map_option vf_LatestVersion (map_of (fd_Files (populateFolder afterUpload (Folder ''/data'' ''data'' [] []))) ''a.txt'') = Some 2"
proof
  show "map_sum id vf_LatestVersion (fst (AddFile sampleDisk (populateFolder sampleDisk (Folder ''/data'' ''data'' [] [])) ''/a.txt'' newUpload 3)) = Inr 3"
    unfolding restarted_is_populated[symmetric] by code_simp
  have "map_option (\<lambda>es. vf_LatestVersion (versionedOf afterUpload ''a.txt'' es))
      (map_of (parseValidGroups (groupVersionedFiles (map (\<lambda>n. ''/data'' @ sep # n) (plainFiles afterUpload ''/data'')) [])) ''a.txt'') = Some 2"
    by code_simp
  then show "map_option vf_LatestVersion (map_of (fd_Files (populateFolder afterUpload (Folder ''/data'' ''data'' [] []))) ''a.txt'') = Some 2"
    by (simp add: populated_files option.map_comp comp_def)
qed

end
