(* ===== verification/VCS_Session.thy ===== *)
theory VCS_Session
  imports VCS_Server VCS_Restart Go_Events
begin

text \<open>
  The code storage server over the commands of all its connections: its invariant in every state it reaches, what
  \<open>LIST\<close> shows, and that an acknowledged revision can be read from then on.
\<close>

section \<open>Tidy folders\<close>

text \<open>
  What a listing relies on: no name is entered twice in a folder, sub-folders bear the names they are filed under,
  and files too, except for a file with the empty name.
\<close>

definition tidyNode :: "Folder \<Rightarrow> bool" where
  "tidyNode f \<longleftrightarrow>
     fd_AbsolutePath f \<noteq> [] \<and> distinct (map fst (fd_Files f)) \<and> distinct (map fst (fd_SubFolders f)) \<and>
     (\<forall>(name, vf)\<in>set (fd_Files f). name \<noteq> '''' \<longrightarrow> vf_FileName vf = name) \<and>
     (\<forall>(n, s)\<in>set (fd_SubFolders f). fd_Name s = n)"

definition tidy :: "Folder \<Rightarrow> bool" where
  "tidy f \<longleftrightarrow> (\<forall>p g. subAt f p = Some g \<longrightarrow> tidyNode g)"

lemma tidy_root: "tidy f \<Longrightarrow> tidyNode f"
  unfolding tidy_def by (metis subAt.simps(1))

lemma tidy_sub: "tidy f \<Longrightarrow> map_of (fd_SubFolders f) n = Some s \<Longrightarrow> tidy s"
  unfolding tidy_def by (metis subAt.simps(2) option.simps(5))

lemma tidyI:
  assumes "tidyNode f" "\<And>n s. map_of (fd_SubFolders f) n = Some s \<Longrightarrow> tidy s"
  shows "tidy f"
  unfolding tidy_def
proof (intro allI impI)
  fix p g assume "subAt f p = Some g"
  then show "tidyNode g" using assms by (cases p) (auto simp: tidy_def split: option.splits)
qed

lemma set_update: "distinct (map fst al) \<Longrightarrow> set (AList.update k v al) = {(x, y) \<in> set al. x \<noteq> k} \<union> {(k, v)}"
  by (induction al) (auto simp: image_iff)

lemma tidy_setFile:
  assumes "tidy f" "name \<noteq> '''' \<longrightarrow> vf_FileName vf = name"
  shows "tidy (setFile f name vf)"
proof (rule tidyI)
  show "tidyNode (setFile f name vf)"
    using tidy_root[OF assms(1)] assms(2) by (auto simp: tidyNode_def setFile_def set_update distinct_update)
  show "tidy s" if "map_of (fd_SubFolders (setFile f name vf)) n = Some s" for n s
    using that tidy_sub[OF assms(1)] by (simp add: setFile_def)
qed

lemma tidy_setSubFolder:
  assumes "tidy f" "tidy sub" "fd_Name sub = n"
  shows "tidy (setSubFolder f n sub)"
proof (rule tidyI)
  show "tidyNode (setSubFolder f n sub)"
    using tidy_root[OF assms(1)] assms(3) by (auto simp: tidyNode_def setSubFolder_def set_update distinct_update)
  show "tidy s" if "map_of (fd_SubFolders (setSubFolder f n sub)) m = Some s" for m s
    using that tidy_sub[OF assms(1)] assms(2) by (auto simp: setSubFolder_def update_conv' split: if_splits)
qed

lemma tidy_fresh: "a \<noteq> [] \<Longrightarrow> tidy (Folder a b [] [])"
  by (rule tidyI) (simp_all add: tidyNode_def)

lemma cleanWalk_append: "cleanWalk rooted st (ns @ ms) = cleanWalk rooted (cleanWalk rooted st ns) ms"
  by (induction rooted st ns rule: cleanWalk.induct) simp_all

lemma joinWith_snoc: "joinWith s (xs @ [x]) = (if xs = [] then x else joinWith s xs @ s # x)"
proof (induction xs)
  case (Cons y xs)
  then show ?case by (cases xs) auto
qed simp

lemma Base_name: "sep \<notin> set n \<Longrightarrow> n \<noteq> [] \<Longrightarrow> Base n = n"
proof -
  assume n: "sep \<notin> set n" "n \<noteq> []"
  then obtain m x where m: "n = m @ [x]" "x \<noteq> sep" by (cases n rule: rev_cases) auto
  then have "rev (dropWhile (\<lambda>x. x = sep) (rev n)) = n" by simp
  moreover have "afterSep sep n = n" 
  proof -
    have "takeWhile (\<lambda>x. x \<noteq> sep) (rev n) = rev n" unfolding takeWhile_eq_all_conv using n(1) by auto
    then show ?thesis unfolding afterSep_def by (simp only: rev_rev_ident)
  qed
  ultimately show ?thesis using n(2) by (simp add: Base_def Let_def)
qed

lemma Base_Join: "a \<noteq> [] \<Longrightarrow> simpleName n \<Longrightarrow> Base (Join a n) = n"
proof -
  assume a: "a \<noteq> []" "simpleName n"
  let ?p = "a @ sep # n"
  let ?xs = "rev (cleanWalk (IsAbs ?p) [] (splitOn sep a))"
  have n: "sep \<notin> set n" "n \<noteq> []" using a(2) by (auto simp: simpleName_def)
  have w: "rev (cleanWalk (IsAbs ?p) [] (splitOn sep ?p)) = ?xs @ [n]"
    using a(2) by (simp add: splitOn_append_sep splitOn_no_sep cleanWalk_append simpleName_def)
  show ?thesis
  proof (cases "?xs = []")
    case True
    then show ?thesis using a(1) w n Base_name[OF n] Base_child[OF n, of "[]"] by (auto simp: Join_def Clean_def Let_def)
  next
    case False
    then show ?thesis
      using a(1) w n Base_child[OF n, of "sep # joinWith sep ?xs"] Base_child[OF n, of "joinWith sep ?xs"]
      by (auto simp: Join_def Clean_def Let_def joinWith_snoc)
  qed
qed

lemma addFileIn_tidy:
  assumes "tidy f" "\<forall>n\<in>set folders. n = '''' \<or> simpleName n" "sep \<notin> set name"
    "addFileIn d f folders name r bytes = (res, f', d', r')"
  shows "tidy f' \<and> fd_Name f' = fd_Name f"
  using assms
proof (induction folders arbitrary: d f f')
  case Nil
  show ?case
  proof (cases "map_of (fd_Files f) name")
    case (Some vf)
    obtain res1 vf' d1 r1 where av: "AddVersion d vf r bytes = (res1, vf', d1, r1)" by (metis prod_cases4)
    then have "vf_FileName vf' = vf_FileName vf"
      by (auto simp: AddVersion_def split: option.splits prod.splits sum.splits bool.splits)
    moreover have "name \<noteq> '''' \<longrightarrow> vf_FileName vf = name"
      using tidy_root[OF Nil(1)] map_of_SomeD[OF Some] by (auto simp: tidyNode_def)
    moreover have "f' = setFile f name vf'" using Nil(4) Some av by (auto split: sum.splits)
    ultimately show ?thesis using tidy_setFile[OF Nil(1)] by (simp add: setFile_def)
  next
    case None
    obtain res1 d1 r1 where nv: "NewVersionedFile d (fd_AbsolutePath f @ sep # name) r bytes = (res1, d1, r1)" by (metis prod_cases3)
    have f': "f' = (case res1 of Inl e \<Rightarrow> f | Inr vf \<Rightarrow> setFile f name vf)"
      using Nil(4) None nv by (auto simp: AddNewFile_def setFile_def split: sum.splits)
    have "name \<noteq> '''' \<longrightarrow> vf_FileName vf = name" if "res1 = Inr vf" for vf
      using nv that Base_child[OF Nil(3)] by (auto simp: NewVersionedFile_def split: prod.splits sum.splits)
    then show ?thesis using f' tidy_setFile[OF Nil(1)] Nil(1) by (cases res1) (simp_all add: setFile_def)
  qed
next
  case (Cons n folders)
  have names: "\<forall>n\<in>set folders. n = '''' \<or> simpleName n" using Cons.prems(2) by simp
  show ?case
  proof (cases "map_of (fd_SubFolders f) n")
    case (Some sub)
    then obtain sub' where a: "addFileIn d sub folders name r bytes = (res, sub', d', r')" "f' = setSubFolder f n sub'"
      using Cons.prems(4) by (auto split: prod.splits)
    have "fd_Name sub = n" using tidy_root[OF Cons.prems(1)] map_of_SomeD[OF Some] by (auto simp: tidyNode_def)
    then show ?thesis
      using Cons.IH[OF tidy_sub[OF Cons.prems(1) Some] names Cons.prems(3) a(1)] tidy_setSubFolder[OF Cons.prems(1)]
      by (simp add: a(2) setSubFolder_def)
  next
    case None
    show ?thesis
    proof (cases "n = ''''")
      case True
      then show ?thesis using Cons.IH[OF Cons.prems(1) names Cons.prems(3)] Cons.prems(4) None by simp
    next
      case False
      then have n: "simpleName n" using Cons.prems(2) by simp
      have abs: "fd_AbsolutePath f \<noteq> []" using tidy_root[OF Cons.prems(1)] by (simp add: tidyNode_def)
      obtain nf d1 where nf: "NewFolder d (Join (fd_AbsolutePath f) n) = (nf, d1)" by force
      show ?thesis
      proof (cases nf)
        case (Inl e)
        then show ?thesis using Cons.prems None False nf by simp
      next
        case (Inr sub)
        then have sub: "sub = Folder (Join (fd_AbsolutePath f) n) (Base (Join (fd_AbsolutePath f) n)) [] []"
          using nf by (auto simp: NewFolder_def split: option.splits)
        have "Join (fd_AbsolutePath f) n \<noteq> []" using abs by (simp add: Join_def Clean_ne)
        then have t: "tidy sub" "fd_Name sub = n" using tidy_fresh Base_Join[OF abs n] by (simp_all add: sub)
        obtain sub' where a: "addFileIn d1 sub folders name r bytes = (res, sub', d', r')" "f' = setSubFolder f n sub'"
          using Cons.prems(4) None False nf Inr by (auto split: prod.splits)
        show ?thesis
          using Cons.IH[OF t(1) names Cons.prems(3) a(1)] tidy_setSubFolder[OF Cons.prems(1)] t(2)
          by (simp add: a(2) setSubFolder_def)
      qed
    qed
  qed
qed

section \<open>Commands keep the invariant\<close>

definition vcs_inv :: "string list \<Rightarrow> VcsState \<Rightarrow> bool" where
  "vcs_inv k st \<longleftrightarrow> vcs_ok k st \<and> tidy (vs_Root st)"

lemma handlePut_tidy:
  assumes "tidy (vs_Root st)" "plainPath path" "handlePut r st [cmd, path, len] = (err, out, st', r')"
  shows "tidy (vs_Root st')"
proof -
  obtain res root d r1 where a: "AddFile (vs_Disk st) (vs_Root st) path r (atoiValue len) = (res, root, d, r1)" by (metis prod_cases4)
  then have "vs_Root st' = root"
    using assms(2,3) by (auto simp: handlePut_def plainPath_def Let_def split: sum.splits if_splits)
  moreover have "addFileIn (vs_Disk st) (vs_Root st) (butlast (splitOn sep path)) (pathFile path) r (atoiValue len) = (res, root, d, r1)"
    using a by (simp add: AddFile_def pathFile_def Let_def)
  ultimately show ?thesis using addFileIn_tidy[OF assms(1) plain_split(3)[OF assms(2)] plain_split(4)[OF assms(2)]] by simp
qed

text \<open>Clearing the store: the folders at the top and the files of the root are removed from the disk.\<close>

lemma removeAll_dir:
  assumes "resolve a = k @ [n]" "isDirKey d k"
  shows "isDirKey (osRemoveAll d a) k"
proof (cases "k = []")
  case False
  have "map_of (filter (\<lambda>(q, node). P q) d) k = (if P k then map_of d k else None)" for P
    by (induction d) auto
  then show ?thesis using assms False by (simp add: isDirKey_def osRemoveAll_def)
qed (simp add: isDirKey_def)

lemma deleteLoop_dir: "isDirKey d k \<Longrightarrow> isDirKey (snd (deleteLoop vf is d)) k"
proof (induction vf "is" d rule: deleteLoop.induct)
  case (2 vf i js d)
  have "isDirKey d1 k" if "DeleteFile d f = Some d1" for f d1
    using that 2(2) by (auto simp: DeleteFile_def osRemove_def isDirKey_def delete_conv' split: option.splits Node.splits if_splits)
  then show ?case using 2 by (auto split: option.split)
qed simp

lemma ClearStore_ok:
  assumes "vcs_inv k st" "ClearStore (vs_Root st) (vs_Disk st) = (root, d)"
  shows "vcs_inv k \<lparr>vs_Root = root, vs_Disk = d\<rparr> \<and> (\<forall>p nm. stored \<lparr>vs_Root = root, vs_Disk = d\<rparr> p nm = None)"
proof -
  let ?root = "vs_Root st"
  have ok: "store_ok (vs_Disk st) k ?root" and t: "tidyNode ?root"
    using assms(1) tidy_root by (auto simp: vcs_inv_def vcs_ok_def)
  have n: "node_ok (vs_Disk st) k ?root" using ok by (subst (asm) store_ok_rec) simp
  have sub: "\<exists>n. resolve (fd_AbsolutePath s) = k @ [n]" if s: "s \<in> set (GetSubFolders ?root)" for s
  proof -
    obtain n where "(n, s) \<in> set (fd_SubFolders ?root)" using s by (auto simp: GetSubFolders_def)
    then have "map_of (fd_SubFolders ?root) n = Some s" using t by (simp add: tidyNode_def)
    then have "store_ok (vs_Disk st) (k @ [n]) s" using ok store_ok_rec by blast
    then have "node_ok (vs_Disk st) (k @ [n]) s" by (subst (asm) store_ok_rec) simp
    then show ?thesis by (auto simp: node_ok_def)
  qed
  have "isDirKey (fold DeleteFolder fs d0) k"
    if "isDirKey d0 k" "\<forall>s\<in>set fs. \<exists>n. resolve (fd_AbsolutePath s) = k @ [n]" for fs d0
    using that by (induction fs arbitrary: d0) (auto simp: DeleteFolder_def removeAll_dir)
  then have "isDirKey (fold DeleteFolder (GetSubFolders ?root) (vs_Disk st)) k" using n sub by (simp add: node_ok_def)
  moreover have "isDirKey (fold (\<lambda>vf d. snd (DeleteVersions vf d)) vfs d0) k" if "isDirKey d0 k" for vfs d0
    using that by (induction vfs arbitrary: d0) (auto simp: DeleteVersions_def deleteLoop_dir)
  ultimately have "isDirKey d k" "root = Folder (fd_AbsolutePath ?root) (fd_Name ?root) [] []"
    using assms(2) by (auto simp: ClearStore_def Let_def)
  moreover from this have "store_ok d k root" using n by (subst store_ok_rec) (simp add: node_ok_def)
  moreover have "revisions d root p nm = None" for p nm using calculation(2) by (simp add: revisions_fresh)
  ultimately show ?thesis using t tidy_fresh by (simp add: vcs_inv_def vcs_ok_def stored_def tidyNode_def)
qed

text \<open>What a command may do: a \<open>PUT\<close> names a path without dots for folders; and whether it clears.\<close>

definition plainCommand :: "Reader \<times> string \<Rightarrow> bool" where
  "plainCommand e \<longleftrightarrow>
     (let commandList = splitOn (CHR '' '') (snd e) in
      toUpper (commandList ! 0) = ''PUT'' \<and> length commandList = 3 \<and> isValidPath (commandList ! 1) \<longrightarrow> plainPath (commandList ! 1))"

definition clears :: "Reader \<times> string \<Rightarrow> bool" where
  "clears e \<longleftrightarrow> toUpper (splitOn (CHR '' '') (snd e) ! 0) = ''CLEAR''"

text \<open>The commands of all connections, one after another, each with what its connection has left to read.\<close>

definition serveStep :: "Reader \<times> string \<Rightarrow> VcsState \<Rightarrow> VcsState" where
  "serveStep e st = fst (snd (runCommand (fst e) st (snd e)))"

text \<open>No revision is lost or changed.\<close>

definition grows :: "VcsState \<Rightarrow> VcsState \<Rightarrow> bool" where
  "grows st st' \<longleftrightarrow> (\<forall>p nm rs. stored st p nm = Some rs \<longrightarrow> (\<exists>more. stored st' p nm = Some (rs @ more)))"

lemma grows_refl: "grows st st"
  by (simp add: grows_def)

lemma grows_trans: "grows s t \<Longrightarrow> grows t u \<Longrightarrow> grows s u"
  unfolding grows_def by (metis append.assoc)

lemma handlePut_bad: "\<not> (length cl = 3 \<and> isValidPath (cl ! 1)) \<Longrightarrow> fst (snd (snd (handlePut r st cl))) = st"
  by (simp add: handlePut_def)

lemma handlePut_inv:
  assumes "vcs_inv k st" "length cl = 3 \<and> isValidPath (cl ! 1) \<longrightarrow> plainPath (cl ! 1)" "handlePut r st cl = (err, out, st', r')"
  shows "vcs_inv k st' \<and> grows st st'"
proof (cases "length cl = 3 \<and> isValidPath (cl ! 1)")
  case False
  then show ?thesis using handlePut_bad[OF False, of r st] assms(1,3) grows_refl by simp
next
  case True
  then obtain cmd path len where cl: "cl = [cmd, path, len]" by (auto simp: length_Suc_conv numeral_3_eq_3)
  then have p: "plainPath path" using True assms(2) by simp
  note spec = handlePut_spec[OF assms(1)[unfolded vcs_inv_def, THEN conjunct1] p assms(3)[unfolded cl] refl refl]
  have "grows st st'" unfolding grows_def
  proof (intro allI impI)
    fix q nm rs assume rs: "stored st q nm = Some rs"
    show "\<exists>more. stored st' q nm = Some (rs @ more)"
    proof (cases "(q, nm) = (pathDirs path, pathFile path)")
      case True
      then show ?thesis using spec rs by (auto simp: newRevs_def split: if_splits)
    next
      case False
      then show ?thesis using spec rs by (intro exI[of _ "[]"]) auto
    qed
  qed
  then show ?thesis
    using spec handlePut_tidy[OF _ p assms(3)[unfolded cl]] assms(1) by (simp add: vcs_inv_def)
qed

lemma serveStep_cases:
  "serveStep (r, command) st = st \<or>
   (toUpper (splitOn (CHR '' '') command ! 0) = ''PUT'' \<and>
    serveStep (r, command) st = fst (snd (snd (handlePut r st (splitOn (CHR '' '') command))))) \<or>
   (clears (r, command) \<and>
    serveStep (r, command) st = (case ClearStore (vs_Root st) (vs_Disk st) of (root, d) \<Rightarrow> \<lparr>vs_Root = root, vs_Disk = d\<rparr>))"
  by (auto simp: serveStep_def runCommand_def clears_def Let_def split: prod.split)

lemma serveStep_inv:
  assumes "vcs_inv k st" "plainCommand e"
  shows "vcs_inv k (serveStep e st) \<and> (\<not> clears e \<longrightarrow> grows st (serveStep e st))"
proof -
  obtain r command where e: "e = (r, command)" by force
  let ?cl = "splitOn (CHR '' '') command"
  obtain err out st' r' where p: "handlePut r st ?cl = (err, out, st', r')" by (metis prod_cases4)
  obtain root d where c: "ClearStore (vs_Root st) (vs_Disk st) = (root, d)" by force
  have "vcs_inv k st' \<and> grows st st'" if "toUpper (?cl ! 0) = ''PUT''"
    using handlePut_inv[OF assms(1) _ p] assms(2) that by (auto simp: plainCommand_def e Let_def)
  then show ?thesis using serveStep_cases[of r command st] ClearStore_ok[OF assms(1) c] assms(1) grows_refl
    by (auto simp: e p c)
qed

interpretation serving: event_system serveStep plainCommand "vcs_inv k" "\<lambda>_ _. True" for k
  using serveStep_inv by unfold_locales auto

interpretation archive: event_system serveStep "\<lambda>e. plainCommand e \<and> \<not> clears e" "vcs_inv k" grows for k
  using serveStep_inv grows_refl grows_trans by unfold_locales blast+

text \<open>One connection is such a run: its commands are the lines it reads, each with the stream behind it.\<close>

lemma connection_is_run: "\<exists>es. snd (commandLoop r st) = fold serveStep es st"
proof (induction r st rule: commandLoop.induct)
  case (1 r st)
  show ?case
  proof (cases "ReadLine r")
    case None
    then have "snd (commandLoop r st) = fold serveStep [] st" by (simp add: commandLoop.simps[of r st])
    then show ?thesis by blast
  next
    case (Some lr)
    obtain line r1 where lr: "lr = (line, r1)" by force
    obtain out st1 r2 go where c: "runCommand r1 st (butlast line) = (out, st1, r2, go)" by (metis prod_cases4)
    have s: "serveStep (r1, butlast line) st = st1" by (simp add: serveStep_def c)
    show ?thesis
    proof (cases go)
      case True
      then obtain es where "snd (commandLoop r2 st1) = fold serveStep es st1" using "1.IH"[OF Some lr[symmetric] c[symmetric] refl refl True] by auto
      then have "snd (commandLoop r st) = fold serveStep ((r1, butlast line) # es) st"
        using Some lr c s True by (auto simp: commandLoop.simps[of r st] split: prod.split)
      then show ?thesis by blast
    next
      case False
      then have "snd (commandLoop r st) = fold serveStep [(r1, butlast line)] st"
        using Some lr c s by (simp add: commandLoop.simps[of r st])
      then show ?thesis by blast
    qed
  qed
qed

text \<open>What a PUT has been acknowledged for stays readable.\<close>

lemma upload_kept:
  assumes "vcs_inv k st" "plainPath path" "handlePut r st [cmd, path, len] = (None, sendMessage (''OK r'' @ itoa (int n)) True, st', r')"
    and "\<forall>e\<in>set es. plainCommand e \<and> \<not> clears e"
    and "n < 2 ^ 63"
  shows "\<exists>m. handleGet (fold serveStep es st') [''GET'', path, ''r'' @ itoa (int n)] =
    (None, sendMessage (''OK '' @ itoa m) False @ take (nat (atoiValue len)) (unread r) @ sendMessage ''READY'' False)"
proof -
  let ?data = "take (nat (atoiValue len)) (unread r)"
  let ?new = "newRevs (stored st (pathDirs path) (pathFile path)) (atoiValue len) ?data"
  have ok: "vcs_ok k st" using assms(1) by (simp add: vcs_inv_def)
  have ne: "sendMessage (''OK r'' @ itoa (int n)) True \<noteq> sendMessage ''ERR text files only'' True" by (simp add: sendMessage_def)
  from handlePut_spec[OF ok assms(2,3) refl refl] ne
  have "sendMessage (''OK r'' @ itoa (int n)) True = sendMessage (''OK r'' @ itoa (int (length ?new))) True"
    and new: "stored st' (pathDirs path) (pathFile path) = Some ?new" by auto
  then have n: "n = length ?new" using itoa_inj by (simp add: sendMessage_def)
  have last: "?new \<noteq> []" "snd (last ?new) = ?data" by (auto simp: newRevs_def split: option.split)
  have "vcs_inv k st'" using handlePut_inv[OF assms(1) _ assms(3)] assms(2) by simp
  from archive.run_both[OF this, of es] assms(4)
  have run: "vcs_inv k (fold serveStep es st')" "grows st' (fold serveStep es st')" by (auto simp: list_all_iff)
  then obtain rs more where rs: "stored (fold serveStep es st') (pathDirs path) (pathFile path) = Some rs" "rs = ?new @ more"
    using new unfolding grows_def by fastforce
  then have "rs ! (n - 1) = last ?new" using n last(1) rs(2) by (simp add: nth_append last_conv_nth)
  moreover have "1 \<le> n" "n \<le> length rs" using n last(1) rs(2) by (cases ?new; simp)+
  ultimately show ?thesis
    using handleGet_spec[OF _ assms(2) rs(1), of k "[''r'' @ itoa (int n)]" n "''GET''"] run(1) assms(5) last(2)
    by (simp add: vcs_inv_def) blast
qed

section \<open>Listing a folder\<close>

definition plainDir :: "string \<Rightarrow> bool" where
  "plainDir p \<longleftrightarrow> isValidPath p \<and> list_all (\<lambda>n. n \<noteq> ''.'' \<and> n \<noteq> ''..'') (splitOn sep p)"

definition dirPath :: "string \<Rightarrow> string list" where
  "dirPath p = filter (\<lambda>n. n \<noteq> '''') (splitOn sep p)"

definition folderAt :: "VcsState \<Rightarrow> string list \<Rightarrow> bool" where
  "folderAt st p \<longleftrightarrow> subAt (vs_Root st) p \<noteq> None"

lemma subAt_append: "subAt f (p @ q) = (case subAt f p of None \<Rightarrow> None | Some g \<Rightarrow> subAt g q)"
  by (induction p arbitrary: f) (auto split: option.split)

lemma map_sort_key: "map f (sort_key f xs) = sort (map f xs)"
  by (rule properties_for_sort[symmetric]) simp_all

text \<open>What a listing of names shows.\<close>

lemma map_of_keys: "distinct (map fst al) \<Longrightarrow> set (map fst al) = {n. map_of al n \<noteq> None}"
  by (auto simp: map_of_eq_None_iff)

lemma handleList_spec:
  assumes "vcs_inv k st" "plainDir path" "stored st (dirPath path) '''' = None"
  shows "\<exists>dirs files.
    handleList st (cmd # path # args) =
      sendMessage (''OK '' @ itoa (int (length dirs + length files))) False @
      concat (map (\<lambda>n. sendMessage (n @ ''/ DIR'') False) dirs) @
      concat (map (\<lambda>(n, v). sendMessage (n @ '' r'' @ itoa (int v)) False) files) @ sendMessage ''READY'' False \<and>
    sorted dirs \<and> distinct dirs \<and> set dirs = {n. folderAt st (dirPath path @ [n])} \<and>
    sorted (map fst files) \<and> distinct (map fst files) \<and>
    set files = {(n, length rs) |n rs. stored st (dirPath path) n = Some rs}"
proof -
  have G: "GetFolder (vs_Root st) path = subAt (vs_Root st) (dirPath path)" and valid: "isValidPath path"
    using assms(2) GetFolder_plain[of path "vs_Root st"]
    by (auto simp: plainDir_def dirPath_def isValidPath_def list_all_iff split: if_splits)
  show ?thesis
  proof (cases "subAt (vs_Root st) (dirPath path)")
    case None
    then have "\<And>n. \<not> folderAt st (dirPath path @ [n])" "\<And>n. stored st (dirPath path) n = None"
      by (simp_all add: folderAt_def subAt_append stored_def revisions_def)
    moreover have "itoa 0 = ''0''" by code_simp
    ultimately show ?thesis using valid G None
      by (intro exI[of _ "[]"]) (simp add: handleList_def sendMessage_def)
  next
    case (Some g)
    have t: "tidyNode g" using assms(1) Some by (auto simp: vcs_inv_def tidy_def)
    have st: "stored st (dirPath path) n = map_option (revs (vs_Disk st)) (map_of (fd_Files g) n)" for n
      using Some by (simp add: stored_def revisions_def)
    have fa: "folderAt st (dirPath path @ [n]) \<longleftrightarrow> map_of (fd_SubFolders g) n \<noteq> None" for n
      using Some by (auto simp: folderAt_def subAt_append split: option.split)
    have subs: "map fd_Name (GetSubFolders g) = map fst (fd_SubFolders g)"
      using t by (auto simp: tidyNode_def GetSubFolders_def)
    have "name \<noteq> ''''" if "(name, vf) \<in> set (fd_Files g)" for name vf
      using that assms(3) st[of "''''"] by (force simp: map_of_eq_None_iff)
    then have names: "vf_FileName vf = name" if "(name, vf) \<in> set (fd_Files g)" for name vf
      using t that unfolding tidyNode_def by fast
    then have fls: "map vf_FileName (GetFiles g) = map fst (fd_Files g)" by (auto simp: GetFiles_def)
    let ?dirs = "map fd_Name (sort_key fd_Name (GetSubFolders g))"
    let ?files = "map (\<lambda>vf. (vf_FileName vf, vf_LatestVersion vf)) (sort_key vf_FileName (GetFiles g))"
    have out: "handleList st (cmd # path # args) =
      sendMessage (''OK '' @ itoa (int (length ?dirs + length ?files))) False @
      concat (map (\<lambda>n. sendMessage (n @ ''/ DIR'') False) ?dirs) @
      concat (map (\<lambda>(n, v). sendMessage (n @ '' r'' @ itoa (int v)) False) ?files) @ sendMessage ''READY'' False"
      using valid G Some by (simp add: handleList_def GetFiles_def GetSubFolders_def o_def add.commute)
    have d1: "sorted ?dirs" "distinct ?dirs" unfolding map_sort_key subs using t by (simp_all add: tidyNode_def)
    have d2: "set ?dirs = {n. folderAt st (dirPath path @ [n])}"
      unfolding map_sort_key subs fa using map_of_keys[of "fd_SubFolders g"] t by (simp add: tidyNode_def)
    have "map fst ?files = map vf_FileName (sort_key vf_FileName (GetFiles g))" by simp
    then have f1: "sorted (map fst ?files)" "distinct (map fst ?files)"
      unfolding map_sort_key fls using t by (simp_all add: tidyNode_def)
    have "set ?files = {(n, vf_LatestVersion vf) |n vf. (n, vf) \<in> set (fd_Files g)}"
      using names by (force simp: GetFiles_def)
    also have "\<dots> = {(n, length rs) |n rs. stored st (dirPath path) n = Some rs}"
    proof -
      have "(n, vf) \<in> set (fd_Files g) \<longleftrightarrow> map_of (fd_Files g) n = Some vf" for n vf
        using t by (simp add: tidyNode_def)
      then show ?thesis by (auto simp: st)
    qed
    finally have f2: "set ?files = {(n, length rs) |n rs. stored st (dirPath path) n = Some rs}" .
    from out d1 d2 f1 f2 show ?thesis by blast
  qed
qed

section \<open>The start of the server\<close>

text \<open>On an empty data directory the server starts in a state of the invariant.\<close>

lemma mkdirs_below: "mkdirs k ns d = Some d' \<Longrightarrow> map_of d' (k @ ns @ n # q) = map_of d (k @ ns @ n # q)"
proof (induction k ns d rule: mkdirs.induct)
  case (2 k m ns d)
  then show ?case by (auto simp: update_conv' split: option.splits Node.splits)
qed simp

lemma populate_empty:
  assumes "\<And>q n. map_of d (resolve dir @ n # q) = None"
  shows "populateFolder d (Folder dir b [] []) = Folder dir b [] []"
proof -
  have "q = resolve dir @ [last q]" if "q \<noteq> []" "butlast q = resolve dir" for q
    using append_butlast_last_id[OF that(1)] that(2) by simp
  moreover have "resolve dir @ [n] \<notin> set (map fst d)" for n using assms[of n "[]"] by (simp add: map_of_eq_None_iff)
  ultimately have "filter (\<lambda>q. q \<noteq> [] \<and> butlast q = resolve dir) (map fst d) = []" by (metis (mono_tags, lifting) filter_False)
  then have "dirNames d (resolve dir) = []" by (simp add: dirNames_def)
  then show ?thesis
    by (subst populateFolder.simps) (simp add: subDirs_def plainFiles_def parseValidGroups_def groupsToVersionedFiles_def)
qed

lemma fresh_server_ok:
  assumes "startServer env d = Some st" "getDataDir env d = Some (dir, d1)" "\<And>q n. map_of d1 (resolve dir @ n # q) = None"
  shows "vcs_inv (resolve dir) st"
proof -
  have ne: "dir \<noteq> []" using assms(2) by (auto simp: getDataDir_def localDefaultDataDir_def Let_def split: option.splits if_splits)
  obtain d2 where mk: "osMkdirAll d1 dir = Some d2" "st = \<lparr>vs_Root = populateFolder d2 (Folder dir (Base dir) [] []), vs_Disk = d2\<rparr>"
    using assms(1,2) by (auto simp: startServer_def NewFileManager_def NewFolder_def split: option.splits if_splits prod.splits)
  have "map_of d2 (resolve dir @ n # q) = None" for q n
    using mkdirs_below[of "[]" "resolve dir" d1 d2] mk(1) assms(3) by (simp add: osMkdirAll_def)
  then have st: "st = \<lparr>vs_Root = Folder dir (Base dir) [] [], vs_Disk = d2\<rparr>" using mk(2) populate_empty by simp
  have "store_ok d2 (resolve dir) (Folder dir (Base dir) [] [])"
    using osMkdirAll_dir[OF mk(1)] ne by (subst store_ok_rec) (simp add: node_ok_def)
  then show ?thesis using tidy_fresh[OF ne] by (simp add: st vcs_inv_def vcs_ok_def)
qed

section \<open>Properties\<close>

text \<open>
  The states the statements below are about: a server started on a data directory with nothing in it, after any commands of any
  connections of which no PUT names a folder \<open>.\<close> or \<open>..\<close>.
\<close>

definition reached :: "string \<Rightarrow> Disk \<Rightarrow> (Reader \<times> string) list \<Rightarrow> VcsState \<Rightarrow> bool" where
  "reached env d history st \<longleftrightarrow>
     (\<exists>st0 dir d1. startServer env d = Some st0 \<and> getDataDir env d = Some (dir, d1) \<and>
        (\<forall>q n. map_of d1 (resolve dir @ n # q) = None) \<and>
        (\<forall>e\<in>set history. plainCommand e) \<and> st = fold serveStep history st0)"

lemma reached_inv:
  assumes "reached env d history st"
  obtains k where "vcs_inv k st"
proof -
  from assms obtain st0 dir d1 where r: "startServer env d = Some st0" "getDataDir env d = Some (dir, d1)"
    "\<And>q n. map_of d1 (resolve dir @ n # q) = None" "\<forall>e\<in>set history. plainCommand e" "st = fold serveStep history st0"
    unfolding reached_def by blast
  from fresh_server_ok[OF r(1-3)] have "vcs_inv (resolve dir) st0" .
  from serving.run_inv[OF this, of history] r(4,5) show ?thesis by (intro that) (simp add: list_all_iff)
qed

text \<open>C30: Reading returns what was stored. On a server that started with an empty data directory and has served any commands, of which no PUT
  names a folder \<open>.\<close> or \<open>..\<close>, a GET of the newest or of any earlier revision of a path without such folders answers with the length on
  record and the content of exactly that revision. (A PUT through such a folder can overwrite revisions, \<open>dotted_put_overwrites\<close>.)\<close>

theorem get_returns_revision:
  assumes "reached env d history st" "plainPath path" "stored st (pathDirs path) (pathFile path) = Some rs"
    and "args = [] \<and> n = length rs \<or> args = [''r'' @ itoa (int n)] \<and> 1 \<le> n \<and> n \<le> length rs \<and> n < 2 ^ 63"
  shows "handleGet st (cmd # path # args) =
    (None, sendMessage (''OK '' @ itoa (fst (rs ! (n - 1)))) False @ snd (rs ! (n - 1)) @ sendMessage ''READY'' False)"
proof -
  from reached_inv[OF assms(1)] obtain k where "vcs_inv k st" .
  then have "vcs_ok k st" by (simp add: vcs_inv_def)
  then show ?thesis using assms(2-4) by (rule handleGet_spec)
qed

text \<open>C31: An acknowledged upload is permanent. On a server that started with an empty data directory and has served any commands,
  when a PUT to a path without the folders \<open>.\<close> and \<open>..\<close> has been answered with \<open>OK rN\<close>, then after any further commands of
  any connections, uploads to the same path included, a GET of revision N of the path answers with exactly the uploaded bytes. Of the
  commands before and after, no PUT names a folder \<open>.\<close> or \<open>..\<close> (it could overwrite the revision, \<open>dotted_put_overwrites\<close>), and none
  after it clears the store.\<close>

theorem acknowledged_upload_is_permanent:
  assumes "reached env d history st" "plainPath path"
    and "handlePut r st [cmd, path, len] = (None, sendMessage (''OK r'' @ itoa (int n)) True, st', r')"
    and "\<forall>e\<in>set es. plainCommand e \<and> \<not> clears e"
    and "n < 2 ^ 63"
  shows "\<exists>m. handleGet (fold serveStep es st') [''GET'', path, ''r'' @ itoa (int n)] =
    (None, sendMessage (''OK '' @ itoa m) False @ take (nat (atoiValue len)) (unread r) @ sendMessage ''READY'' False)"
proof -
  from reached_inv[OF assms(1)] obtain k where "vcs_inv k st" .
  then show ?thesis by (rule upload_kept[OF _ assms(2-5)])
qed

text \<open>C32: LIST shows a folder as it is. On a server that started with an empty data directory and has served any commands, of which no PUT
  names a folder \<open>.\<close> or \<open>..\<close>, the answer for a folder path without these names is the number of entries, then each sub-folder once and in
  order, then each file once and in order with the number of its revisions; for a folder that does not exist, no entries. (No
  file of the folder may have the empty name, \<open>put_to_directory\<close>.)\<close>

theorem list_shows_folder:
  assumes "reached env d history st" "plainDir path" "stored st (dirPath path) '''' = None"
  shows "\<exists>dirs files.
    handleList st (cmd # path # args) =
      sendMessage (''OK '' @ itoa (int (length dirs + length files))) False @
      concat (map (\<lambda>n. sendMessage (n @ ''/ DIR'') False) dirs) @
      concat (map (\<lambda>(n, v). sendMessage (n @ '' r'' @ itoa (int v)) False) files) @ sendMessage ''READY'' False \<and>
    sorted dirs \<and> distinct dirs \<and> set dirs = {n. folderAt st (dirPath path @ [n])} \<and>
    sorted (map fst files) \<and> distinct (map fst files) \<and>
    set files = {(n, length rs) |n rs. stored st (dirPath path) n = Some rs}"
proof -
  from reached_inv[OF assms(1)] obtain k where "vcs_inv k st" .
  then show ?thesis using assms(2,3) by (rule handleList_spec)
qed

section \<open>Samples\<close>

lemma emptyStore_inv: "vcs_inv [''data''] emptyStore"
  using emptyStore_ok by (simp add: vcs_inv_def emptyStore_def tidy_fresh)

text \<open>The empty store is what the server starts with on an empty disk, and the sample upload is one of its commands.\<close>

lemma empty_start: "startServer ''/data'' [] = Some emptyStore"
proof -
  let ?d = "[([''data''], Directory)]"
  have facts: "getDataDir ''/data'' [] = Some (''/data'', ?d)" "osMkdirAll ?d ''/data'' = Some ?d" "Base ''/data'' = ''data''"
    "resolve ''/data'' = [''data'']" "osStat ?d ''/data'' \<noteq> None"
    by code_simp+
  have "populateFolder ?d (Folder ''/data'' ''data'' [] []) = Folder ''/data'' ''data'' [] []"
    by (rule populate_empty) (simp add: facts)
  then show ?thesis using facts
    by (simp add: startServer_def NewFileManager_def NewFolder_def emptyStore_def)
qed

lemma empty_reached: "\<forall>e\<in>set history. plainCommand e \<Longrightarrow> reached ''/data'' [] history (fold serveStep history emptyStore)"
proof -
  assume h: "\<forall>e\<in>set history. plainCommand e"
  have "getDataDir ''/data'' [] = Some (''/data'', [([''data''], Directory)])" "resolve ''/data'' = [''data'']" by code_simp+
  with h show ?thesis unfolding reached_def
    by (intro exI[of _ emptyStore] exI[of _ "''/data''"] exI[of _ "[([''data''], Directory)]"]) (simp add: empty_start)
qed

definition sampleCommand :: "Reader \<times> string" where
  "sampleCommand = (sampleReader, ''PUT /src/a.txt 5'')"

lemma sampleCommand_step: "serveStep sampleCommand emptyStore = fst (snd (snd samplePut))"
proof -
  have c: "splitOn (CHR '' '') ''PUT /src/a.txt 5'' = [''PUT'', samplePath, itoa 5]" "toUpper ''PUT'' = ''PUT''" by code_simp+
  show ?thesis unfolding serveStep_def sampleCommand_def runCommand_def samplePut_def Let_def fst_conv snd_conv c nth_Cons_0
    by (simp split: prod.split)
qed

lemma sampleCommand_plain: "plainCommand sampleCommand"
  by code_simp

lemma samplePut_reached: "reached ''/data'' [] [sampleCommand] (fst (snd (snd samplePut)))"
  using empty_reached[of "[sampleCommand]"] sampleCommand_plain by (simp add: sampleCommand_step)

definition otherUpload :: Reader where
  "otherUpload = \<lparr>rd_Pieces = [''changed''], rd_Fails = False\<rparr>"

lemma otherUpload_plain: "plainCommand (otherUpload, ''put /src/a.txt 7'') \<and> \<not> clears (otherUpload, ''put /src/a.txt 7'')"
  by code_simp

lemma list_plain: "plainCommand (sampleReader, ''LIST /'') \<and> \<not> clears (sampleReader, ''LIST /'')"
  by code_simp

theorem get_returns_revision_witness:
  "handleGet (fst (snd (snd samplePut))) [''GET'', samplePath] =
   (None, sendMessage ''OK 5'' False @ ''hello'' @ sendMessage ''READY'' False)"
proof -
  have i: "itoa 5 = ''5''" by code_simp
  show ?thesis using get_returns_revision[OF samplePut_reached samplePath_plain samplePut_stored(2), of "[]" 1 "''GET''"] i by simp
qed

theorem acknowledged_upload_is_permanent_witness:
  "\<exists>m. handleGet (serveStep (sampleReader, ''LIST /'') (serveStep (otherUpload, ''put /src/a.txt 7'') (fst (snd (snd samplePut)))))
     [''GET'', samplePath, ''r1''] = (None, sendMessage (''OK '' @ itoa m) False @ ''hello'' @ sendMessage ''READY'' False)"
proof (rule samplePut_eq)
  fix st r assume p: "samplePut = (None, sendMessage ''OK r1'' True, st, r)"
  have i: "''OK r1'' = ''OK r'' @ itoa (int 1)" "''r1'' = ''r'' @ itoa (int 1)" by code_simp+
  have put: "handlePut sampleReader emptyStore [''PUT'', samplePath, itoa 5] = (None, sendMessage (''OK r'' @ itoa (int 1)) True, st, r)"
    using p unfolding samplePut_def i(1) .
  have "\<forall>e\<in>set [(otherUpload, ''put /src/a.txt 7''), (sampleReader, ''LIST /'')]. plainCommand e \<and> \<not> clears e"
    using otherUpload_plain list_plain by simp
  from acknowledged_upload_is_permanent[OF empty_reached[of "[]", simplified] samplePath_plain put this] show ?thesis
    unfolding p i(2) by (simp add: atoiValue_itoa sample_facts(4))
qed

lemma sampleDir: "plainDir ''/src''" "dirPath ''/src'' = [''src'']"
  by code_simp+

lemma samplePut_src: "stored (fst (snd (snd samplePut))) [''src''] n = (if n = ''a.txt'' then Some [(5, ''hello'')] else None)"
proof (rule samplePut_eq)
  fix st r assume p: "samplePut = (None, sendMessage ''OK r1'' True, st, r)"
  have e: "stored emptyStore q m = None" for q m
    by (simp add: stored_def emptyStore_def revisions_fresh)
  from handlePut_spec[OF emptyStore_ok samplePath_plain p[unfolded samplePut_def] refl refl]
  show ?thesis using samplePut_stored(2) unfolding p sample_facts by (auto simp: e)
qed

theorem list_shows_folder_witness:
  "\<exists>dirs. handleList (fst (snd (snd samplePut))) [''LIST'', ''/src''] =
    sendMessage (''OK '' @ itoa (int (length dirs + 1))) False @ concat (map (\<lambda>n. sendMessage (n @ ''/ DIR'') False) dirs) @
    sendMessage ''a.txt r1'' False @ sendMessage ''READY'' False"
proof -
  have i: "itoa 1 = ''1''" by code_simp
  have "stored (fst (snd (snd samplePut))) (dirPath ''/src'') '''' = None" by (simp add: sampleDir samplePut_src)
  from list_shows_folder[OF samplePut_reached sampleDir(1) this, of "''LIST''" "[]"]
  obtain dirs files where l: "handleList (fst (snd (snd samplePut))) [''LIST'', ''/src''] =
      sendMessage (''OK '' @ itoa (int (length dirs + length files))) False @
      concat (map (\<lambda>n. sendMessage (n @ ''/ DIR'') False) dirs) @
      concat (map (\<lambda>(n, v). sendMessage (n @ '' r'' @ itoa (int v)) False) files) @ sendMessage ''READY'' False"
    "distinct (map fst files)" "set files = {(n, length rs) |n rs. stored (fst (snd (snd samplePut))) (dirPath ''/src'') n = Some rs}"
    by blast
  have "set files = {(''a.txt'', 1)}" using l(3) by (auto simp: sampleDir samplePut_src split: if_splits)
  moreover have "distinct files" using l(2) by (simp add: distinct_map)
  ultimately have "files = [(''a.txt'', 1)]"
    by (cases files; cases "tl files") auto
  then show ?thesis using l(1) i by (intro exI[of _ dirs]) simp
qed

text \<open>
  A path that ends in a slash is valid for a \<open>PUT\<close>: it stores a file with the empty name, which \<open>LIST\<close> shows under the name
  of its folder, where no \<open>GET\<close> finds it.
\<close>

lemma put_to_directory:
  "isValidPath ''/src/'' \<and>
   (case AddFile (vs_Disk emptyStore) (vs_Root emptyStore) ''/src/'' sampleReader 5 of
      (res, root, d, r) \<Rightarrow>
        handleList \<lparr>vs_Root = root, vs_Disk = d\<rparr> [''LIST'', ''/src''] =
          sendMessage ''OK 1'' False @ sendMessage ''src r1'' False @ sendMessage ''READY'' False \<and>
        handleGet \<lparr>vs_Root = root, vs_Disk = d\<rparr> [''GET'', ''/src/src''] = (None, sendMessage ''ERR no such file'' True))"
  by code_simp

text \<open>
  Why the invariant asks for paths without dots: a PUT through a folder named \<open>..\<close> reaches the disk file of
  another path and overwrites its acknowledged revision, while the tree still shows that revision.
\<close>

lemma dotted_put_overwrites:
  "(case handlePut sampleReader emptyStore [''PUT'', ''/src/a.txt'', ''5''] of (e1, out1, st1, r1) \<Rightarrow>
    case handlePut otherUpload st1 [''PUT'', ''/src/../src/a.txt'', ''7''] of (e2, out2, st2, r2) \<Rightarrow>
      e1 = None \<and> out1 = sendMessage ''OK r1'' True \<and> e2 = None \<and> out2 = sendMessage ''OK r1'' True \<and>
      handleGet st1 [''GET'', ''/src/a.txt'', ''r1''] = (None, sendMessage ''OK 5'' False @ ''hello'' @ sendMessage ''READY'' False) \<and>
      handleGet st2 [''GET'', ''/src/a.txt'', ''r1''] = (None, sendMessage ''OK 5'' False @ ''changed'' @ sendMessage ''READY'' False))"
  by code_simp

end
