(* ===== verification/Go_Sqrt.thy ===== *)
theory Go_Sqrt
  imports Go_Float
begin

text \<open>
  Go's \<open>math.Sqrt\<close>: the exact root rounded to the nearest \<open>float64\<close>, ties to even, computed from integer square
  roots; with bounds for the root of a 63-bit integer converted to \<open>float64\<close>.
\<close>

section \<open>Integer square roots\<close>

function isqrt :: "nat \<Rightarrow> nat" where
  "isqrt n = (if n = 0 then 0 else let r = 2 * isqrt (n div 4) in if (r + 1) ^ 2 \<le> n then r + 1 else r)"
  by pat_completeness auto
termination
  by (relation "measure id") auto

declare isqrt.simps [simp del]

lemma isqrt_bounds: "isqrt n ^ 2 \<le> n \<and> n < (isqrt n + 1) ^ 2"
proof (induction n rule: isqrt.induct)
  case (1 n)
  show ?case
  proof (cases "n = 0")
    case True
    then show ?thesis by (simp add: isqrt.simps)
  next
    case False
    let ?q = "isqrt (n div 4)"
    have ih: "?q ^ 2 \<le> n div 4" "n div 4 < (?q + 1) ^ 2" using 1 False by auto
    have "(2 * ?q) ^ 2 \<le> n" using ih(1) by (simp add: power2_eq_square)
    moreover have "n < (2 * ?q + 2) ^ 2"
    proof -
      have "n < 4 * (n div 4 + 1)" by simp
      also have "\<dots> \<le> 4 * (?q + 1) ^ 2" using ih(2) by (intro mult_le_mono2) simp
      also have "\<dots> = (2 * ?q + 2) ^ 2" by (simp add: power2_eq_square)
      finally show ?thesis .
    qed
    ultimately show ?thesis using False by (subst (1 2) isqrt.simps) (auto simp: Let_def)
  qed
qed

lemma isqrt_eq: "r ^ 2 \<le> n \<Longrightarrow> n < (r + 1) ^ 2 \<Longrightarrow> isqrt n = r"
proof -
  assume r: "r ^ 2 \<le> n" "n < (r + 1) ^ 2"
  note b = isqrt_bounds[of n]
  have "r < isqrt n + 1" by (rule power_less_imp_less_base[of _ 2]) (use r b in linarith, simp)
  moreover have "isqrt n < r + 1" by (rule power_less_imp_less_base[of _ 2]) (use r b in linarith, simp)
  ultimately show ?thesis by simp
qed

section \<open>Roots of floating-point numbers\<close>

text \<open>The root of \<open>y\<close>, rounded to an integer with ties to even.\<close>

definition roundSqrt :: "rat \<Rightarrow> int" where
  "roundSqrt y =
     (let f = int (isqrt (nat \<lfloor>y\<rfloor>)); h = (of_int f + 1 / 2) ^ 2 in
      if y < h then f else if y > h then f + 1 else if even f then f else f + 1)"

fun sqrtF64 :: "f64 \<Rightarrow> f64" where
  "sqrtF64 (Fin x) =
     (if x = 0 then Fin 0
      else if x < 0 then NaN
      else
        (let e = ilog2 x div 2 - 52
         in Fin (of_int (roundSqrt (x / (2 powi e) ^ 2)) * 2 powi e)))"
| "sqrtF64 PosInf = PosInf"
| "sqrtF64 NegInf = NaN"
| "sqrtF64 NaN = NaN"

lemma isqrt_floor:
  assumes "0 \<le> y"
  defines "f \<equiv> isqrt (nat \<lfloor>y\<rfloor>)"
  shows "of_nat f ^ 2 \<le> (y :: rat)" "y < (of_nat f + 1) ^ 2"
proof -
  have n: "0 \<le> \<lfloor>y\<rfloor>" using assms(1) by simp
  have b: "f ^ 2 \<le> nat \<lfloor>y\<rfloor>" "nat \<lfloor>y\<rfloor> < (f + 1) ^ 2" unfolding f_def using isqrt_bounds by blast+
  from b(1) have "int f ^ 2 \<le> \<lfloor>y\<rfloor>" using n by (simp add: nat_le_iff le_nat_iff)
  then have "of_int (int f ^ 2) \<le> y" by (simp only: le_floor_iff)
  then show "of_nat f ^ 2 \<le> y" by simp
  from b(2) have "\<lfloor>y\<rfloor> < (int f + 1) ^ 2" using n by (simp add: nat_less_iff add.commute)
  then have "y < of_int ((int f + 1) ^ 2)" by (simp only: floor_less_iff)
  then show "y < (of_nat f + 1) ^ 2" by simp
qed

lemma roundSqrt_cases:
  obtains f where "f = isqrt (nat \<lfloor>y\<rfloor>)" "roundSqrt y = int f \<or> roundSqrt y = int f + 1"
    "(of_nat f + 1 / 2) ^ 2 < y \<Longrightarrow> roundSqrt y = int f + 1"
proof
  let ?f = "isqrt (nat \<lfloor>y\<rfloor>)" and ?h = "(of_int (int (isqrt (nat \<lfloor>y\<rfloor>))) + 1 / 2) ^ 2 :: rat"
  show "?f = ?f" ..
  show "roundSqrt y = int ?f \<or> roundSqrt y = int ?f + 1"
    by (cases "y < ?h"; cases "y > ?h"; cases "even ?f") (simp_all add: roundSqrt_def)
  assume "(of_nat ?f + 1 / 2) ^ 2 < y"
  then have "\<not> y < ?h" "y > ?h" by simp_all
  then show "roundSqrt y = int ?f + 1" unfolding roundSqrt_def Let_def by (simp only: if_True if_False)
qed

lemma square_less: "0 \<le> b \<Longrightarrow> a ^ 2 < b ^ 2 \<Longrightarrow> a < (b :: rat)"
  by (rule power_less_imp_less_base)

lemma roundSqrt_ge:
  assumes "0 \<le> P" "(of_int P - 1 / 2) ^ 2 < y" "0 \<le> y"
  shows "P \<le> roundSqrt y"
proof -
  obtain f where f: "f = isqrt (nat \<lfloor>y\<rfloor>)" "roundSqrt y = int f \<or> roundSqrt y = int f + 1"
    "(of_nat f + 1 / 2) ^ 2 < y \<Longrightarrow> roundSqrt y = int f + 1" by (rule roundSqrt_cases[of y]) blast
  note b = isqrt_floor[OF assms(3), folded f(1)]
  have "(of_int P - 1 / 2) ^ 2 < (of_nat f + 1 :: rat) ^ 2" using assms(2) b(2) by (rule less_trans)
  then have "of_int P - 1 / 2 < (of_nat f + 1 :: rat)" by (rule square_less[rotated]) simp_all
  then have "of_int P < (of_int (int f + 2) :: rat)" by simp
  then have lt: "P \<le> int f + 1" unfolding of_int_less_iff by simp
  show ?thesis
  proof (cases "P = int f + 1")
    case True
    then have "of_nat f + 1 / 2 = (of_int P - 1 / 2 :: rat)" by simp
    then have "(of_nat f + 1 / 2) ^ 2 < y" using assms(2) by (simp only:)
    then show ?thesis using f(3) True by simp
  next
    case False
    then show ?thesis using lt f(2) by linarith
  qed
qed

lemma roundSqrt_le:
  assumes "0 \<le> P" "y < (of_int P) ^ 2" "0 \<le> y"
  shows "roundSqrt y \<le> P"
proof -
  obtain f where f: "f = isqrt (nat \<lfloor>y\<rfloor>)" "roundSqrt y = int f \<or> roundSqrt y = int f + 1"
    by (rule roundSqrt_cases[of y]) blast
  note b = isqrt_floor[OF assms(3), folded f(1)]
  have "(of_nat f :: rat) ^ 2 < of_int P ^ 2" using b(1) assms(2) by (rule order_le_less_trans)
  then have "(of_nat f :: rat) < of_int P" using assms(1) square_less[of "of_int P" "of_nat f"] by simp
  then have "of_int (int f) < (of_int P :: rat)" by simp
  then have "int f < P" unfolding of_int_less_iff .
  then show ?thesis using f(2) by linarith
qed


section \<open>The root of a converted integer\<close>

text \<open>The absolute rounding error of a conversion, and that it does not lower the binade.\<close>

lemma roundHalfEven_ge: "of_int a \<le> x \<Longrightarrow> a \<le> roundHalfEven x"
proof -
  assume "of_int a \<le> x"
  then have "a \<le> \<lfloor>x\<rfloor>" by (simp add: le_floor_iff)
  then show ?thesis by (auto simp: roundHalfEven_def Let_def)
qed

lemma roundF64_ulp:
  assumes "1 \<le> x" "x < 2 ^ 64"
  shows "\<exists>y. roundF64 x = Fin y \<and> \<bar>y - x\<bar> \<le> 2 powi (ilog2 x - 53) \<and> 2 powi ilog2 x \<le> y"
proof -
  let ?l = "ilog2 x"
  have l: "2 powi ?l \<le> x" "x < 2 powi (?l + 1)" using ilog2_bounds[of x] assms(1) by auto
  have "0 \<le> ?l"
  proof (rule ccontr)
    assume "\<not> 0 \<le> ?l"
    then have "(2 :: rat) powi (?l + 1) \<le> 2 powi 0" by (intro powi_2_mono) simp
    then show False using l assms(1) by simp
  qed
  then have e: "max (?l - 52) (- 1074) = ?l - 52" by simp
  let ?p = "(2 :: rat) powi (?l - 52)"
  let ?y = "of_int (roundHalfEven (x / ?p)) * ?p"
  have "?y - x = (of_int (roundHalfEven (x / ?p)) - x / ?p) * ?p" by (simp add: left_diff_distrib)
  then have "\<bar>?y - x\<bar> = \<bar>of_int (roundHalfEven (x / ?p)) - x / ?p\<bar> * ?p" by (simp add: abs_mult)
  also have "\<dots> \<le> 1 / 2 * ?p" by (intro mult_right_mono roundHalfEven_error) simp
  also have "\<dots> = 2 powi (?l - 53)" by (simp add: power_int_diff)
  finally have err: "\<bar>?y - x\<bar> \<le> 2 powi (?l - 53)" .
  have s: "(2 :: rat) powi ?l = of_int (2 ^ 52) * ?p" by (simp add: power_int_diff)
  then have "of_int (2 ^ 52) * ?p \<le> x" using l(1) by (simp only:)
  then have "of_int (2 ^ 52) \<le> x / ?p" by (simp only: pos_le_divide_eq powi_2_pos)
  then have "2 ^ 52 \<le> roundHalfEven (x / ?p)" by (rule roundHalfEven_ge)
  then have "(of_int (2 ^ 52) :: rat) \<le> of_int (roundHalfEven (x / ?p))" by (simp only: of_int_le_iff)
  then have lo: "2 powi ?l \<le> ?y" unfolding s by (rule mult_right_mono) simp
  have "(2 :: rat) powi (?l - 53) \<le> 2 powi ?l" by (rule powi_2_mono) simp
  then have "\<bar>?y\<bar> \<le> x + x" using err l(1) lo by linarith
  also have "\<dots> < 2 ^ 65" using assms(2) by simp
  also have "\<dots> = 2 powi 65" by simp
  also have "\<dots> \<le> 2 powi 1024" by (rule powi_2_mono) simp
  finally have "\<not> 2 powi 1024 \<le> \<bar>?y\<bar>" by simp
  then have "roundF64 x = Fin ?y" using assms(1) by (simp add: roundF64_def Let_def e)
  with err lo show ?thesis by blast
qed


text \<open>
  Twice the root of the binade covers the conversion error: with \<open>q\<close> a power of two, \<open>q ^ 2 \<le> x\<close>, and an error of half
  a unit in the last place, the converted number still lies above the square just below \<open>p ^ 2\<close>.
\<close>

lemma error_covered:
  fixes p q x m :: rat
  assumes "1 \<le> q" "q \<le> 2 ^ 31" "q \<le> p" "p ^ 2 \<le> x"
    and "\<bar>m - x\<bar> \<le> q ^ 2 / 2 ^ 53 \<or> q + 1 \<le> p \<and> \<bar>m - x\<bar> \<le> 2 * q ^ 2 / 2 ^ 53"
  shows "(p - q / 2 ^ 53) ^ 2 < m"
proof -
  let ?h = "q / 2 ^ 53"
  have h: "?h < 1" "0 < ?h" using assms(1,2) by simp_all
  have sq: "(p - ?h) ^ 2 = p ^ 2 - (2 * p - ?h) * ?h" by (simp add: power2_eq_square algebra_simps)
  have m: "x - \<bar>m - x\<bar> \<le> m" by linarith
  have "\<bar>m - x\<bar> < (2 * p - ?h) * ?h"
  proof (cases "\<bar>m - x\<bar> \<le> q ^ 2 / 2 ^ 53")
    case True
    have "q ^ 2 / 2 ^ 53 = q * ?h" by (simp add: power2_eq_square)
    also have "\<dots> < (2 * p - ?h) * ?h" using h assms(1,3) by (intro mult_strict_right_mono) linarith+
    finally show ?thesis using True by linarith
  next
    case False
    then have f: "q + 1 \<le> p" "\<bar>m - x\<bar> \<le> 2 * q ^ 2 / 2 ^ 53" using assms(5) by auto
    have "2 * q ^ 2 / 2 ^ 53 = (2 * q) * ?h" by (simp add: power2_eq_square)
    also have "\<dots> < (2 * p - ?h) * ?h" using h f(1) by (intro mult_strict_right_mono) linarith+
    finally show ?thesis using f(2) by linarith
  qed
  then show ?thesis unfolding sq using m assms(4) by linarith
qed

text \<open>The converted number lies between the squares next to the integer root and twice the root.\<close>

lemma converted_bounds:
  assumes n: "4 \<le> n" "n < 2 ^ 63"
  defines "p \<equiv> isqrt (nat n)"
  obtains m j where "floatOfInt n = Fin m" "0 \<le> j" "j \<le> 31" "2 * j \<le> ilog2 m" "m < 2 ^ 64"
    "(2 :: rat) powi j \<le> of_nat p" "(of_nat p - 2 powi j / 2 ^ 53) ^ 2 < m" "m < (2 * of_nat p) ^ 2" "2 \<le> p"
proof -
  let ?x = "of_int n :: rat"
  let ?L = "ilog2 ?x"
  define j where "j = ?L div 2"
  have "of_int 4 \<le> ?x" "?x < of_int (2 ^ 63)" using n by (simp_all only: of_int_le_iff of_int_less_iff)
  then have x: "4 \<le> ?x" "?x < 2 ^ 63" by simp_all
  have pb: "p ^ 2 \<le> nat n" "nat n < (p + 1) ^ 2" unfolding p_def using isqrt_bounds by blast+
  have "int p ^ 2 \<le> n" "n < (int p + 1) ^ 2" using pb n(1) by (simp_all add: le_nat_iff nat_less_iff add.commute)
  then have "of_int (int p ^ 2) \<le> ?x" "?x < of_int ((int p + 1) ^ 2)" by (simp_all only: of_int_le_iff of_int_less_iff)
  then have p2: "of_nat p ^ 2 \<le> ?x" "?x < (of_nat p + 1) ^ 2" by simp_all
  have l: "2 powi ?L \<le> ?x" "?x < 2 powi (?L + 1)" using ilog2_bounds[of ?x] x by auto
  have L63: "?L < 63"
  proof (rule ccontr)
    assume "\<not> ?L < 63"
    then have "(2 :: rat) powi 63 \<le> 2 powi ?L" by (intro powi_2_mono) simp
    then show False using l(1) x(2) by simp
  qed
  have L2: "2 \<le> ?L"
  proof (rule ccontr)
    assume "\<not> 2 \<le> ?L"
    then have "(2 :: rat) powi (?L + 1) \<le> 2 powi 2" by (intro powi_2_mono) simp
    then show False using l(2) x(1) by simp
  qed
  have j: "1 \<le> j" "j \<le> 31" using L63 L2 unfolding j_def by linarith+
  define Q where "Q = (2 :: nat) ^ nat j"
  have q: "(2 :: rat) powi j = of_nat Q" using j by (simp add: Q_def power_int_def)
  have q2: "(of_nat Q :: rat) ^ 2 = 2 powi (2 * j)" unfolding q[symmetric] by (simp only: mult.commute[of 2] power_int_mult power_int_numeral)
  have "(of_nat Q :: rat) ^ 2 \<le> ?x"
    unfolding q2 by (rule order_trans[OF powi_2_mono l(1)]) (simp add: j_def)
  then have "of_int (int Q ^ 2) \<le> ?x" by simp
  then have Qn: "int Q ^ 2 \<le> n" by (simp only: of_int_le_iff)
  have root: "r \<le> p" if "int r ^ 2 \<le> n" for r
  proof -
    have "r ^ 2 \<le> nat n" using that n(1) by (simp add: le_nat_iff)
    then have "r ^ 2 < (p + 1) ^ 2" using pb(2) by (rule order_le_less_trans)
    then have "r < p + 1" by (rule power_less_imp_less_base) simp
    then show ?thesis by simp
  qed
  have Qp: "Q \<le> p" by (rule root[OF Qn])
  have p2': "2 \<le> p" by (rule root) (use n(1) in simp)
  have Q1: "1 \<le> Q" by (simp add: Q_def)
  have Q31: "Q \<le> 2 ^ 31" unfolding Q_def using j by (intro power_increasing) simp_all
  have qr: "1 \<le> (of_nat Q :: rat)" "(of_nat Q :: rat) \<le> 2 ^ 31" "(of_nat Q :: rat) \<le> of_nat p"
    using of_nat_mono[OF Q1, where 'a = rat] of_nat_mono[OF Q31, where 'a = rat] of_nat_mono[OF Qp, where 'a = rat] by simp_all
  have "1 \<le> ?x" "?x < 2 ^ 64" using x by simp_all
  from roundF64_ulp[OF this] obtain m where
    m: "roundF64 ?x = Fin m" "\<bar>m - ?x\<bar> \<le> 2 powi (?L - 53)" "2 powi ?L \<le> m" by blast
  have Lm: "?L \<le> ilog2 m"
  proof (rule ccontr)
    assume "\<not> ?L \<le> ilog2 m"
    then have "(2 :: rat) powi (ilog2 m + 1) \<le> 2 powi ?L" by (intro powi_2_mono) simp
    moreover have "0 < m" using m(3) powi_2_pos[of ?L] by linarith
    ultimately show False using m(3) ilog2_bounds[of m] by linarith
  qed
  have ulp: "(2 :: rat) powi (?L - 53) = 2 powi ?L / 2 ^ 53" by (simp add: power_int_diff)
  have "2 powi ?L / 2 ^ 53 \<le> ?x / 2 ^ 53" using l(1) by (rule divide_right_mono) simp
  then have up: "m \<le> ?x + ?x / 2 ^ 53" using m(2) unfolding ulp by linarith
  have four: "m < (2 * of_nat p) ^ 2"
  proof -
    have "of_nat p + 1 \<le> (3 / 2 :: rat) * of_nat p" using of_nat_mono[OF p2', where 'a = rat] by simp
    then have "(of_nat p + 1) ^ 2 \<le> ((3 / 2 :: rat) * of_nat p) ^ 2" by (intro power_mono) simp_all
    also have "\<dots> = (9 / 4) * of_nat p ^ 2" by (simp add: power2_eq_square)
    finally have "?x < (9 / 4) * of_nat p ^ 2" using p2(2) by (rule order_less_le_trans[rotated])
    then show ?thesis using up p2(1) by (simp add: power_mult_distrib)
  qed
  have cover: "\<bar>m - ?x\<bar> \<le> of_nat Q ^ 2 / 2 ^ 53 \<or> of_nat Q + 1 \<le> (of_nat p :: rat) \<and> \<bar>m - ?x\<bar> \<le> 2 * of_nat Q ^ 2 / 2 ^ 53"
  proof (cases "n < 2 ^ 53")
    case True
    then have "m = ?x" using floatOfInt_exact[of n] n(1) m(1) by (simp add: floatOfInt_def)
    then show ?thesis by simp
  next
    case big: False
    show ?thesis
    proof (cases "?L = 2 * j")
      case True
      then show ?thesis using m(2) unfolding ulp q2 by simp
    next
      case False
      then have L: "?L = 1 + 2 * j" unfolding j_def by presburger
      have two: "2 powi ?L = 2 * (of_nat Q :: rat) ^ 2" unfolding q2 L by (simp add: power_int_add)
      have "of_int (2 * int Q ^ 2) \<le> ?x" using l(1) unfolding two by simp
      then have dbl: "2 * int Q ^ 2 \<le> n" by (simp only: of_int_le_iff)
      have "52 \<le> ?L"
      proof (rule ccontr)
        assume "\<not> 52 \<le> ?L"
        then have "(2 :: rat) powi (?L + 1) \<le> 2 powi 52" by (intro powi_2_mono) simp
        then have "?x < of_int (2 ^ 52)" using l(2) by simp
        then have "n < 2 ^ 52" by (simp only: of_int_less_iff)
        then show False using big by simp
      qed
      then have "2 \<le> nat j" using j_def by linarith
      then have "2 ^ 2 \<le> Q" unfolding Q_def by (intro power_increasing) simp_all
      then have Q4: "4 \<le> int Q" by simp
      then have "4 * int Q \<le> int Q * int Q" by (intro mult_right_mono) simp_all
      then have "(int Q + 1) ^ 2 \<le> 2 * int Q ^ 2" using Q4 unfolding power2_eq_square distrib_left distrib_right by linarith
      then have "int (Q + 1) ^ 2 \<le> n" using dbl by (simp add: add.commute)
      then have "Q + 1 \<le> p" by (rule root)
      then have "of_nat Q + 1 \<le> (of_nat p :: rat)" using of_nat_mono[where 'a = rat] by fastforce
      then show ?thesis using m(2) unfolding ulp two by simp
    qed
  qed
  show thesis
  proof
    show "floatOfInt n = Fin m" using m(1) by (simp add: floatOfInt_def)
    show "0 \<le> j" "j \<le> 31" "2 \<le> p" using j p2' by simp_all
    show "2 * j \<le> ilog2 m" using Lm unfolding j_def by linarith
    show "m < 2 ^ 64" using up x(2) by simp
    show "(2 :: rat) powi j \<le> of_nat p" unfolding q by (rule qr(3))
    show "(of_nat p - 2 powi j / 2 ^ 53) ^ 2 < m" unfolding q by (rule error_covered[OF qr p2(1) cover])
    show "m < (2 * of_nat p) ^ 2" by (rule four)
  qed
qed


text \<open>The integer part of \<open>math.Sqrt(float64(n))\<close>.\<close>

definition intOfSqrt :: "int \<Rightarrow> int" where
  "intOfSqrt n = (case sqrtF64 (floatOfInt n) of Fin y \<Rightarrow> truncRat y | _ \<Rightarrow> 0)"

lemma intOfSqrt_bounds:
  assumes "4 \<le> n" "n < 2 ^ 63"
  defines "p \<equiv> isqrt (nat n)"
  shows "int p \<le> intOfSqrt n" "intOfSqrt n \<le> 2 * int p"
proof -
  obtain m j where m: "floatOfInt n = Fin m" "0 \<le> j" "j \<le> 31" "2 * j \<le> ilog2 m" "m < 2 ^ 64"
    "(2 :: rat) powi j \<le> of_nat p" "(of_nat p - 2 powi j / 2 ^ 53) ^ 2 < m" "m < (2 * of_nat p) ^ 2" "2 \<le> p"
    unfolding p_def using converted_bounds[OF assms(1,2)] by blast
  have m0: "0 < m" using m(7) by (rule order_le_less_trans[OF zero_le_power2])
  define k where "k = ilog2 m div 2"
  have k: "j \<le> k" "k \<le> 31"
  proof -
    show "j \<le> k" using m(4) unfolding k_def by linarith
    have "ilog2 m < 64"
    proof (rule ccontr)
      assume "\<not> ilog2 m < 64"
      then have "(2 :: rat) powi 64 \<le> 2 powi ilog2 m" by (intro powi_2_mono) simp
      then show False using ilog2_bounds[OF m0] m(5) by simp
    qed
    then show "k \<le> 31" unfolding k_def by linarith
  qed
  let ?c = "(2 :: rat) powi (k - 52)"
  define d where "d = (2 :: int) ^ nat (52 - k)"
  have neg: "(2 :: rat) powi (- int i) = 1 / 2 ^ i" for i by (simp add: power_int_minus divide_inverse)
  have "k - 52 = - int (nat (52 - k))" using k by simp
  then have c: "?c = 1 / of_int d" unfolding d_def using neg[of "nat (52 - k)"] by simp
  have d0: "0 < (of_int d :: rat)" by (simp add: d_def)
  have "2 powi j / 2 ^ 53 \<le> ?c / 2"
  proof -
    have "(2 :: rat) powi j \<le> 2 powi k" using k by (intro powi_2_mono)
    then show ?thesis by (simp add: power_int_diff divide_right_mono)
  qed
  moreover have "?c / 2 \<le> of_nat p"
  proof -
    have "?c \<le> 2 powi 0" using k by (intro powi_2_mono) simp
    moreover have "1 \<le> (of_nat p :: rat)" using m(9) by simp
    ultimately show ?thesis by simp
  qed
  ultimately have "(of_nat p - ?c / 2) ^ 2 \<le> (of_nat p - 2 powi j / 2 ^ 53) ^ 2" by (intro power_mono) linarith+
  then have lo: "(of_nat p - ?c / 2) ^ 2 < m" using m(7) by linarith
  define y where "y = m / ?c ^ 2"
  have y: "y = m * of_int d ^ 2" by (simp add: y_def c power_divide)
  have "of_int (int p * d) - 1 / 2 = (of_nat p - ?c / 2) * of_int d" using d0 by (simp add: c left_diff_distrib)
  then have "(of_int (int p * d) - 1 / 2) ^ 2 = ((of_nat p - ?c / 2) * of_int d) ^ 2" by (simp only:)
  also have "\<dots> < y" unfolding y power_mult_distrib using lo d0 by (intro mult_strict_right_mono) simp_all
  finally have ge: "int p * d \<le> roundSqrt y" using m0 d0 by (intro roundSqrt_ge) (simp_all add: y)
  have "y < (of_int (2 * int p * d)) ^ 2" unfolding y using m(8) d0 by (simp add: power_mult_distrib)
  then have le: "roundSqrt y \<le> 2 * int p * d" using m0 d0 by (intro roundSqrt_le) (simp_all add: y)
  let ?s = "of_int (roundSqrt y) * ?c"
  have s: "sqrtF64 (floatOfInt n) = Fin ?s" using m0 by (simp add: m(1) Let_def y_def k_def)
  have "of_int (int p * d) * ?c \<le> ?s" "?s \<le> of_int (2 * int p * d) * ?c"
    using ge le by (intro mult_right_mono; simp only: of_int_le_iff powi_2_pos less_imp_le)+
  then have b: "of_nat p \<le> ?s" "?s \<le> 2 * of_nat p" using d0 by (simp_all add: c)
  then have "0 \<le> ?s" by linarith
  then have "intOfSqrt n = \<lfloor>?s\<rfloor>" by (simp add: intOfSqrt_def s truncRat_def)
  moreover have "of_int (int p) \<le> ?s" "?s < of_int (2 * int p + 1)" using b by simp_all
  then have "int p \<le> \<lfloor>?s\<rfloor>" "\<lfloor>?s\<rfloor> < 2 * int p + 1" by (simp_all only: le_floor_iff floor_less_iff)
  ultimately show "int p \<le> intOfSqrt n" "intOfSqrt n \<le> 2 * int p" by simp_all
qed

end
