(* ===== verification/Prime_Time.thy ===== *)
theory Prime_Time
  imports Go_Json Go_Framing Go_Sqrt "HOL-Library.Signed_Division"
begin

text \<open>
  \<open>internal/primetime/primetime.go\<close>: the prime test and the connection of the prime server. \<open>int\<close> is a 64-bit
  integer, with its wrap-around written out; the loop of the test is a partial function, so that it returns
  is proved and not assumed. The JSON grammar and the texts of its errors are parameters.
\<close>

section \<open>The prime test\<close>

definition wrap64 :: "int \<Rightarrow> int" where
  "wrap64 x = (x + 2 ^ 63) mod 2 ^ 64 - 2 ^ 63"

text \<open>No value of the loop variable is zero or \<open>-2\<close>: the divisions do not panic.\<close>

partial_function (option) primeLoop :: "int \<Rightarrow> int \<Rightarrow> int \<Rightarrow> bool option" where
  [code]: "primeLoop n sqrtN i =
     (if i \<le> sqrtN then
        (if n smod i = 0 \<or> n smod wrap64 (i + 2) = 0 then Some False else primeLoop n sqrtN (wrap64 (i + 6)))
      else Some True)"

definition IsPrime :: "int \<Rightarrow> bool option" where
  "IsPrime n =
     (if n \<le> 1 then Some False
      else if n \<le> 3 then Some True
      else if n smod 2 = 0 \<or> n smod 3 = 0 then Some False
      else primeLoop n (intOfSqrt n) 5)"

definition prime_number :: "int \<Rightarrow> bool" where
  "prime_number n \<longleftrightarrow> 1 < n \<and> (\<forall>d. 0 < d \<and> d dvd n \<longrightarrow> d = 1 \<or> d = n)"

lemma wrap64_id: "- (2 ^ 63) \<le> x \<Longrightarrow> x < 2 ^ 63 \<Longrightarrow> wrap64 x = x"
  by (simp add: wrap64_def)

lemma smod_zero_iff: "0 < n \<Longrightarrow> 0 < i \<Longrightarrow> n smod i = 0 \<longleftrightarrow> i dvd (n :: int)"
  by (simp add: signed_modulo_int_def signed_divide_int_def dvd_eq_mod_eq_0 minus_mult_div_eq_mod)

lemma step_class:
  fixes i j :: int
  shows "i mod 6 = 5 \<Longrightarrow> i \<le> j \<and> j mod 6 = 5 \<longleftrightarrow> j = i \<or> i + 6 \<le> j \<and> j mod 6 = 5"
  by presburger

text \<open>What the loop finds from a candidate on.\<close>

lemma primeLoop_spec:
  assumes "0 < n" "5 \<le> i" "i mod 6 = 5" "s \<le> 2 ^ 62" "i \<le> s + 6"
  shows "primeLoop n s i = Some (\<forall>j. i \<le> j \<and> j \<le> s \<and> j mod 6 = 5 \<longrightarrow> \<not> j dvd n \<and> \<not> (j + 2) dvd n)"
  using assms(2,3,5)
proof (induction "nat (s + 7 - i)" arbitrary: i rule: less_induct)
  case less
  have w: "wrap64 (i + 2) = i + 2" "wrap64 (i + 6) = i + 6" using less.prems assms(4) by (auto intro!: wrap64_id)
  have d: "n smod i = 0 \<longleftrightarrow> i dvd n" "n smod (i + 2) = 0 \<longleftrightarrow> (i + 2) dvd n"
    using less.prems(1) assms(1) by (simp_all add: smod_zero_iff)
  show ?case
  proof (cases "i \<le> s \<and> \<not> i dvd n \<and> \<not> (i + 2) dvd n")
    case True
    then have "i \<le> s" by simp
    have m: "(i + 6) mod 6 = 5" using less.prems(2) by simp
    have "primeLoop n s (i + 6) = Some (\<forall>j. i + 6 \<le> j \<and> j \<le> s \<and> j mod 6 = 5 \<longrightarrow> \<not> j dvd n \<and> \<not> (j + 2) dvd n)"
      by (rule less.hyps) (use True less.prems m in auto)
    moreover have next_iff: "i \<le> j \<and> j \<le> s \<and> j mod 6 = 5 \<longleftrightarrow> j = i \<or> i + 6 \<le> j \<and> j \<le> s \<and> j mod 6 = 5" for j
      using step_class[of i j] less.prems(2) \<open>i \<le> s\<close> by (meson order_trans)
    have "(\<forall>j. i \<le> j \<and> j \<le> s \<and> j mod 6 = 5 \<longrightarrow> \<not> j dvd n \<and> \<not> (j + 2) dvd n) \<longleftrightarrow>
      (\<forall>j. i + 6 \<le> j \<and> j \<le> s \<and> j mod 6 = 5 \<longrightarrow> \<not> j dvd n \<and> \<not> (j + 2) dvd n)" unfolding next_iff using True by blast
    ultimately show ?thesis using True by (subst primeLoop.simps) (simp add: w d)
  next
    case False
    then show ?thesis using less.prems(2) by (subst primeLoop.simps) (auto simp: w d)
  qed
qed

text \<open>A composite number has a divisor up to its root that is not divisible by a smaller one.\<close>

lemma least_divisor:
  assumes "1 < n" "\<not> prime_number n"
  obtains d where "1 < d" "d dvd n" "d * d \<le> n" "\<And>e. 1 < e \<Longrightarrow> e dvd n \<Longrightarrow> d \<le> e"
proof -
  let ?P = "\<lambda>m :: nat. 1 < m \<and> int m dvd n"
  have "?P (nat n)" using assms(1) by simp
  define m where "m = (LEAST m. ?P m)"
  have m: "1 < m" "int m dvd n" using LeastI[of ?P, OF \<open>?P (nat n)\<close>] unfolding m_def by blast+
  have least: "int m \<le> e" if "1 < e" "e dvd n" for e
  proof -
    have "m \<le> nat e" unfolding m_def by (rule Least_le) (use that in simp)
    then show ?thesis using that by linarith
  qed
  obtain c where c: "0 < c" "c dvd n" "c \<noteq> 1" "c \<noteq> n" using assms by (auto simp: prime_number_def)
  obtain k where k: "n = int m * k" using m(2) by (auto elim: dvdE)
  have "0 < k" using k assms(1) m(1) zero_less_mult_pos by (metis order_less_trans of_nat_0_less_iff zero_less_one)
  moreover have "k \<noteq> 1"
  proof
    assume "k = 1"
    then have "n \<le> c" using least[of c] c k by simp
    moreover have "c \<le> n" using c(2) assms(1) by (auto intro: zdvd_imp_le)
    ultimately show False using c(4) by simp
  qed
  ultimately have "int m \<le> k" using k by (intro least) auto
  then have "int m * int m \<le> n" unfolding k by (intro mult_left_mono) auto
  then show thesis using that[of "int m"] m least by auto
qed


lemma composite: "c dvd n \<Longrightarrow> 1 < c \<Longrightarrow> c < n \<Longrightarrow> \<not> prime_number n"
  by (auto simp: prime_number_def intro!: exI[of _ c])

lemma small_primes: "n \<le> 3 \<Longrightarrow> prime_number n \<longleftrightarrow> n = 2 \<or> n = 3"
proof -
  assume "n \<le> 3"
  moreover have "prime_number 2" unfolding prime_number_def
  proof (intro conjI allI impI)
    fix d :: int assume d: "0 < d \<and> d dvd 2"
    then have "d \<le> 2" by (auto intro: zdvd_imp_le)
    then show "d = 1 \<or> d = 2" using d by linarith
  qed simp
  moreover have "prime_number 3" unfolding prime_number_def
  proof (intro conjI allI impI)
    fix d :: int assume d: "0 < d \<and> d dvd 3"
    then have "d \<le> 3" by (auto intro: zdvd_imp_le)
    moreover have "d \<noteq> 2" using d by auto
    ultimately show "d = 1 \<or> d = 3" using d by linarith
  qed simp
  ultimately show ?thesis by (auto simp: prime_number_def)
qed

text \<open>The candidates of the loop decide the numbers that are not divisible by two or three.\<close>

lemma candidates_decide:
  assumes "3 < n" "\<not> 2 dvd n" "\<not> 3 dvd n" "int (isqrt (nat n)) \<le> s" "s \<le> 2 * int (isqrt (nat n))"
  shows "(\<forall>j. 5 \<le> j \<and> j \<le> s \<and> j mod 6 = 5 \<longrightarrow> \<not> j dvd n \<and> \<not> (j + 2) dvd n) \<longleftrightarrow> prime_number n"
proof -
  let ?p = "int (isqrt (nat n))"
  have "isqrt (nat n) ^ 2 \<le> nat n" "nat n < (isqrt (nat n) + 1) ^ 2" using isqrt_bounds by blast+
  then have p: "?p * ?p \<le> n" "n < (?p + 1) ^ 2"
    using assms(1) by (simp_all add: le_nat_iff nat_less_iff power2_eq_square algebra_simps)
  show ?thesis
  proof
    assume pr: "prime_number n"
    show "\<forall>j. 5 \<le> j \<and> j \<le> s \<and> j mod 6 = 5 \<longrightarrow> \<not> j dvd n \<and> \<not> (j + 2) dvd n"
    proof (intro allI impI)
      fix j assume j: "5 \<le> j \<and> j \<le> s \<and> j mod 6 = 5"
      then have "3 \<le> ?p" using assms(5) by linarith
      then have "3 * ?p \<le> ?p * ?p" by (intro mult_right_mono) simp_all
      then have "j + 2 < n" using p(1) j assms(5) \<open>3 \<le> ?p\<close> by linarith
      then show "\<not> j dvd n \<and> \<not> (j + 2) dvd n" using pr j composite[of j n] composite[of "j + 2" n] by auto
    qed
  next
    assume none: "\<forall>j. 5 \<le> j \<and> j \<le> s \<and> j mod 6 = 5 \<longrightarrow> \<not> j dvd n \<and> \<not> (j + 2) dvd n"
    show "prime_number n"
    proof (rule ccontr)
      assume "\<not> prime_number n"
      then obtain d where d: "1 < d" "d dvd n" "d * d \<le> n" using least_divisor assms(1) by (metis less_trans numeral_less_iff one_less_numeral_iff semiring_norm(77))
      have "d ^ 2 < (?p + 1) ^ 2" using d(3) p(2) by (simp add: power2_eq_square)
      then have "d < ?p + 1" by (rule power_less_imp_less_base) simp
      then have ds: "d \<le> s" using assms(4) by simp
      have nd: "\<not> 2 dvd d" "\<not> 3 dvd d" using assms(2,3) d(2) dvd_trans by blast+
      then have m: "d mod 6 = 5 \<or> d mod 6 = 1" by presburger
      show False
      proof (cases "d mod 6 = 5")
        case True
        then have "5 \<le> d" using d(1) by presburger
        then show False using none d(2) ds True by blast
      next
        case False
        then have "d mod 6 = 1" using m by simp
        then have "5 \<le> d - 2" "(d - 2) mod 6 = 5" using d(1) by presburger+
        moreover have "d - 2 \<le> s" "(d - 2) + 2 = d" using ds by simp_all
        ultimately show False using none d(2) by metis
      qed
    qed
  qed
qed

lemma IsPrime_eq:
  assumes "- (2 ^ 63) \<le> n" "n < 2 ^ 63"
  shows "IsPrime n = Some (prime_number n)"
proof (cases "n \<le> 3 \<or> 2 dvd n \<or> 3 dvd n")
  case True
  show ?thesis
  proof (cases "n \<le> 3")
    case le: True
    then have "IsPrime n = Some (n = 2 \<or> n = 3)" by (auto simp: IsPrime_def)
    then show ?thesis using small_primes[OF le] by (simp only:)
  next
    case False
    then have "IsPrime n = Some False" using True by (auto simp: IsPrime_def smod_zero_iff)
    moreover have "\<not> prime_number n" using False True composite[of 2 n] composite[of 3 n] by auto
    ultimately show ?thesis by simp
  qed
next
  case False
  then have n: "3 < n" "\<not> 2 dvd n" "\<not> 3 dvd n" by auto
  note b = intOfSqrt_bounds[of n]
  have p31: "isqrt (nat n) < 2 ^ 32"
  proof (rule power_less_imp_less_base)
    have "nat n < 2 ^ 63" using assms(2) n(1) by (simp add: nat_less_iff)
    then show "isqrt (nat n) ^ 2 < (2 ^ 32) ^ 2" using isqrt_bounds[of "nat n"] by simp
  qed simp
  then have "int (isqrt (nat n)) < 2 ^ 32" using of_nat_less_iff[of "isqrt (nat n)" "2 ^ 32", where 'a = int] by simp
  then have s: "intOfSqrt n \<le> 2 ^ 62" "0 \<le> intOfSqrt n" using b n(1) assms(2) by simp_all
  have "IsPrime n = primeLoop n (intOfSqrt n) 5" using n by (simp add: IsPrime_def smod_zero_iff)
  also have "\<dots> = Some (prime_number n)"
    using primeLoop_spec[of n 5 "intOfSqrt n"] candidates_decide[OF n] b n(1) assms(2) s by simp
  finally show ?thesis .
qed

text \<open>C34: The prime test is right for every \<open>int\<close> of Go: it returns, and its answer is whether the number has exactly
  the divisors one and itself, although it tries only the candidates \<open>6 k - 1\<close> and \<open>6 k + 1\<close> up to a root
  computed in floating point from a number that may have been rounded.\<close>

theorem IsPrime_decides:
  assumes "- (2 ^ 63) \<le> n" "n < 2 ^ 63"
  shows "IsPrime n = Some (prime_number n)"
  using assms by (rule IsPrime_eq)

theorem IsPrime_decides_witness: "IsPrime 97 = Some (prime_number 97) \<and> IsPrime (91 * 89) = Some False"
proof -
  have "\<not> prime_number (91 * 89)" by (rule composite[of 89]) simp_all
  then show ?thesis using IsPrime_decides[of 97] IsPrime_decides[of "91 * 89"] by simp
qed

section \<open>Requests\<close>

text \<open>
  What \<open>json.Unmarshal\<close> puts into an \<open>any\<close>: a number becomes a \<open>float64\<close>, the value of its literal rounded; a number
  too large for one is an error, wherever it stands.
\<close>

definition literalValue :: "string \<Rightarrow> rat option" where
  "literalValue lit =
     (let neg = (take 1 lit = ''-'');
          body = (if neg then tl lit else lit);
          mantissa = takeWhile (\<lambda>c. c \<noteq> CHR ''e'' \<and> c \<noteq> CHR ''E'') body;
          expPart = drop (length mantissa + 1) body;
          whole = takeWhile (\<lambda>c. c \<noteq> CHR ''.'') mantissa;
          fraction = drop (length whole + 1) mantissa;
          expSign = (if take 1 expPart = ''-'' then - 1 else 1);
          expDigits = (if take 1 expPart = ''-'' \<or> take 1 expPart = ''+'' then tl expPart else expPart)
      in case (digitsVal 0 (whole @ fraction), digitsVal 0 expDigits) of
           (Some m, Some e) \<Rightarrow> Some ((if neg then - 1 else 1) * of_nat m * 10 powi (expSign * int e - int (length fraction)))
         | _ \<Rightarrow> None)"

definition ParseFloat :: "string \<Rightarrow> f64 option" where
  "ParseFloat lit =
     (case literalValue lit of
        None \<Rightarrow> None
      | Some x \<Rightarrow> (case roundF64 x of Fin y \<Rightarrow> Some (Fin y) | _ \<Rightarrow> None))"

fun numbersFit :: "json \<Rightarrow> bool" where
  "numbersFit (JNumber lit) \<longleftrightarrow> ParseFloat lit \<noteq> None"
| "numbersFit (JArray vs) \<longleftrightarrow> (\<forall>v\<in>set vs. numbersFit v)"
| "numbersFit (JObject kvs) \<longleftrightarrow> (\<forall>kv\<in>set kvs. numbersFit (snd kv))"
| "numbersFit _ \<longleftrightarrow> True"

datatype goAny = NilAny | Float64 f64 | OtherAny

fun decodeAny :: "json \<Rightarrow> goAny option" where
  "decodeAny JNull = Some NilAny"
| "decodeAny (JNumber lit) = map_option Float64 (ParseFloat lit)"
| "decodeAny v = (if numbersFit v then Some OtherAny else None)"

record PrimeRequest =
  pq_Method :: string
  pq_Number :: goAny

record PrimeResponse =
  ps_Method :: string
  ps_Prime :: bool

definition primeFields :: "PrimeRequest fields" where
  "primeFields =
     [(''method'', \<lambda>v s. map_option (\<lambda>x. s\<lparr>pq_Method := x\<rparr>) (decodeString v (pq_Method s))),
      (''number'', \<lambda>v s. map_option (\<lambda>x. s\<lparr>pq_Number := x\<rparr>) (decodeAny v))]"

text \<open>An error is its text; \<open>jsonError\<close> gives that of \<open>json.Unmarshal\<close>.\<close>

definition decodeJson :: "(string \<Rightarrow> json option) \<Rightarrow> (string \<Rightarrow> string) \<Rightarrow> string \<Rightarrow> string + PrimeRequest" where
  "decodeJson syntax jsonError data =
     (case (case syntax data of
              None \<Rightarrow> None
            | Some v \<Rightarrow> decodeStruct primeFields \<lparr>pq_Method = '''', pq_Number = NilAny\<rparr> v) of
        None \<Rightarrow> Inl (jsonError data)
      | Some request \<Rightarrow>
          if pq_Number request = NilAny then Inl ''no number provided''
          else
            (case pq_Number request of
               Float64 _ \<Rightarrow> Inr request
             | _ \<Rightarrow> Inl ''number field did not contain a number''))"

definition encodeJson :: "PrimeResponse \<Rightarrow> string" where
  "encodeJson response =
     ''{'' @ [CHR 0x22] @ ''method'' @ [CHR 0x22] @ '':'' @ [CHR 0x22] @ ps_Method response @ [CHR 0x22] @ '','' @
     [CHR 0x22] @ ''prime'' @ [CHR 0x22] @ '':'' @ (if ps_Prime response then ''true'' else ''false'') @ ''}''"

text \<open>
  The conversion \<open>int(number)\<close>; what it gives for a number outside the range of \<open>int\<close> is left to the platform, here
  the argument \<open>outside\<close>.
\<close>

definition intOfFloat :: "(rat \<Rightarrow> int) \<Rightarrow> rat \<Rightarrow> int" where
  "intOfFloat outside x = (if - (2 ^ 63) \<le> truncRat x \<and> truncRat x < 2 ^ 63 then truncRat x else outside x)"

text \<open>The inner option is that of \<open>IsPrime\<close>.\<close>

definition createResponse :: "(rat \<Rightarrow> int) \<Rightarrow> PrimeRequest \<Rightarrow> string + PrimeResponse option" where
  "createResponse outside request =
     (if pq_Method request \<noteq> ''isPrime'' then Inl (''unknown request '' @ pq_Method request)
      else
        Inr (map_option (\<lambda>primeResult. \<lparr>ps_Method = ''isPrime'', ps_Prime = primeResult\<rparr>)
          (case pq_Number request of
             Float64 (Fin number) \<Rightarrow>
               if 0 < number \<and> of_int (truncRat number) = number then IsPrime (intOfFloat outside number) else Some False
           | _ \<Rightarrow> Some False)))"

section \<open>The connection\<close>

definition endOfLine :: char where
  "endOfLine = char_of (10 :: nat)"

text \<open>The text written for one request, and whether the connection goes on; none when the test does not return.\<close>

definition isPrimeResponse ::
  "(string \<Rightarrow> json option) \<Rightarrow> (string \<Rightarrow> string) \<Rightarrow> (rat \<Rightarrow> int) \<Rightarrow> string \<Rightarrow> (string \<times> bool) option" where
  "isPrimeResponse syntax jsonError outside request =
     (case decodeJson syntax jsonError request of
        Inl err \<Rightarrow> Some (''Failed to parse recieved json. Closing connection. REASON: '' @ err, False)
      | Inr requestStruct \<Rightarrow>
          (case createResponse outside requestStruct of
             Inl err \<Rightarrow> Some ('''', False)
           | Inr None \<Rightarrow> None
           | Inr (Some response) \<Rightarrow> Some (encodeJson response @ [endOfLine], True)))"

text \<open>All that a connection writes, for the stream of a client that then closes its side.\<close>

function primeConnection ::
  "(string \<Rightarrow> json option) \<Rightarrow> (string \<Rightarrow> string) \<Rightarrow> (rat \<Rightarrow> int) \<Rightarrow> string \<Rightarrow> string option" where
  "primeConnection syntax jsonError outside stream =
     (case takeLine endOfLine stream of
        None \<Rightarrow> Some ''''
      | Some (requestBytes, rest) \<Rightarrow>
          (case isPrimeResponse syntax jsonError outside requestBytes of
             None \<Rightarrow> None
           | Some (written, goOn) \<Rightarrow>
               if goOn then map_option (\<lambda>later. written @ later) (primeConnection syntax jsonError outside rest) else Some written))"
  by pat_completeness auto
termination
  by (relation "measure (\<lambda>(syntax, jsonError, outside, stream). length stream)") (auto dest: takeLine_Some)

declare primeConnection.simps [simp del]

definition isPrimeValue :: "rat \<Rightarrow> bool" where
  "isPrimeValue x \<longleftrightarrow> (\<exists>n. x = of_int n \<and> prime_number n)"

definition primeAnswer :: "rat \<Rightarrow> string" where
  "primeAnswer x = encodeJson \<lparr>ps_Method = ''isPrime'', ps_Prime = isPrimeValue x\<rparr> @ [endOfLine]"

lemma createResponse_value:
  assumes "x < 2 ^ 63"
  shows "createResponse outside \<lparr>pq_Method = ''isPrime'', pq_Number = Float64 (Fin x)\<rparr> =
    Inr (Some \<lparr>ps_Method = ''isPrime'', ps_Prime = isPrimeValue x\<rparr>)"
proof (cases "0 < x \<and> of_int (truncRat x) = x")
  case True
  have "x < of_int (2 ^ 63)" using assms by simp
  then have "truncRat x < 2 ^ 63" using True by (metis of_int_less_iff)
  moreover have "0 < (of_int (truncRat x) :: rat)" using True by simp
  then have "0 < truncRat x" by (simp only: of_int_0_less_iff)
  ultimately have "intOfFloat outside x = truncRat x" "IsPrime (truncRat x) = Some (prime_number (truncRat x))"
    by (simp_all add: intOfFloat_def IsPrime_eq)
  moreover have "isPrimeValue x \<longleftrightarrow> prime_number (truncRat x)" using True unfolding isPrimeValue_def by (metis of_int_eq_iff)
  ultimately show ?thesis using True by (simp add: createResponse_def)
next
  case False
  have "\<not> isPrimeValue x"
  proof
    assume "isPrimeValue x"
    then obtain n where "x = of_int n" "1 < n" by (auto simp: isPrimeValue_def prime_number_def)
    then show False using False by (simp add: truncRat_def)
  qed
  then show ?thesis using False by (auto simp: createResponse_def)
qed

lemma takeLine_line: "sep \<notin> set line \<Longrightarrow> takeLine sep (line @ sep # rest) = Some (line @ [sep], rest)"
proof -
  assume a: "sep \<notin> set line"
  have "find_index (\<lambda>b. b = sep) (line @ sep # rest) = Some (length line)"
    using a by (induction line) auto
  then show ?thesis by (simp add: takeLine_def)
qed

lemma takeLine_no_sep: "sep \<notin> set xs \<Longrightarrow> takeLine sep xs = None"
  by (auto simp: takeLine_def find_index_None split: option.splits dest!: find_index_Some)

text \<open>C35: A connection answers its well-formed requests, in order, with whether the number (the decimal literal as
  the nearest \<open>float64\<close>, as long as that is below \<open>2 ^ 63\<close>) is a prime, as long as its writes succeed. When the stream ends in the
  middle of a line it writes nothing more. The first line that does not decode is answered with the reason, and the first
  request with another method with nothing at all; after either it reads no more.\<close>

theorem prime_connection_answers:
  assumes "list_all2 (\<lambda>line x. endOfLine \<notin> set line \<and> x < 2 ^ 63 \<and>
      decodeJson syntax jsonError (line @ [endOfLine]) = Inr \<lparr>pq_Method = ''isPrime'', pq_Number = Float64 (Fin x)\<rparr>) lines xs"
    and "(endOfLine \<notin> set ending \<and> final = '''') \<or>
      (\<exists>bad rest. ending = bad @ [endOfLine] @ rest \<and> endOfLine \<notin> set bad \<and>
        ((\<exists>reason. decodeJson syntax jsonError (bad @ [endOfLine]) = Inl reason \<and>
            final = ''Failed to parse recieved json. Closing connection. REASON: '' @ reason) \<or>
         (\<exists>request. decodeJson syntax jsonError (bad @ [endOfLine]) = Inr request \<and> pq_Method request \<noteq> ''isPrime'' \<and>
            final = '''')))"
  shows "primeConnection syntax jsonError outside (concat (map (\<lambda>line. line @ [endOfLine]) lines) @ ending) =
    Some (concat (map primeAnswer xs) @ final)"
  using assms(1)
proof (induction rule: list_all2_induct)
  case Nil
  from assms(2) have "primeConnection syntax jsonError outside ending = Some final"
  proof (elim disjE conjE exE)
    assume "endOfLine \<notin> set ending" "final = ''''"
    then show ?thesis by (subst primeConnection.simps) (simp add: takeLine_no_sep)
  next
    fix bad rest reason
    assume "ending = bad @ [endOfLine] @ rest" "endOfLine \<notin> set bad" "decodeJson syntax jsonError (bad @ [endOfLine]) = Inl reason"
      "final = ''Failed to parse recieved json. Closing connection. REASON: '' @ reason"
    then show ?thesis by (subst primeConnection.simps) (simp add: takeLine_line isPrimeResponse_def)
  next
    fix bad rest request
    assume "ending = bad @ [endOfLine] @ rest" "endOfLine \<notin> set bad" "decodeJson syntax jsonError (bad @ [endOfLine]) = Inr request"
      "pq_Method request \<noteq> ''isPrime''" "final = ''''"
    then show ?thesis by (subst primeConnection.simps) (simp add: takeLine_line isPrimeResponse_def createResponse_def)
  qed
  then show ?case by simp
next
  case (Cons line lines x xs)
  have l: "endOfLine \<notin> set line" using Cons(1) by blast
  have "isPrimeResponse syntax jsonError outside (line @ [endOfLine]) = Some (primeAnswer x, True)"
    using Cons(1) by (simp add: isPrimeResponse_def createResponse_value primeAnswer_def)
  then show ?case using Cons(3) by (subst primeConnection.simps) (simp add: takeLine_line[OF l])
qed

definition sampleRequest :: "string \<Rightarrow> json" where
  "sampleRequest lit = JObject [(''method'', JString ''isPrime''), (''number'', JNumber lit)]"

definition sampleSyntax :: "string \<Rightarrow> json option" where
  "sampleSyntax s =
     (if s = ''seven'' @ [endOfLine] then Some (sampleRequest ''7'')
      else if s = ''eight'' @ [endOfLine] then Some (sampleRequest ''8'') else None)"

lemma sample_literals: "literalValue ''7'' = Some 7" "literalValue ''8'' = Some 8"
  by code_simp+

lemma sample_decodes:
  "decodeJson sampleSyntax e (''seven'' @ [endOfLine]) = Inr \<lparr>pq_Method = ''isPrime'', pq_Number = Float64 (Fin 7)\<rparr>"
  "decodeJson sampleSyntax e (''eight'' @ [endOfLine]) = Inr \<lparr>pq_Method = ''isPrime'', pq_Number = Float64 (Fin 8)\<rparr>"
  "decodeJson sampleSyntax e (''{'' @ [endOfLine]) = Inl (e (''{'' @ [endOfLine]))"
  by (simp_all add: decodeJson_def sampleSyntax_def sampleRequest_def decodeStruct_def primeFields_def fieldFor_def ParseFloat_def
      sample_literals)

theorem prime_connection_answers_witness:
  "primeConnection sampleSyntax (\<lambda>_. ''unexpected end'') (\<lambda>_. 0) (''seven'' @ [endOfLine] @ ''eight'' @ [endOfLine] @ ''{'' @ [endOfLine]) =
   Some (primeAnswer 7 @ primeAnswer 8 @ ''Failed to parse recieved json. Closing connection. REASON: '' @ ''unexpected end'')"
proof -
  have "list_all2 (\<lambda>line x. endOfLine \<notin> set line \<and> x < 2 ^ 63 \<and>
      decodeJson sampleSyntax (\<lambda>_. ''unexpected end'') (line @ [endOfLine]) = Inr \<lparr>pq_Method = ''isPrime'', pq_Number = Float64 (Fin x)\<rparr>)
    [''seven'', ''eight''] [7, 8]"
    unfolding list_all2_Cons list_all2_Nil sample_decodes by (simp add: endOfLine_def char_of_def)
  moreover have "endOfLine \<notin> set ''{''" by (simp add: endOfLine_def char_of_def)
  ultimately show ?thesis
    using prime_connection_answers[where lines = "[''seven'', ''eight'']" and xs = "[7, 8]" and ending = "''{'' @ [endOfLine]"
        and final = "''Failed to parse recieved json. Closing connection. REASON: '' @ ''unexpected end''"]
      sample_decodes(3)[of "\<lambda>_. ''unexpected end''"] by fastforce
qed

end
