(* ===== verification/Means_To_End.thy ===== *)
theory Means_To_End
  imports Go_Bytes "HOL-Library.AList" "HOL-Library.Signed_Division"
begin

text \<open>
  \<open>internal/meanstoanend/meanstoanend.go\<close>: nine-byte messages that insert a price or ask for the mean of a period.
  \<open>int32\<close> and \<open>int64\<close> are words of these widths read as signed numbers. The order in which Go visits the entries of
  the map is an argument.
\<close>

section \<open>Messages\<close>

datatype mteType = Insert | Query | Unknown

record mteMessage =
  mt_Type :: mteType
  mt_First :: "32 word"
  mt_Second :: "32 word"

definition extractMessage :: "bytes \<Rightarrow> mteMessage" where
  "extractMessage data =
     \<lparr>mt_Type = (if data ! 0 = 73 then Insert else if data ! 0 = 81 then Query else Unknown),
      mt_First = bigEndian32 (take 4 (drop 1 data)),
      mt_Second = bigEndian32 (take 4 (drop 5 data))\<rparr>"

section \<open>Handlers\<close>

type_synonym history = "(32 word \<times> 32 word) list"

definition sumStep :: "32 word \<Rightarrow> 32 word \<Rightarrow> 32 word \<times> 32 word \<Rightarrow> 64 word \<times> 64 word \<Rightarrow> 64 word \<times> 64 word" where
  "sumStep start end entry state =
     (case (entry, state) of
        ((time, price), (cnt, acc)) \<Rightarrow>
          if start \<le>s time \<and> time \<le>s end then (cnt + 1, acc + scast price) else (cnt, acc))"

definition handleQuery :: "(history \<Rightarrow> history) \<Rightarrow> 32 word \<Rightarrow> 32 word \<Rightarrow> history \<Rightarrow> bytes" where
  "handleQuery order start end history =
     (case fold (sumStep start end) (order history) (0, 0) of
        (cnt, acc) \<Rightarrow>
          (let average = (if 0 <s cnt then ucast (word_of_int (sint acc sdiv sint cnt) :: 64 word) else 0 :: 32 word)
           in putBigEndian32 average))"

definition handleMessage :: "(history \<Rightarrow> history) \<Rightarrow> mteMessage \<Rightarrow> history \<Rightarrow> history \<times> bytes" where
  "handleMessage order message history =
     (if mt_Type message = Insert then (AList.update (mt_First message) (mt_Second message) history, [])
      else if mt_Type message = Query then (history, handleQuery order (mt_First message) (mt_Second message) history)
      else (history, []))"

text \<open>
  The connection: messages of nine bytes until the stream ends, an incomplete one is dropped. The order of
  the map may be another one at every message.
\<close>

function mteConnection :: "(nat \<Rightarrow> history \<Rightarrow> history) \<Rightarrow> history \<Rightarrow> bytes \<Rightarrow> bytes" where
  "mteConnection order history stream =
     (if length stream < 9 then []
      else
        (case handleMessage (order (length stream)) (extractMessage (take 9 stream)) history of
           (history', written) \<Rightarrow> written @ mteConnection order history' (drop 9 stream)))"
  by pat_completeness auto
termination
  by (relation "measure (\<lambda>(order, history, stream). length stream)") auto

declare mteConnection.simps [simp del]

section \<open>The specification\<close>

text \<open>The price last inserted for a time, and the mean of the prices of a period, rounded toward zero.\<close>

fun priceAt :: "mteMessage list \<Rightarrow> 32 word \<Rightarrow> int option" where
  "priceAt [] t = None"
| "priceAt (m # ms) t =
     (case priceAt ms t of
        Some p \<Rightarrow> Some p
      | None \<Rightarrow> if mt_Type m = Insert \<and> mt_First m = t then Some (sint (mt_Second m)) else None)"

definition periodTimes :: "mteMessage list \<Rightarrow> int \<Rightarrow> int \<Rightarrow> 32 word set" where
  "periodTimes ms a b = {t. a \<le> sint t \<and> sint t \<le> b \<and> priceAt ms t \<noteq> None}"

definition meanPrice :: "mteMessage list \<Rightarrow> int \<Rightarrow> int \<Rightarrow> int" where
  "meanPrice ms a b = (\<Sum>t\<in>periodTimes ms a b. the (priceAt ms t)) sdiv int (card (periodTimes ms a b))"

section \<open>The sums fit\<close>

lemma sint32: "- (2 ^ 31) \<le> sint (w :: 32 word)" "sint (w :: 32 word) < 2 ^ 31"
  using sint_ge[of w] sint_lt[of w] by simp_all

lemma distinct_words: "distinct (xs :: 32 word list) \<Longrightarrow> length xs \<le> 2 ^ 32"
proof -
  assume "distinct xs"
  then have "length xs = card (set xs)" by (simp add: distinct_card)
  also have "\<dots> \<le> card (UNIV :: 32 word set)" by (rule card_mono) simp_all
  also have "\<dots> = 2 ^ 32" by (simp add: card_word)
  finally show ?thesis .
qed

text \<open>The sum over a list of entries is exact: at most \<open>2 ^ 32\<close> prices of at most \<open>2 ^ 31\<close>.\<close>

definition inPeriod :: "32 word \<Rightarrow> 32 word \<Rightarrow> history \<Rightarrow> history" where
  "inPeriod start end entries = filter (\<lambda>(time, price). sint start \<le> sint time \<and> sint time \<le> sint end) entries"

lemma fold_sumStep:
  "fold (sumStep start end) entries (cnt, acc) =
   (cnt + of_nat (length (inPeriod start end entries)),
    acc + of_int (\<Sum>(time, price)\<leftarrow>inPeriod start end entries. sint price))"
proof (induction entries arbitrary: cnt acc)
  case Nil
  then show ?case by (simp add: inPeriod_def)
next
  case (Cons e entries)
  obtain t p where e: "e = (t, p)" by force
  have s: "scast p = (of_int (sint p) :: 64 word)" by (rule scast_eq)
  show ?case
  proof (cases "sint start \<le> sint t \<and> sint t \<le> sint end")
    case True
    then have "sumStep start end (t, p) (cnt, acc) = (cnt + 1, acc + of_int (sint p))" unfolding s[symmetric] by (simp add: sumStep_def word_sle_eq)
    moreover have "inPeriod start end ((t, p) # entries) = (t, p) # inPeriod start end entries" using True by (simp add: inPeriod_def)
    ultimately show ?thesis unfolding e by (simp only: fold_Cons comp_apply Cons.IH) (simp add: add.assoc)
  next
    case False
    then have "sumStep start end (t, p) (cnt, acc) = (cnt, acc)" by (auto simp: sumStep_def word_sle_eq)
    moreover have "inPeriod start end ((t, p) # entries) = inPeriod start end entries" using False by (auto simp: inPeriod_def)
    ultimately show ?thesis unfolding e by (simp only: fold_Cons comp_apply Cons.IH)
  qed
qed

lemma sum_bounds:
  "- (2 ^ 31) * int (length es) \<le> (\<Sum>(time, price)\<leftarrow>es. sint (price :: 32 word)) \<and>
   (\<Sum>(time, price)\<leftarrow>es. sint price) \<le> (2 ^ 31 - 1) * int (length es)"
proof (induction es)
  case (Cons e es)
  obtain t p where "e = (t, p)" by force
  then show ?case using Cons sint32[of p] by (simp add: algebra_simps)
qed simp

lemma sdiv_bounds:
  assumes "- a * n \<le> x" "x \<le> b * n" "0 < n" "0 \<le> a" "0 \<le> (b :: int)"
  shows "- a \<le> x sdiv n \<and> x sdiv n \<le> b"
proof (cases "0 \<le> x")
  case True
  have "x div n \<le> (b * n) div n" using assms by (intro zdiv_mono1) auto
  moreover have "0 \<le> x div n" using True assms(3) by (simp add: pos_imp_zdiv_nonneg_iff)
  ultimately show ?thesis using True assms by (auto simp: signed_divide_int_def sgn_if)
next
  case False
  have "(- x) div n \<le> (a * n) div n" using assms by (intro zdiv_mono1) auto
  moreover have "0 \<le> (- x) div n" using False assms(3) by (simp add: pos_imp_zdiv_nonneg_iff)
  ultimately show ?thesis using False assms by (auto simp: signed_divide_int_def sgn_if)
qed

lemma sint_of_int64: "- (2 ^ 63) \<le> x \<Longrightarrow> x < 2 ^ 63 \<Longrightarrow> sint (of_int x :: 64 word) = x"
  by (simp add: sint_sbintrunc' signed_take_bit_int_eq_self)

lemma sint_of_int32: "- (2 ^ 31) \<le> x \<Longrightarrow> x < 2 ^ 31 \<Longrightarrow> sint (of_int x :: 32 word) = x"
  by (simp add: sint_sbintrunc' signed_take_bit_int_eq_self)

lemma sum_list_perm: "mset xs = mset ys \<Longrightarrow> sum_list (map f xs) = (sum_list (map f ys) :: int)"
  by (metis mset_map sum_mset_sum_list)

definition exactMean :: "history \<Rightarrow> int" where
  "exactMean es = (\<Sum>(time, price)\<leftarrow>es. sint price) sdiv int (length es)"

lemma exactMean_bounds: "- (2 ^ 31) \<le> exactMean es \<and> exactMean es < 2 ^ 31"
proof (cases "es = []")
  case True
  then show ?thesis by (simp add: exactMean_def signed_divide_int_def)
next
  case False
  then have "- (2 ^ 31) \<le> exactMean es \<and> exactMean es \<le> 2 ^ 31 - 1"
    unfolding exactMean_def using sum_bounds[of es] by (intro sdiv_bounds) simp_all
  then show ?thesis by linarith
qed

lemma handleQuery_exact:
  assumes "distinct (map fst history)" "mset (order history) = mset history"
  shows "handleQuery order start end history = putBigEndian32 (of_int (exactMean (inPeriod start end history)))"
proof -
  let ?es = "inPeriod start end (order history)" and ?hs = "inPeriod start end history"
  have m: "mset ?es = mset ?hs" using assms(2) by (simp add: inPeriod_def mset_filter)
  then have len: "length ?es = length ?hs" by (rule mset_eq_length)
  have su: "(\<Sum>(time, price)\<leftarrow>?es. sint price) = (\<Sum>(time, price)\<leftarrow>?hs. sint price)" by (rule sum_list_perm[OF m])
  let ?n = "length ?hs" and ?s = "\<Sum>(time, price)\<leftarrow>?hs. sint price"
  have "?n \<le> length (map fst history)" by (simp add: inPeriod_def)
  then have n: "?n \<le> 2 ^ 32" using distinct_words[OF assms(1)] by linarith
  have n': "int ?n \<le> 2 ^ 32" using of_nat_mono[OF n, where 'a = int] by simp
  have "(2 ^ 31 - 1) * int ?n \<le> (2 ^ 31 - 1) * 2 ^ 32" "(2 ^ 31) * int ?n \<le> 2 ^ 31 * 2 ^ 32" using n' by (intro mult_left_mono; simp)+
  then have sb: "- (2 ^ 63) \<le> ?s" "?s < 2 ^ 63" using sum_bounds[of ?hs] by simp_all
  have f: "fold (sumStep start end) (order history) (0, 0) = (of_nat ?n, of_int ?s)"
    unfolding fold_sumStep by (simp add: len su)
  have cnt: "sint (of_nat ?n :: 64 word) = int ?n" using sint_of_int64[of "int ?n"] n' by simp
  have "0 <s (of_nat ?n :: 64 word) \<longleftrightarrow> 0 < ?n" by (simp add: word_sless_alt cnt)
  moreover have "exactMean ?hs = 0" if "?n = 0" using that by (simp add: exactMean_def)
  moreover have "ucast (of_int x :: 64 word) = (of_int x :: 32 word)" for x
    by (simp add: unsigned_of_int word_of_int_eq_iff take_bit_take_bit)
  ultimately show ?thesis
    unfolding handleQuery_def f by (auto simp: Let_def cnt sint_of_int64[OF sb] exactMean_def)
qed

section \<open>Histories\<close>

definition history_ok :: "mteMessage list \<Rightarrow> history \<Rightarrow> bool" where
  "history_ok ms h \<longleftrightarrow> distinct (map fst h) \<and> (\<forall>t. priceAt ms t = map_option sint (map_of h t))"

lemma priceAt_snoc:
  "priceAt (ms @ [m]) t = (if mt_Type m = Insert \<and> mt_First m = t then Some (sint (mt_Second m)) else priceAt ms t)"
  by (induction ms) (auto split: option.split)

lemma handleMessage_history:
  "history_ok ms h \<Longrightarrow> history_ok (ms @ [m]) (fst (handleMessage order m h))"
  by (auto simp: history_ok_def handleMessage_def priceAt_snoc distinct_update update_conv')

lemma meanPrice_history:
  assumes "history_ok ms h"
  shows "exactMean (inPeriod start end h) = meanPrice ms (sint start) (sint end)"
proof -
  let ?es = "inPeriod start end h"
  have d: "distinct (map fst ?es)" using assms by (auto simp: history_ok_def inPeriod_def distinct_map_filter)
  have mp: "map_of h t = Some p" if "(t, p) \<in> set h" for t p using assms that by (simp add: history_ok_def)
  have times: "set (map fst ?es) = periodTimes ms (sint start) (sint end)"
    using assms by (force simp: inPeriod_def periodTimes_def history_ok_def map_of_eq_None_iff dest: map_of_SomeD)
  have "(\<Sum>(time, price)\<leftarrow>?es. sint price) = (\<Sum>t\<leftarrow>map fst ?es. the (priceAt ms t))"
    unfolding map_map comp_def
    by (rule arg_cong[where f = sum_list], rule map_cong[OF refl]) (use assms mp in \<open>auto simp: inPeriod_def history_ok_def\<close>)
  also have "\<dots> = (\<Sum>t\<in>set (map fst ?es). the (priceAt ms t))" using d by (rule sum_list_distinct_conv_sum_set)
  finally show ?thesis using distinct_card[OF d] unfolding times by (simp add: exactMean_def meanPrice_def)
qed

definition mteAnswer :: "mteMessage list \<Rightarrow> mteMessage \<Rightarrow> bytes" where
  "mteAnswer ms m =
     (if mt_Type m = Query then putBigEndian32 (of_int (meanPrice ms (sint (mt_First m)) (sint (mt_Second m)))) else [])"

lemma handleMessage_answer:
  assumes "history_ok ms h" "mset (order h) = mset h"
  shows "snd (handleMessage order m h) = mteAnswer ms m"
  using assms handleQuery_exact[of h order] meanPrice_history[OF assms(1)]
  by (auto simp: handleMessage_def mteAnswer_def history_ok_def)

lemma map_upt_Suc': "map f [0..<Suc n] = f 0 # map (\<lambda>i. f (Suc i)) [0..<n]"
  by (simp add: map_upt_Suc del: upt_Suc)

lemma connection_from:
  assumes "history_ok ms h" "\<forall>k h. mset (order k h) = mset h" "\<forall>f\<in>set frames. length f = 9" "length rest < 9"
  shows "mteConnection order h (concat frames @ rest) =
    concat (map (\<lambda>i. mteAnswer (ms @ take i (map extractMessage frames)) (map extractMessage frames ! i)) [0..<length frames])"
  using assms(1,3)
proof (induction frames arbitrary: ms h)
  case Nil
  then show ?case using assms(4) by (simp add: mteConnection.simps)
next
  case (Cons f frames)
  have l: "length f = 9" using Cons.prems(2) by simp
  let ?m = "extractMessage f"
  obtain h' out where hm: "handleMessage (order (9 + length (concat frames @ rest))) ?m h = (h', out)" by force
  have "out = mteAnswer ms ?m" using handleMessage_answer[OF Cons.prems(1)] assms(2) hm by (metis snd_conv)
  moreover have "history_ok (ms @ [?m]) h'" using handleMessage_history[OF Cons.prems(1)] hm by (metis fst_conv)
  note Cons.IH[OF this]
  moreover have "mteConnection order h (concat (f # frames) @ rest) = out @ mteConnection order h' (concat frames @ rest)"
    using hm l by (subst mteConnection.simps) simp
  ultimately show ?case using Cons.prems(2) by (simp add: map_upt_Suc' del: upt_Suc)
qed

lemma history_exists: "\<exists>h. history_ok ms h"
proof (induction ms rule: rev_induct)
  case Nil
  then show ?case by (auto simp: history_ok_def intro!: exI[of _ "[]"])
next
  case (snoc m ms)
  then show ?case using handleMessage_history[of ms _ m id] by blast
qed

lemma mean_survives: "sint (bigEndian32 (putBigEndian32 (of_int (meanPrice ms (sint (a :: 32 word)) (sint (b :: 32 word)))))) = meanPrice ms (sint a) (sint b)"
proof -
  obtain h where "history_ok ms h" using history_exists by blast
  from meanPrice_history[OF this, of a b] exactMean_bounds show ?thesis
    unfolding bigEndian32_put by (intro sint_of_int32) metis+
qed

text \<open>C36: A session answers its queries exactly: each one, in order, with the mean of the prices last inserted before it
  for the times of its period, rounded toward zero and zero for an empty period, however Go orders its map. The
  64-bit sum never overflows and the mean is the signed number the four bytes stand for.\<close>

theorem queries_get_exact_means:
  assumes "\<forall>k h. mset (order k h) = mset h" "\<forall>f\<in>set frames. length f = 9" "length rest < 9"
    and "ms = map extractMessage frames"
  shows "mteConnection order [] (concat frames @ rest) = concat (map (\<lambda>i. mteAnswer (take i ms) (ms ! i)) [0..<length ms]) \<and>
    (\<forall>i a b. sint (bigEndian32 (putBigEndian32 (of_int (meanPrice (take i ms) (sint (a :: 32 word)) (sint (b :: 32 word)))))) =
       meanPrice (take i ms) (sint a) (sint b))"
proof -
  have "history_ok [] []" by (simp add: history_ok_def)
  from connection_from[OF this assms(1-3)] show ?thesis
    unfolding assms(4) using mean_survives by (simp only: append_Nil length_map) blast
qed

text \<open>The example of the protocol's description: prices 101, 102 and 100, and a mean of 101.\<close>

definition sampleFrames :: "bytes list" where
  "sampleFrames =
     [73 # putBigEndian32 12345 @ putBigEndian32 101, 73 # putBigEndian32 12346 @ putBigEndian32 102,
      73 # putBigEndian32 12347 @ putBigEndian32 100, 73 # putBigEndian32 40960 @ putBigEndian32 5,
      81 # putBigEndian32 12288 @ putBigEndian32 16384]"

theorem queries_get_exact_means_witness:
  "mteConnection (\<lambda>_. rev) [] (concat sampleFrames @ [0]) =
   concat (map (\<lambda>i. mteAnswer (take i (map extractMessage sampleFrames)) (map extractMessage sampleFrames ! i)) [0..<5]) \<and>
   mteConnection (\<lambda>_. rev) [] (concat sampleFrames @ [0]) = putBigEndian32 101"
proof
  have "mteConnection (\<lambda>_. rev) [] (concat sampleFrames @ [0]) =
    concat (map (\<lambda>i. mteAnswer (take i (map extractMessage sampleFrames)) (map extractMessage sampleFrames ! i))
      [0..<length (map extractMessage sampleFrames)])"
    using queries_get_exact_means[where order = "\<lambda>_. rev" and frames = sampleFrames and rest = "[0]", OF _ _ _ refl]
    by (simp add: sampleFrames_def)
  moreover have "length (map extractMessage sampleFrames) = 5" by (simp add: sampleFrames_def)
  ultimately show "mteConnection (\<lambda>_. rev) [] (concat sampleFrames @ [0]) =
   concat (map (\<lambda>i. mteAnswer (take i (map extractMessage sampleFrames)) (map extractMessage sampleFrames ! i)) [0..<5])" by (simp only:)
  show "mteConnection (\<lambda>_. rev) [] (concat sampleFrames @ [0]) = putBigEndian32 101" by code_simp
qed

end
