(* ===== verification/Go_Unicode.thy ===== *)
theory Go_Unicode
  imports Go_Strings
begin

text \<open>
  The runes of a Go string, as a \<open>range\<close> loop delivers them (UTF-8, with U+FFFD and one byte for an invalid
  sequence), and the classes \<open>unicode.IsLetter\<close> and \<open>unicode.IsDigit\<close>. Their tables beyond ASCII are
  arguments; the ASCII part is written out.
\<close>

section \<open>Decoding\<close>

definition isCont :: "nat \<Rightarrow> nat \<Rightarrow> nat \<Rightarrow> bool" where
  "isCont lo hi b \<longleftrightarrow> lo \<le> b \<and> b \<le> hi"

text \<open>The first rune of a non-empty string and its width.\<close>

definition rune2 :: "nat \<Rightarrow> nat list \<Rightarrow> nat \<times> nat" where
  "rune2 b0 rest =
     (case rest of
        b1 # _ \<Rightarrow> if isCont 0x80 0xBF b1 then ((b0 - 0xC0) * 64 + (b1 - 0x80), 2) else (0xFFFD, 1)
      | [] \<Rightarrow> (0xFFFD, 1))"

definition rune3 :: "nat \<Rightarrow> nat list \<Rightarrow> nat \<times> nat" where
  "rune3 b0 rest =
     (case rest of
        b1 # b2 # _ \<Rightarrow>
          if isCont (if b0 = 0xE0 then 0xA0 else 0x80) (if b0 = 0xED then 0x9F else 0xBF) b1 \<and> isCont 0x80 0xBF b2
          then ((b0 - 0xE0) * 4096 + (b1 - 0x80) * 64 + (b2 - 0x80), 3) else (0xFFFD, 1)
      | _ \<Rightarrow> (0xFFFD, 1))"

definition rune4 :: "nat \<Rightarrow> nat list \<Rightarrow> nat \<times> nat" where
  "rune4 b0 rest =
     (case rest of
        b1 # b2 # b3 # _ \<Rightarrow>
          if isCont (if b0 = 0xF0 then 0x90 else 0x80) (if b0 = 0xF4 then 0x8F else 0xBF) b1 \<and>
             isCont 0x80 0xBF b2 \<and> isCont 0x80 0xBF b3
          then ((b0 - 0xF0) * 262144 + (b1 - 0x80) * 4096 + (b2 - 0x80) * 64 + (b3 - 0x80), 4) else (0xFFFD, 1)
      | _ \<Rightarrow> (0xFFFD, 1))"

definition decodeRune :: "nat list \<Rightarrow> nat \<times> nat" where
  "decodeRune bs =
     (case bs of
        [] \<Rightarrow> (0xFFFD, 0)
      | b0 # rest \<Rightarrow>
          if b0 < 0x80 then (b0, 1)
          else if 0xC2 \<le> b0 \<and> b0 \<le> 0xDF then rune2 b0 rest
          else if 0xE0 \<le> b0 \<and> b0 \<le> 0xEF then rune3 b0 rest
          else if 0xF0 \<le> b0 \<and> b0 \<le> 0xF4 then rune4 b0 rest
          else (0xFFFD, 1))"

lemma rune_widths: "0 < snd (rune2 b0 rest)" "0 < snd (rune3 b0 rest)" "0 < snd (rune4 b0 rest)"
  by (auto simp: rune2_def rune3_def rune4_def split: list.split)

lemma decodeRune_width: "bs \<noteq> [] \<Longrightarrow> 0 < snd (decodeRune bs)"
  by (cases bs) (auto simp: decodeRune_def rune_widths)

function runesOf :: "nat list \<Rightarrow> nat list" where
  "runesOf bs = (if bs = [] then [] else fst (decodeRune bs) # runesOf (drop (snd (decodeRune bs)) bs))"
  by pat_completeness auto
termination
  by (relation "measure length") (auto simp: decodeRune_width)

declare runesOf.simps [simp del]

definition runes :: "string \<Rightarrow> nat list" where
  "runes s = runesOf (map byte_of s)"

text \<open>An ASCII string has its bytes as runes, and a string with ASCII runes only is an ASCII string.\<close>

lemma runesOf_ascii: "\<forall>b\<in>set bs. b < 128 \<Longrightarrow> runesOf bs = bs"
proof (induction bs)
  case (Cons b bs)
  then have "decodeRune (b # bs) = (b, 1)" by (simp add: decodeRune_def)
  then show ?case using Cons by (subst runesOf.simps) simp
qed (simp add: runesOf.simps)

lemma rune2_high: "0xC2 \<le> b0 \<Longrightarrow> 128 \<le> fst (rune2 b0 rest)"
  by (auto simp: rune2_def split: list.split)

lemma rune3_high: "0xE0 \<le> b0 \<Longrightarrow> 128 \<le> fst (rune3 b0 rest)"
  by (cases "b0 = 0xE0") (auto simp: rune3_def isCont_def split: list.split)

lemma rune4_high: "0xF0 \<le> b0 \<Longrightarrow> 128 \<le> fst (rune4 b0 rest)"
  by (cases "b0 = 0xF0") (auto simp: rune4_def isCont_def split: list.split)

lemma decodeRune_ascii: "fst (decodeRune (b # bs)) < 128 \<Longrightarrow> decodeRune (b # bs) = (b, 1)"
  using rune2_high[of b bs] rune3_high[of b bs] rune4_high[of b bs]
  by (simp add: decodeRune_def split: if_splits)

lemma ascii_runesOf: "\<forall>r\<in>set (runesOf bs). r < 128 \<Longrightarrow> runesOf bs = bs"
proof (induction bs)
  case (Cons b bs)
  have e: "runesOf (b # bs) = fst (decodeRune (b # bs)) # runesOf (drop (snd (decodeRune (b # bs))) (b # bs))"
    by (subst runesOf.simps) simp
  then have "fst (decodeRune (b # bs)) < 128" using Cons.prems by simp
  then have d: "decodeRune (b # bs) = (b, 1)" by (rule decodeRune_ascii)
  then have "runesOf (b # bs) = b # runesOf bs" using e by simp
  then show ?case using Cons by simp
qed (simp add: runesOf.simps)

section \<open>Letters and digits\<close>

definition isAsciiLetter :: "nat \<Rightarrow> bool" where
  "isAsciiLetter r \<longleftrightarrow> (65 \<le> r \<and> r \<le> 90) \<or> (97 \<le> r \<and> r \<le> 122)"

definition isLetterRune :: "(nat \<Rightarrow> bool) \<Rightarrow> nat \<Rightarrow> bool" where
  "isLetterRune letters r = (if r < 128 then isAsciiLetter r else letters r)"

definition isDigitRune :: "(nat \<Rightarrow> bool) \<Rightarrow> nat \<Rightarrow> bool" where
  "isDigitRune digits r = (if r < 128 then 48 \<le> r \<and> r \<le> 57 else digits r)"

definition alphanumeric :: "(nat \<Rightarrow> bool) \<Rightarrow> (nat \<Rightarrow> bool) \<Rightarrow> string \<Rightarrow> bool" where
  "alphanumeric letters digits s \<longleftrightarrow> list_all (\<lambda>c. \<not> (\<not> isLetterRune letters c \<and> \<not> isDigitRune digits c)) (runes s)"

lemma alphanumeric_ascii:
  assumes "\<forall>c\<in>set s. byte_of c < 128"
  shows "alphanumeric letters digits s \<longleftrightarrow> (\<forall>c\<in>set s. isAsciiLetter (byte_of c) \<or> isDigit c)"
proof -
  have "runes s = map byte_of s" unfolding runes_def by (rule runesOf_ascii) (use assms in simp)
  then show ?thesis using assms
    by (auto simp: alphanumeric_def list_all_iff isLetterRune_def isDigitRune_def isDigit_def)
qed

section \<open>Encoding\<close>

definition encodeRune :: "nat \<Rightarrow> string" where
  "encodeRune r =
     map char_of
       (if r < 0x80 then [r]
        else if r < 0x800 then [0xC0 + r div 64, 0x80 + r mod 64]
        else if r < 0x10000 then [0xE0 + r div 4096, 0x80 + r div 64 mod 64, 0x80 + r mod 64]
        else [0xF0 + r div 262144, 0x80 + r div 4096 mod 64, 0x80 + r div 64 mod 64, 0x80 + r mod 64])"

end
