(* ===== verification/Budget_Chat.thy ===== *)
theory Budget_Chat
  imports Go_Unicode Go_Events
begin

text \<open>
  \<open>internal/budgetchat\<close>, files \<open>broker.go\<close> and \<open>budgetchat.go\<close>: the broker, which alone knows the users, and the
  reader and the writer of every connection. They talk over bounded channels: a send waits while the channel is
  full. A run is a list of events in any order; an event that cannot happen changes nothing. The order in which
  Go visits the users is an argument, a function of the number of messages handled. A write that fails counts as having
  sent nothing, and a connection whose greeting cannot be written, which never joins, is left out.
\<close>

section \<open>Messages of the broker\<close>

datatype messageType = RegisterOp | SendOp | LogoffOp

record brokerMessage =
  bm_op :: messageType
  bm_sender :: string
  bm_payload :: string
  bm_senderChannel :: "nat option"

definition newBrokerMessage :: "messageType \<Rightarrow> string \<Rightarrow> string \<Rightarrow> nat option \<Rightarrow> brokerMessage" where
  "newBrokerMessage op sender payload senderChannel =
     \<lparr>bm_op = op, bm_sender = sender, bm_payload = payload, bm_senderChannel = senderChannel\<rparr>"

text \<open>
  A channel of a user is the number of its connection. \<open>br_Sends\<close> are the sends the broker still has to make for the
  message it is handling, \<open>br_Handled\<close> the messages it has taken so far.
\<close>

record broker =
  br_users :: "(string \<times> nat) list"
  br_channel :: "brokerMessage list"
  br_Sends :: "(nat \<times> string) list"
  br_Handled :: "brokerMessage list"

definition brokerChannelCap :: nat where
  "brokerChannelCap = 50"

definition userChannelCap :: nat where
  "userChannelCap = 10"

section \<open>The broker\<close>

fun joinStrings :: "string \<Rightarrow> string list \<Rightarrow> string" where
  "joinStrings s [] = ''''"
| "joinStrings s [x] = x"
| "joinStrings s (x # y # xs) = x @ s @ joinStrings s (y # xs)"

type_synonym userOrder = "nat \<Rightarrow> (string \<times> nat) list \<Rightarrow> (string \<times> nat) list"

definition enteredText :: "string \<Rightarrow> string" where
  "enteredText name = ''* '' @ name @ '' has entered the room''"

definition leftText :: "string \<Rightarrow> string" where
  "leftText name = ''* '' @ name @ '' has left the room''"

definition saidText :: "string \<Rightarrow> string \<Rightarrow> string" where
  "saidText sender message = ''['' @ sender @ ''] '' @ message"

definition roomText :: "string list \<Rightarrow> string" where
  "roomText activeUsers =
     (if length activeUsers > 0 then ''* The room contains: '' @ joinStrings '', '' activeUsers else ''* The room is empty'')"

text \<open>
  The handlers. The entry of a new user is made after the sends, which nobody can tell: only the broker reads the map.
  A second registration of a name is an error that the caller ignores.
\<close>

definition registerUser :: "userOrder \<Rightarrow> broker \<Rightarrow> string \<Rightarrow> nat \<Rightarrow> string option \<times> broker" where
  "registerUser order b name userChannel =
     (if map_of (br_users b) name \<noteq> None then (Some (''user '' @ name @ '' is already registered''), b)
      else
        (let entries = order (length (br_Handled b)) (br_users b);
             activeUsers = map fst entries
         in (None,
             b\<lparr>br_Sends := map (\<lambda>(user, chan). (chan, enteredText name)) entries @ [(userChannel, roomText activeUsers)],
               br_users := br_users b @ [(name, userChannel)]\<rparr>)))"

definition userSend :: "userOrder \<Rightarrow> broker \<Rightarrow> string \<Rightarrow> string \<Rightarrow> broker" where
  "userSend order b sender message =
     b\<lparr>br_Sends := map (\<lambda>(user, chan). (chan, saidText sender message))
         (filter (\<lambda>(user, chan). user \<noteq> sender) (order (length (br_Handled b)) (br_users b)))\<rparr>"

definition userLogoff :: "userOrder \<Rightarrow> broker \<Rightarrow> string \<Rightarrow> broker" where
  "userLogoff order b existedUser =
     (let users = filter (\<lambda>(user, chan). user \<noteq> existedUser) (br_users b) in
      b\<lparr>br_users := users,
        br_Sends := map (\<lambda>(user, chan). (chan, leftText existedUser)) (order (length (br_Handled b)) users)\<rparr>)"

definition handleBrokerMessage :: "userOrder \<Rightarrow> broker \<Rightarrow> brokerMessage \<Rightarrow> broker" where
  "handleBrokerMessage order b message =
     (let b' = (case bm_op message of
          RegisterOp \<Rightarrow> (case bm_senderChannel message of None \<Rightarrow> b | Some chan \<Rightarrow> snd (registerUser order b (bm_sender message) chan))
        | SendOp \<Rightarrow> userSend order b (bm_sender message) (bm_payload message)
        | LogoffOp \<Rightarrow> userLogoff order b (bm_sender message))
      in b'\<lparr>br_Handled := br_Handled b @ [message]\<rparr>)"

section \<open>Names\<close>

definition validate :: "(nat \<Rightarrow> bool) \<Rightarrow> (nat \<Rightarrow> bool) \<Rightarrow> string \<Rightarrow> string + string" where
  "validate letters digits rawInput =
     (let name = TrimSpace char_of rawInput in
      if length name < 1 then Inl ''the name was too short''
      else if length name > 16 then Inl (''name length must be at most 16 characters, recieved '' @ itoa (int (length name)))
      else
        (case List.find (\<lambda>c. \<not> isLetterRune letters c \<and> \<not> isDigitRune digits c) (runes name) of
           Some c \<Rightarrow> Inl (''name contained an illegal character '' @ encodeRune c)
         | None \<Rightarrow> Inr name))"

section \<open>Connections\<close>

datatype connPhase = Naming | Registering | Chatting | Refused

datatype readerState = Reading | ReaderSends brokerMessage | ReaderDone

datatype writerState = Writing | WriterSends brokerMessage | WriterDone

text \<open>\<open>cu_Output\<close> lists the writes to the connection.\<close>

record user =
  cu_name :: string
  cu_Phase :: connPhase
  cu_channel :: "string list"
  cu_Cancelled :: bool
  cu_Reader :: readerState
  cu_Writer :: writerState
  cu_Output :: "string list"

record chat =
  ct_Broker :: broker
  ct_Conns :: "nat \<Rightarrow> user option"

definition welcomeText :: string where
  "welcomeText = ''Welcome to budgetchat! What shall I call you?'' @ [char_of (10 :: nat)]"

definition newUser :: user where
  "newUser = \<lparr>cu_name = '''', cu_Phase = Naming, cu_channel = [], cu_Cancelled = False, cu_Reader = Reading, cu_Writer = Writing,
     cu_Output = [welcomeText]\<rparr>"

text \<open>
  The events: a new connection; its name line, or none; the registration; the reader's check of the context, its line, or
  none, and its send to the broker; the writer's write with its success, its end and its send; a step of the broker.
\<close>

datatype chatEvent =
    Accepted nat
  | NameLine nat "string option"
  | RegisterSend nat
  | ReaderCheck nat
  | ReaderLine nat "string option"
  | ReaderSend nat
  | WriterTake nat bool
  | WriterCheck nat
  | WriterSend nat
  | BrokerStep

definition setUser :: "nat \<Rightarrow> user \<Rightarrow> chat \<Rightarrow> chat" where
  "setUser c u s = s\<lparr>ct_Conns := (ct_Conns s)(c \<mapsto> u)\<rparr>"

definition toBroker :: "brokerMessage \<Rightarrow> chat \<Rightarrow> chat" where
  "toBroker m s = s\<lparr>ct_Broker := (ct_Broker s)\<lparr>br_channel := br_channel (ct_Broker s) @ [m]\<rparr>\<rparr>"

definition brokerHasRoom :: "chat \<Rightarrow> bool" where
  "brokerHasRoom s \<longleftrightarrow> length (br_channel (ct_Broker s)) < brokerChannelCap"

definition getUserName :: "(nat \<Rightarrow> bool) \<Rightarrow> (nat \<Rightarrow> bool) \<Rightarrow> string option \<Rightarrow> user \<Rightarrow> user" where
  "getUserName letters digits scanned u =
     (case scanned of
        None \<Rightarrow> u\<lparr>cu_Phase := Refused\<rparr>
      | Some bytes \<Rightarrow>
          (case validate letters digits bytes of
             Inl err \<Rightarrow> u\<lparr>cu_Phase := Refused, cu_Output := cu_Output u @ [''Invalid name: '' @ err @ [char_of (10 :: nat)]]\<rparr>
           | Inr userName \<Rightarrow> u\<lparr>cu_name := userName, cu_Phase := Registering\<rparr>))"

definition userReader :: "string option \<Rightarrow> user \<Rightarrow> user" where
  "userReader scanned u =
     (case scanned of
        None \<Rightarrow> u\<lparr>cu_Cancelled := True, cu_Reader := ReaderSends (newBrokerMessage LogoffOp (cu_name u) '''' None)\<rparr>
      | Some message \<Rightarrow> u\<lparr>cu_Reader := ReaderSends (newBrokerMessage SendOp (cu_name u) message None)\<rparr>)"

definition userWriter :: "string \<Rightarrow> bool \<Rightarrow> user \<Rightarrow> user" where
  "userWriter message written u =
     (if written then u\<lparr>cu_Output := cu_Output u @ [message @ [char_of (10 :: nat)]]\<rparr>
      else u\<lparr>cu_Cancelled := True, cu_Writer := WriterSends (newBrokerMessage LogoffOp (cu_name u) '''' None)\<rparr>)"

text \<open>A step of the broker: the next send of the message at hand, or else the next message.\<close>

definition brokerStep :: "userOrder \<Rightarrow> chat \<Rightarrow> chat" where
  "brokerStep order s =
     (let b = ct_Broker s in
      case br_Sends b of
        (c, text) # sends \<Rightarrow>
          (case ct_Conns s c of
             None \<Rightarrow> s
           | Some u \<Rightarrow>
               if length (cu_channel u) < userChannelCap
               then setUser c (u\<lparr>cu_channel := cu_channel u @ [text]\<rparr>) (s\<lparr>ct_Broker := b\<lparr>br_Sends := sends\<rparr>\<rparr>)
               else s)
      | [] \<Rightarrow>
          (case br_channel b of
             [] \<Rightarrow> s
           | message # rest \<Rightarrow> s\<lparr>ct_Broker := handleBrokerMessage order (b\<lparr>br_channel := rest\<rparr>) message\<rparr>))"

definition onUser :: "chat \<Rightarrow> nat \<Rightarrow> (user \<Rightarrow> bool) \<Rightarrow> (user \<Rightarrow> chat) \<Rightarrow> chat" where
  "onUser s c guard act = (case ct_Conns s c of None \<Rightarrow> s | Some u \<Rightarrow> if guard u then act u else s)"

fun chatStep :: "(nat \<Rightarrow> bool) \<Rightarrow> (nat \<Rightarrow> bool) \<Rightarrow> userOrder \<Rightarrow> chatEvent \<Rightarrow> chat \<Rightarrow> chat" where
  "chatStep letters digits order (Accepted c) s = (if ct_Conns s c = None then setUser c newUser s else s)"
| "chatStep letters digits order (NameLine c scanned) s =
     onUser s c (\<lambda>u. cu_Phase u = Naming) (\<lambda>u. setUser c (getUserName letters digits scanned u) s)"
| "chatStep letters digits order (RegisterSend c) s =
     onUser s c (\<lambda>u. cu_Phase u = Registering \<and> brokerHasRoom s)
       (\<lambda>u. toBroker (newBrokerMessage RegisterOp (cu_name u) '''' (Some c)) (setUser c (u\<lparr>cu_Phase := Chatting\<rparr>) s))"
| "chatStep letters digits order (ReaderCheck c) s =
     onUser s c (\<lambda>u. cu_Phase u = Chatting \<and> cu_Reader u = Reading \<and> cu_Cancelled u)
       (\<lambda>u. setUser c (u\<lparr>cu_Reader := ReaderDone\<rparr>) s)"
| "chatStep letters digits order (ReaderLine c scanned) s =
     onUser s c (\<lambda>u. cu_Phase u = Chatting \<and> cu_Reader u = Reading) (\<lambda>u. setUser c (userReader scanned u) s)"
| "chatStep letters digits order (ReaderSend c) s =
     onUser s c (\<lambda>u. cu_Phase u = Chatting \<and> brokerHasRoom s)
       (\<lambda>u. case cu_Reader u of
              ReaderSends m \<Rightarrow> toBroker m (setUser c (u\<lparr>cu_Reader := (if bm_op m = LogoffOp then ReaderDone else Reading)\<rparr>) s)
            | _ \<Rightarrow> s)"
| "chatStep letters digits order (WriterTake c written) s =
     onUser s c (\<lambda>u. cu_Phase u = Chatting \<and> cu_Writer u = Writing)
       (\<lambda>u. case cu_channel u of
              [] \<Rightarrow> s
            | message # rest \<Rightarrow> setUser c (userWriter message written (u\<lparr>cu_channel := rest\<rparr>)) s)"
| "chatStep letters digits order (WriterCheck c) s =
     onUser s c (\<lambda>u. cu_Phase u = Chatting \<and> cu_Writer u = Writing \<and> cu_Cancelled u)
       (\<lambda>u. setUser c (u\<lparr>cu_Writer := WriterDone\<rparr>) s)"
| "chatStep letters digits order (WriterSend c) s =
     onUser s c (\<lambda>u. cu_Phase u = Chatting \<and> brokerHasRoom s)
       (\<lambda>u. case cu_Writer u of
              WriterSends m \<Rightarrow> toBroker m (setUser c (u\<lparr>cu_Writer := WriterDone\<rparr>) s)
            | _ \<Rightarrow> s)"
| "chatStep letters digits order BrokerStep s = brokerStep order s"

definition newChat :: chat where
  "newChat = \<lparr>ct_Broker = \<lparr>br_users = [], br_channel = [], br_Sends = [], br_Handled = []\<rparr>, ct_Conns = (\<lambda>_. None)\<rparr>"

fun runChat :: "(nat \<Rightarrow> bool) \<Rightarrow> (nat \<Rightarrow> bool) \<Rightarrow> userOrder \<Rightarrow> chatEvent list \<Rightarrow> chat \<Rightarrow> chat" where
  "runChat letters digits order [] s = s"
| "runChat letters digits order (e # es) s = runChat letters digits order es (chatStep letters digits order e s)"

section \<open>What the room is told\<close>

text \<open>
  The contract of the broker: the users after some messages, and the lines a message gives the connection \<open>c\<close>, by
  the users before it.
\<close>

definition roomStep :: "brokerMessage \<Rightarrow> (string \<times> nat) list \<Rightarrow> (string \<times> nat) list" where
  "roomStep m users =
     (case bm_op m of
        RegisterOp \<Rightarrow>
          (case bm_senderChannel m of
             None \<Rightarrow> users
           | Some chan \<Rightarrow> if bm_sender m \<in> fst ` set users then users else users @ [(bm_sender m, chan)])
      | SendOp \<Rightarrow> users
      | LogoffOp \<Rightarrow> filter (\<lambda>(user, chan). user \<noteq> bm_sender m) users)"

definition roomAfter :: "brokerMessage list \<Rightarrow> (string \<times> nat) list" where
  "roomAfter ms = fold roomStep ms []"

definition linesFor :: "userOrder \<Rightarrow> nat \<Rightarrow> (string \<times> nat) list \<Rightarrow> brokerMessage \<Rightarrow> nat \<Rightarrow> string list" where
  "linesFor order n users m c =
     (case bm_op m of
        RegisterOp \<Rightarrow>
          (case bm_senderChannel m of
             None \<Rightarrow> []
           | Some chan \<Rightarrow>
               if bm_sender m \<in> fst ` set users then []
               else (if c \<in> snd ` set users then [enteredText (bm_sender m)] else []) @
                    (if c = chan then [roomText (map fst (order n users))] else []))
      | SendOp \<Rightarrow> if \<exists>user. (user, c) \<in> set users \<and> user \<noteq> bm_sender m then [saidText (bm_sender m) (bm_payload m)] else []
      | LogoffOp \<Rightarrow> if \<exists>user. (user, c) \<in> set users \<and> user \<noteq> bm_sender m then [leftText (bm_sender m)] else [])"

definition transcript :: "userOrder \<Rightarrow> brokerMessage list \<Rightarrow> nat \<Rightarrow> string list" where
  "transcript order ms c = concat (map (\<lambda>i. linesFor order i (roomAfter (take i ms)) (ms ! i) c) [0..<length ms])"

lemma roomAfter_snoc: "roomAfter (ms @ [m]) = roomStep m (roomAfter ms)"
  by (simp add: roomAfter_def)

lemma transcript_snoc:
  "transcript order (ms @ [m]) c = transcript order ms c @ linesFor order (length ms) (roomAfter ms) m c"
proof -
  have "map (\<lambda>i. linesFor order i (roomAfter (take i (ms @ [m]))) ((ms @ [m]) ! i) c) [0..<length ms] =
    map (\<lambda>i. linesFor order i (roomAfter (take i ms)) (ms ! i) c) [0..<length ms]" by (simp add: nth_append)
  moreover have "[0..<length (ms @ [m])] = [0..<length ms] @ [length ms]" by simp
  ultimately show ?thesis unfolding transcript_def by (simp only: map_append concat_append) simp
qed

text \<open>The sends of a message that go to one connection.\<close>

definition sendsTo :: "nat \<Rightarrow> (nat \<times> string) list \<Rightarrow> string list" where
  "sendsTo c sends = map snd (filter (\<lambda>(chan, text). chan = c) sends)"

lemma sendsTo_simps [simp]:
  "sendsTo c [] = []" "sendsTo c ((chan, text) # sends) = (if chan = c then [text] else []) @ sendsTo c sends"
  "sendsTo c (xs @ ys) = sendsTo c xs @ sendsTo c ys"
  by (simp_all add: sendsTo_def)

lemma sendsTo_users:
  "distinct (map snd es) \<Longrightarrow>
   sendsTo c (map (\<lambda>(user, chan). (chan, text)) es) = (if c \<in> snd ` set es then [text] else [])"
  by (induction es) (auto simp: image_iff split: prod.splits)

lemma map_of_dom: "map_of users name \<noteq> None \<longleftrightarrow> name \<in> fst ` set users"
  by (simp add: map_of_eq_None_iff)

text \<open>One message: the broker keeps the users of the contract and sends what the contract says.\<close>

lemma handleBrokerMessage_spec:
  assumes "\<forall>n users. mset (order n users) = mset users" "distinct (map snd (br_users b))" "br_Sends b = []"
    and "br_users b = roomAfter (br_Handled b)"
  shows "br_users (handleBrokerMessage order b m) = roomAfter (br_Handled b @ [m])"
    "sendsTo c (br_Sends (handleBrokerMessage order b m)) = linesFor order (length (br_Handled b)) (br_users b) m c"
    "br_channel (handleBrokerMessage order b m) = br_channel b" "br_Handled (handleBrokerMessage order b m) = br_Handled b @ [m]"
proof -
  let ?n = "length (br_Handled b)"
  have perm: "set (order ?n us) = set us" "distinct (map snd us) \<Longrightarrow> distinct (map snd (order ?n us))" for us
    using assms(1) mset_eq_setD by blast (metis assms(1) mset_map mset_eq_imp_distinct_iff)
  show "br_channel (handleBrokerMessage order b m) = br_channel b" "br_Handled (handleBrokerMessage order b m) = br_Handled b @ [m]"
    by (auto simp: handleBrokerMessage_def Let_def registerUser_def userSend_def userLogoff_def split: messageType.split option.split)
  show "br_users (handleBrokerMessage order b m) = roomAfter (br_Handled b @ [m])"
    unfolding roomAfter_snoc assms(4)[symmetric]
    by (auto simp: handleBrokerMessage_def Let_def registerUser_def userSend_def userLogoff_def roomStep_def map_of_dom[symmetric]
        split: messageType.split option.split)
  have d: "distinct (map snd (filter p (order ?n (br_users b))))" for p using perm(2)[OF assms(2)] by (rule distinct_map_filter)
  have df: "distinct (map snd (filter p (br_users b)))" for p using assms(2) by (rule distinct_map_filter)
  show "sendsTo c (br_Sends (handleBrokerMessage order b m)) = linesFor order ?n (br_users b) m c"
  proof (cases "bm_op m")
    case RegisterOp
    then show ?thesis using assms(3) sendsTo_users[OF perm(2)[OF assms(2)]] perm(1)
      by (auto simp: handleBrokerMessage_def Let_def registerUser_def linesFor_def map_of_dom[symmetric] split: option.split)
  next
    case SendOp
    then show ?thesis using sendsTo_users[OF d] perm(1)
      by (auto simp: handleBrokerMessage_def Let_def userSend_def linesFor_def image_iff)
  next
    case LogoffOp
    then show ?thesis using sendsTo_users[OF perm(2)[OF df]] perm(1)
      by (auto simp: handleBrokerMessage_def Let_def userLogoff_def linesFor_def image_iff)
  qed
qed

section \<open>The invariant\<close>

definition regChans :: "brokerMessage list \<Rightarrow> nat list" where
  "regChans ms = List.map_filter (\<lambda>m. if bm_op m = RegisterOp then bm_senderChannel m else None) ms"

lemma regChans_simps [simp]:
  "regChans [] = []"
  "regChans (m # ms) = (case (if bm_op m = RegisterOp then bm_senderChannel m else None) of None \<Rightarrow> [] | Some c \<Rightarrow> [c]) @ regChans ms"
  "regChans (xs @ ys) = regChans xs @ regChans ys"
  by (auto simp: regChans_def List.map_filter_def split: option.split)

definition knownChans :: "broker \<Rightarrow> nat list" where
  "knownChans b = map snd (br_users b) @ regChans (br_channel b)"

lemma knownChans_update [simp]:
  "bm_op m \<noteq> RegisterOp \<Longrightarrow> knownChans (b\<lparr>br_channel := br_channel b @ [m]\<rparr>) = knownChans b"
  "knownChans (b\<lparr>br_channel := br_channel b @ [newBrokerMessage RegisterOp name p (Some c)]\<rparr>) = knownChans b @ [c]"
  "knownChans (b\<lparr>br_Sends := sends\<rparr>) = knownChans b"
  by (simp_all add: knownChans_def newBrokerMessage_def)

text \<open>A connection the broker has never heard of, and one that has been sent what the contract says.\<close>

definition unknown :: "userOrder \<Rightarrow> broker \<Rightarrow> nat \<Rightarrow> bool" where
  "unknown order b c \<longleftrightarrow>
     c \<notin> set (knownChans b) \<and> sendsTo c (br_Sends b) = [] \<and> transcript order (br_Handled b) c = []"

definition delivered :: "userOrder \<Rightarrow> broker \<Rightarrow> nat \<Rightarrow> user \<Rightarrow> bool" where
  "delivered order b c u \<longleftrightarrow>
     (\<exists>w lost. cu_Output u = welcomeText # map (\<lambda>m. m @ [char_of (10 :: nat)]) w \<and>
        w @ lost @ cu_channel u @ sendsTo c (br_Sends b) = transcript order (br_Handled b) c \<and> (cu_Writer u = Writing \<longrightarrow> lost = []))"

definition userOk :: "userOrder \<Rightarrow> broker \<Rightarrow> nat \<Rightarrow> user option \<Rightarrow> bool" where
  "userOk order b c v \<longleftrightarrow>
     (case v of
        None \<Rightarrow> unknown order b c
      | Some u \<Rightarrow>
          (\<forall>m. cu_Reader u = ReaderSends m \<or> cu_Writer u = WriterSends m \<longrightarrow> bm_op m \<noteq> RegisterOp) \<and>
          (if cu_Phase u = Chatting then delivered order b c u
           else unknown order b c \<and> cu_channel u = [] \<and> cu_Writer u = Writing \<and>
             (cu_Phase u \<in> {Naming, Registering} \<longrightarrow> cu_Output u = [welcomeText])))"

definition broker_ok :: "broker \<Rightarrow> bool" where
  "broker_ok b \<longleftrightarrow> br_users b = roomAfter (br_Handled b) \<and> distinct (knownChans b)"

definition chat_ok :: "userOrder \<Rightarrow> chat \<Rightarrow> bool" where
  "chat_ok order s \<longleftrightarrow> broker_ok (ct_Broker s) \<and> (\<forall>c. userOk order (ct_Broker s) c (ct_Conns s c))"

lemma newChat_ok: "chat_ok order newChat"
  by (simp add: chat_ok_def broker_ok_def knownChans_def newChat_def userOk_def unknown_def roomAfter_def transcript_def)

lemma setUser_ok: "chat_ok order s \<Longrightarrow> userOk order (ct_Broker s) c (Some u) \<Longrightarrow> chat_ok order (setUser c u s)"
  by (simp add: chat_ok_def setUser_def)

lemma toBroker_ok:
  assumes "chat_ok order s" "bm_op m \<noteq> RegisterOp"
  shows "chat_ok order (toBroker m s)"
proof -
  have "userOk order (ct_Broker (toBroker m s)) c v = userOk order (ct_Broker s) c v" for c v
    using assms(2) by (simp add: userOk_def unknown_def delivered_def toBroker_def split: option.split)
  moreover have "broker_ok (ct_Broker (toBroker m s))" using assms by (auto simp: chat_ok_def broker_ok_def toBroker_def)
  ultimately show ?thesis using assms(1) by (simp add: chat_ok_def) (simp add: toBroker_def)
qed

text \<open>The steps of a connection.\<close>

lemma name_ok:
  "userOk order b c (Some u) \<Longrightarrow> cu_Phase u = Naming \<Longrightarrow> userOk order b c (Some (getUserName letters digits scanned u))"
  by (auto simp: userOk_def getUserName_def split: option.split sum.split)

lemma reader_ok:
  "userOk order b c (Some u) \<Longrightarrow> cu_Phase u = Chatting \<Longrightarrow> userOk order b c (Some (userReader scanned u))"
  by (auto simp: userOk_def userReader_def delivered_def newBrokerMessage_def split: option.split)

lemma writer_ok:
  assumes "userOk order b c (Some u)" "cu_Phase u = Chatting" "cu_Writer u = Writing" "cu_channel u = message # rest"
  shows "userOk order b c (Some (userWriter message written (u\<lparr>cu_channel := rest\<rparr>)))"
proof -
  obtain w where w: "cu_Output u = welcomeText # map (\<lambda>m. m @ [char_of (10 :: nat)]) w"
    "w @ message # rest @ sendsTo c (br_Sends b) = transcript order (br_Handled b) c"
    using assms by (auto simp: userOk_def delivered_def)
  have "delivered order b c (userWriter message written (u\<lparr>cu_channel := rest\<rparr>))"
  proof (cases written)
    case True
    then show ?thesis unfolding delivered_def using w assms(3)
      by (intro exI[of _ "w @ [message]"] exI[of _ "[]"]) (simp add: userWriter_def)
  next
    case False
    then show ?thesis unfolding delivered_def using w
      by (intro exI[of _ w] exI[of _ "[message]"]) (simp add: userWriter_def)
  qed
  then show ?thesis using assms by (auto simp: userOk_def userWriter_def newBrokerMessage_def)
qed

lemma register_ok:
  assumes "chat_ok order s" "ct_Conns s c = Some u" "cu_Phase u = Registering"
  shows "chat_ok order (toBroker (newBrokerMessage RegisterOp (cu_name u) '''' (Some c)) (setUser c (u\<lparr>cu_Phase := Chatting\<rparr>) s))"
    (is "chat_ok order ?s")
proof -
  have u: "userOk order (ct_Broker s) c (Some u)" using assms(1,2) unfolding chat_ok_def by metis
  then have k: "unknown order (ct_Broker s) c" "cu_channel u = []" "cu_Output u = [welcomeText]" using assms(3) by (auto simp: userOk_def)
  have "userOk order (ct_Broker ?s) d (ct_Conns ?s d)" for d
  proof (cases "d = c")
    case True
    have "delivered order (ct_Broker ?s) c (u\<lparr>cu_Phase := Chatting\<rparr>)"
      unfolding delivered_def using k by (intro exI[of _ "[]"]) (simp add: unknown_def toBroker_def setUser_def)
    then show ?thesis using True u by (auto simp: userOk_def toBroker_def setUser_def)
  next
    case False
    have "userOk order (ct_Broker ?s) d v = userOk order (ct_Broker s) d v" for v using False
      by (simp add: userOk_def unknown_def delivered_def toBroker_def setUser_def split: option.split)
    moreover have "userOk order (ct_Broker s) d (ct_Conns s d)" using assms(1) by (simp add: chat_ok_def)
    ultimately show ?thesis using False by (simp add: toBroker_def setUser_def)
  qed
  moreover have "broker_ok (ct_Broker ?s)"
    using assms(1) k(1) by (auto simp: chat_ok_def broker_ok_def unknown_def toBroker_def setUser_def)
  ultimately show ?thesis by (simp add: chat_ok_def)
qed

text \<open>The steps of the broker.\<close>

lemma send_ok:
  assumes "chat_ok order s" "br_Sends (ct_Broker s) = (c, text) # sends" "ct_Conns s c = Some u"
  shows "chat_ok order (setUser c (u\<lparr>cu_channel := cu_channel u @ [text]\<rparr>) (s\<lparr>ct_Broker := (ct_Broker s)\<lparr>br_Sends := sends\<rparr>\<rparr>))"
    (is "chat_ok order ?s")
proof -
  have u: "userOk order (ct_Broker s) c (Some u)" using assms(1,3) unfolding chat_ok_def by metis
  then have ph: "cu_Phase u = Chatting" using assms(2) by (auto simp: userOk_def unknown_def split: if_splits)
  have "userOk order (ct_Broker ?s) d (ct_Conns ?s d)" for d
  proof (cases "d = c")
    case True
    have "delivered order (ct_Broker ?s) c (u\<lparr>cu_channel := cu_channel u @ [text]\<rparr>)"
      using u ph assms(2) by (auto simp: userOk_def delivered_def setUser_def)
    then show ?thesis using True u ph by (auto simp: userOk_def setUser_def)
  next
    case False
    have "userOk order (ct_Broker ?s) d v = userOk order (ct_Broker s) d v" for v using False assms(2)
      by (simp add: userOk_def unknown_def delivered_def setUser_def split: option.split)
    moreover have "userOk order (ct_Broker s) d (ct_Conns s d)" using assms(1) by (simp add: chat_ok_def)
    ultimately show ?thesis using False by (simp add: setUser_def)
  qed
  moreover have "broker_ok (ct_Broker ?s)" using assms(1) by (simp add: chat_ok_def broker_ok_def setUser_def)
  ultimately show ?thesis by (simp add: chat_ok_def)
qed

lemma linesFor_unknown:
  assumes "c \<notin> snd ` set users" "bm_op m = RegisterOp \<Longrightarrow> bm_senderChannel m \<noteq> Some c"
  shows "linesFor order n users m c = []"
  using assms by (auto simp: linesFor_def image_iff split: messageType.split option.split)

lemma handle_ok:
  assumes "chat_ok order s" "\<forall>n users. mset (order n users) = mset users"
    and "br_Sends (ct_Broker s) = []" "br_channel (ct_Broker s) = m # rest"
  shows "chat_ok order (s\<lparr>ct_Broker := handleBrokerMessage order ((ct_Broker s)\<lparr>br_channel := rest\<rparr>) m\<rparr>)"
proof -
  let ?b = "(ct_Broker s)\<lparr>br_channel := rest\<rparr>"
  let ?b' = "handleBrokerMessage order ?b m"
  have b: "br_users (ct_Broker s) = roomAfter (br_Handled (ct_Broker s))" "distinct (knownChans (ct_Broker s))"
    using assms(1) unfolding chat_ok_def broker_ok_def by blast+
  have ok: "br_users ?b = roomAfter (br_Handled ?b)" "distinct (map snd (br_users ?b) @ regChans (m # rest))"
    using b(1) b(2)[unfolded knownChans_def assms(4)] by (simp_all del: regChans_simps distinct_append)
  then have d: "distinct (map snd (br_users ?b))" by simp
  note sp = handleBrokerMessage_spec[OF assms(2) d _ ok(1), where m = m]
  have sends: "br_Sends ?b = []" using assms(3) by simp
  note sp = sp(1)[OF sends] sp(2)[OF sends] sp(3,4)[OF sends]
  have tr: "transcript order (br_Handled ?b') c = transcript order (br_Handled ?b) c @ sendsTo c (br_Sends ?b')" for c
    unfolding sp(2,4) transcript_snoc ok(1) ..
  have known: "set (map snd (br_users ?b')) \<subseteq> set (map snd (br_users ?b) @ regChans [m])"
    "distinct (map snd (br_users ?b') @ regChans rest)"
    using ok(2) unfolding sp(1) roomAfter_snoc ok(1)[symmetric]
    by (auto simp: roomStep_def distinct_map_filter split: messageType.split option.split)
  have "userOk order ?b' c (ct_Conns s c)" for c
  proof -
    have old: "userOk order (ct_Broker s) c (ct_Conns s c)" using assms(1) by (simp add: chat_ok_def)
    have unk: "unknown order ?b' c" if u: "unknown order (ct_Broker s) c"
    proof -
      have nu: "c \<notin> snd ` set (br_users ?b)" "c \<notin> set (regChans [m])" "c \<notin> set (regChans rest)"
        using u unfolding unknown_def knownChans_def assms(4) by auto
      have "linesFor order (length (br_Handled ?b)) (br_users ?b) m c = []"
        by (rule linesFor_unknown[OF nu(1)]) (use nu(2) in auto)
      then have "sendsTo c (br_Sends ?b') = []" using sp(2) by simp
      moreover have "c \<notin> snd ` set (br_users ?b')" using known(1) nu by auto
      ultimately show ?thesis using u nu(3) tr[of c] sp(3) by (simp add: unknown_def knownChans_def)
    qed
    have del: "delivered order ?b' c u" if dl: "delivered order (ct_Broker s) c u" for u
    proof -
      obtain w lost where w: "cu_Output u = welcomeText # map (\<lambda>m. m @ [char_of (10 :: nat)]) w"
        "w @ lost @ cu_channel u = transcript order (br_Handled ?b) c" "cu_Writer u = Writing \<longrightarrow> lost = []"
        using dl assms(3) by (auto simp: delivered_def)
      then show ?thesis unfolding delivered_def tr by (intro exI[of _ w] exI[of _ lost]) (simp flip: w(2))
    qed
    show ?thesis using old unk del by (auto simp: userOk_def split: option.splits if_splits)
  qed
  then show ?thesis using sp known by (simp add: chat_ok_def broker_ok_def knownChans_def)
qed

lemma chatStep_ok:
  assumes "chat_ok order s" "\<forall>n users. mset (order n users) = mset users"
  shows "chat_ok order (chatStep letters digits order e s)"
proof -
  have ok: "userOk order (ct_Broker s) c (Some u)" if "ct_Conns s c = Some u" for c u
    using assms(1) that unfolding chat_ok_def by metis
  have same: "chat_ok order (onUser s c guard act)"
    if "\<And>u. ct_Conns s c = Some u \<Longrightarrow> guard u \<Longrightarrow> chat_ok order (act u)" for c guard act
    using that assms(1) by (auto simp: onUser_def split: option.split)
  show ?thesis
  proof (cases e)
    case (Accepted c)
    have "userOk order (ct_Broker s) c (Some newUser)" if "ct_Conns s c = None"
    proof -
      have "userOk order (ct_Broker s) c None" using assms(1) that unfolding chat_ok_def by metis
      then show ?thesis by (simp add: userOk_def newUser_def)
    qed
    then show ?thesis using Accepted assms(1) setUser_ok by simp
  next
    case (NameLine c scanned)
    then show ?thesis using setUser_ok[OF assms(1)] name_ok ok by (auto intro!: same)
  next
    case (RegisterSend c)
    then show ?thesis using register_ok[OF assms(1)] by (auto intro!: same)
  next
    case (ReaderCheck c)
    have "userOk order (ct_Broker s) c (Some (u\<lparr>cu_Reader := ReaderDone\<rparr>))" if "ct_Conns s c = Some u" for u
      using ok[OF that] by (auto simp: userOk_def delivered_def)
    then show ?thesis using ReaderCheck setUser_ok[OF assms(1)] by (auto intro!: same)
  next
    case (ReaderLine c scanned)
    then show ?thesis using setUser_ok[OF assms(1)] reader_ok ok by (auto intro!: same)
  next
    case (ReaderSend c)
    have "chat_ok order (toBroker m (setUser c (u\<lparr>cu_Reader := r\<rparr>) s))"
      if "ct_Conns s c = Some u" "cu_Reader u = ReaderSends m" "r = Reading \<or> r = ReaderDone" for u m r
    proof (rule toBroker_ok[OF setUser_ok[OF assms(1)]])
      show "userOk order (ct_Broker s) c (Some (u\<lparr>cu_Reader := r\<rparr>))" "bm_op m \<noteq> RegisterOp"
        using ok[OF that(1)] that(2,3) by (auto simp: userOk_def delivered_def)
    qed
    then show ?thesis using ReaderSend assms(1) by (auto intro!: same split: readerState.split)
  next
    case (WriterTake c written)
    then show ?thesis using setUser_ok[OF assms(1)] writer_ok[OF ok] assms(1) by (auto intro!: same split: list.split)
  next
    case (WriterCheck c)
    have "userOk order (ct_Broker s) c (Some (u\<lparr>cu_Writer := WriterDone\<rparr>))" if "ct_Conns s c = Some u" "cu_Phase u = Chatting" for u
      using ok[OF that(1)] that(2) by (auto simp: userOk_def delivered_def)
    then show ?thesis using WriterCheck setUser_ok[OF assms(1)] by (auto intro!: same)
  next
    case (WriterSend c)
    have "chat_ok order (toBroker m (setUser c (u\<lparr>cu_Writer := WriterDone\<rparr>) s))"
      if "ct_Conns s c = Some u" "cu_Writer u = WriterSends m" "cu_Phase u = Chatting" for u m
    proof (rule toBroker_ok[OF setUser_ok[OF assms(1)]])
      show "userOk order (ct_Broker s) c (Some (u\<lparr>cu_Writer := WriterDone\<rparr>))" "bm_op m \<noteq> RegisterOp"
        using ok[OF that(1)] that(2,3) by (auto simp: userOk_def delivered_def)
    qed
    then show ?thesis using WriterSend assms(1) by (auto intro!: same split: writerState.split)
  next
    case BrokerStep
    then show ?thesis using send_ok[OF assms(1)] handle_ok[OF assms] assms(1)
      by (auto simp: brokerStep_def Let_def split: list.split option.split)
  qed
qed

lemma runChat_fold: "runChat letters digits order es s = fold (chatStep letters digits order) es s"
  by (induction es arbitrary: s) simp_all

interpretation chats: step_invariant "chatStep letters digits order"
  "\<lambda>s. (\<forall>n users. mset (order n users) = mset users) \<and> chat_ok order s" for letters digits order
  by unfold_locales (simp add: chatStep_ok)

text \<open>C37: Every member of the room is told exactly what the contract of the broker says: in any run, what a connection has
  been sent is the greeting and then, in order and each once, the first lines of its transcript (who is in the room
  when it joins, who enters and leaves afterwards, and what the others say, never its own lines); while its writer
  is running, the rest of the transcript is waiting for it.\<close>

theorem room_gets_transcript:
  assumes "\<forall>n users. mset (order n users) = mset users"
    and "s = runChat letters digits order es newChat" "ct_Conns s c = Some u" "cu_Phase u = Chatting"
  shows "\<exists>n. cu_Output u = welcomeText # map (\<lambda>m. m @ [char_of (10 :: nat)]) (take n (transcript order (br_Handled (ct_Broker s)) c)) \<and>
    (cu_Writer u = Writing \<longrightarrow>
       drop n (transcript order (br_Handled (ct_Broker s)) c) = cu_channel u @ sendsTo c (br_Sends (ct_Broker s)))"
proof -
  have "chat_ok order s" unfolding assms(2) using chats.run_kept[of order newChat letters digits es] assms(1) newChat_ok by (simp add: runChat_fold)
  then have "userOk order (ct_Broker s) c (Some u)" using assms(3) unfolding chat_ok_def by metis
  then have "delivered order (ct_Broker s) c u" using assms(4) by (simp add: userOk_def)
  then obtain w lost where w: "cu_Output u = welcomeText # map (\<lambda>m. m @ [char_of (10 :: nat)]) w"
    "transcript order (br_Handled (ct_Broker s)) c = w @ lost @ cu_channel u @ sendsTo c (br_Sends (ct_Broker s))"
    "cu_Writer u = Writing \<longrightarrow> lost = []" unfolding delivered_def by metis
  show ?thesis unfolding w(2) using w(1,3) by (intro exI[of _ "length w"]) simp
qed

section \<open>Accepted names\<close>

lemma trimLeft_id: "\<forall>e\<in>set encodings. e \<noteq> [] \<longrightarrow> hd s \<noteq> hd e \<Longrightarrow> trimLeft encodings s = s"
proof -
  assume h: "\<forall>e\<in>set encodings. e \<noteq> [] \<longrightarrow> hd s \<noteq> hd e"
  have "List.find (\<lambda>e. e \<noteq> [] \<and> take (length e) s = e) encodings = None"
  proof (rule find_None_iff[THEN iffD2], rule notI)
    assume "\<exists>e. e \<in> set encodings \<and> e \<noteq> [] \<and> take (length e) s = e"
    then obtain e where e: "e \<in> set encodings" "e \<noteq> []" "take (length e) s = e" by blast
    then have "hd s = hd e" by (metis hd_take length_greater_0_conv)
    then show False using h e by blast
  qed
  then show ?thesis by (simp add: trimLeft.simps)
qed

lemma space_ends:
  "\<forall>e\<in>set spaceEncodings. e \<noteq> [] \<and> (hd e \<le> 32 \<or> 128 \<le> hd e) \<and> (last e \<le> 32 \<or> 128 \<le> last e) \<and> (\<forall>b\<in>set e. b < 256)"
  by (simp add: spaceEncodings_def)

definition visible :: "char \<Rightarrow> bool" where
  "visible c \<longleftrightarrow> 32 < byte_of c \<and> byte_of c < 128"

lemma not_visible: "b < 256 \<Longrightarrow> b \<le> 32 \<or> 128 \<le> b \<Longrightarrow> \<not> visible (char_of (b :: nat))"
  by (auto simp: visible_def byte_of_def)

lemma TrimSpace_id:
  assumes "s \<noteq> []" "visible (hd s)" "visible (last s)"
  shows "TrimSpace char_of s = s"
proof -
  have nv: "\<not> visible (hd (map char_of e))" "\<not> visible (last (map char_of e))" if "e \<in> set spaceEncodings" for e
    using bspec[OF space_ends that] not_visible by (simp_all add: hd_map last_map)
  have "trimLeft (map (map char_of) spaceEncodings) s = s"
    by (rule trimLeft_id) (use assms nv in auto)
  moreover have "trimLeft (map rev (map (map char_of) spaceEncodings)) (rev s) = rev s"
    by (rule trimLeft_id) (use assms nv in \<open>auto simp: hd_rev\<close>)
  ultimately show ?thesis by (simp add: TrimSpace_def trimRight_def)
qed

lemma validate_ascii:
  assumes "\<forall>c\<in>set s. isAsciiLetter (byte_of c) \<or> isDigit c" "1 \<le> length s" "length s \<le> 16"
  shows "validate letters digits s = Inr s"
proof -
  have v: "visible c" "byte_of c < 128" if "c \<in> set s" for c
    using assms(1) that by (auto simp: visible_def isAsciiLetter_def isDigit_def)
  have ne: "s \<noteq> []" using assms(2) by auto
  have "TrimSpace char_of s = s" using v(1) ne by (intro TrimSpace_id) simp_all
  moreover have "runes s = map byte_of s" unfolding runes_def by (rule runesOf_ascii) (use v in simp)
  moreover have "List.find (\<lambda>c. \<not> isLetterRune letters c \<and> \<not> isDigitRune digits c) (map byte_of s) = None"
    using assms(1) v(2) by (auto simp: find_None_iff isLetterRune_def isDigitRune_def isDigit_def)
  ultimately show ?thesis using assms(2,3) ne by (simp add: validate_def Let_def)
qed

section \<open>A sample run\<close>

definition noRunes :: "nat \<Rightarrow> bool" where "noRunes r = False"

definition sampleJoin :: "nat \<Rightarrow> string \<Rightarrow> chatEvent list" where
  "sampleJoin c name = [Accepted c, NameLine c (Some name), RegisterSend c, BrokerStep]"

lemma sample_names: "validate noRunes noRunes ''bob'' = Inr ''bob''" "validate noRunes noRunes ''alice'' = Inr ''alice''"
  by (rule validate_ascii; code_simp)+

text \<open>What evaluates a run.\<close>

lemmas run_simps = sampleJoin_def onUser_def setUser_def toBroker_def getUserName_def sample_names brokerStep_def brokerHasRoom_def
  handleBrokerMessage_def registerUser_def userSend_def userLogoff_def userReader_def userWriter_def newBrokerMessage_def newChat_def
  newUser_def brokerChannelCap_def userChannelCap_def Let_def

definition sampleEvents :: "chatEvent list" where
  "sampleEvents =
     sampleJoin 1 ''bob'' @ [BrokerStep] @ sampleJoin 2 ''alice'' @ [BrokerStep, BrokerStep] @
     [ReaderLine 1 (Some ''hi''), ReaderSend 1, BrokerStep, BrokerStep, WriterTake 2 True, WriterTake 2 True]"

definition sampleRun :: chat where
  "sampleRun = runChat noRunes noRunes (\<lambda>_. rev) sampleEvents newChat"

lemma sampleRun_eval:
  obtains u where "ct_Conns sampleRun 2 = Some u" "cu_Phase u = Chatting"
    "cu_Output u = [welcomeText, roomText [''bob''] @ [char_of (10 :: nat)], saidText ''bob'' ''hi'' @ [char_of (10 :: nat)]]"
  by (simp add: sampleRun_def sampleEvents_def run_simps)

theorem room_gets_transcript_witness:
  "\<exists>u n. ct_Conns sampleRun 2 = Some u \<and> length (cu_Output u) = 3 \<and>
     cu_Output u = welcomeText # map (\<lambda>m. m @ [char_of (10 :: nat)]) (take n (transcript (\<lambda>_. rev) (br_Handled (ct_Broker sampleRun)) 2))"
proof -
  obtain u where u: "ct_Conns sampleRun 2 = Some u" "cu_Phase u = Chatting" "length (cu_Output u) = 3"
    using sampleRun_eval by (metis length_Cons list.size(3) numeral_3_eq_3)
  have "\<forall>(n :: nat) users. mset (rev users) = mset users" by simp
  from room_gets_transcript[OF this sampleRun_def u(1,2)] u(1,3) show ?thesis by blast
qed

text \<open>
  A second connection with a name in use is not told so: it speaks as the first one, sees nothing, and when it
  leaves, the first one is taken out of the room.
\<close>

definition impostorEvents :: "chatEvent list" where
  "impostorEvents =
     sampleJoin 1 ''bob'' @ [BrokerStep] @ sampleJoin 2 ''alice'' @ [BrokerStep, BrokerStep] @ sampleJoin 3 ''bob'' @
     [ReaderLine 3 (Some ''i am bob''), ReaderSend 3, BrokerStep, BrokerStep, WriterTake 2 True, WriterTake 2 True,
      ReaderLine 3 None, ReaderSend 3, BrokerStep, BrokerStep]"

definition impostorRun :: chat where
  "impostorRun = runChat noRunes noRunes (\<lambda>_. id) impostorEvents newChat"

theorem impostor_speaks_and_evicts:
  "map_option (\<lambda>u. last (cu_Output u)) (ct_Conns impostorRun 2) = Some (saidText ''bob'' ''i am bob'' @ [char_of (10 :: nat)]) \<and>
   map_option cu_Output (ct_Conns impostorRun 3) = Some [welcomeText] \<and>
   map fst (br_users (ct_Broker impostorRun)) = [''alice'']"
  by (simp add: impostorRun_def impostorEvents_def run_simps)

text \<open>
  A connection whose writer has ended still receives messages until its logoff is handled. Ten of them fill its
  channel, and then the broker waits for ever, and with it everybody: nothing is handled any more.
\<close>

definition jammed :: "chat \<Rightarrow> bool" where
  "jammed s \<longleftrightarrow>
     (case br_Sends (ct_Broker s) of
        [] \<Rightarrow> False
      | (c, text) # sends \<Rightarrow>
          (case ct_Conns s c of
             None \<Rightarrow> False
           | Some u \<Rightarrow> cu_Phase u = Chatting \<and> cu_Writer u \<noteq> Writing \<and> userChannelCap \<le> length (cu_channel u)))"

definition staysJammed :: "chat \<Rightarrow> chat \<Rightarrow> bool" where
  "staysJammed s t \<longleftrightarrow> jammed t \<and> br_Handled (ct_Broker t) = br_Handled (ct_Broker s)"

lemma jammed_step:
  assumes "jammed s"
  shows "staysJammed s (chatStep letters digits order e s)"
proof -
  obtain c line sends u where j: "br_Sends (ct_Broker s) = (c, line) # sends" "ct_Conns s c = Some u"
    "cu_Phase u = Chatting" "cu_Writer u \<noteq> Writing" "userChannelCap \<le> length (cu_channel u)"
    using assms by (auto simp: jammed_def split: list.splits option.splits)
  have self: "staysJammed s s" using assms by (simp add: staysJammed_def)
  have set: "staysJammed s (setUser d v s)"
    if "d = c \<Longrightarrow> cu_Phase v = Chatting \<and> cu_Writer v \<noteq> Writing \<and> cu_channel v = cu_channel u" for d v
    using j that by (auto simp: staysJammed_def jammed_def setUser_def)
  have send: "staysJammed s (toBroker m t)"
    if "staysJammed s t" for m t
    using that by (auto simp: staysJammed_def jammed_def toBroker_def split: list.splits option.splits)
  have same: "staysJammed s (onUser s d guard act)"
    if "\<And>v. ct_Conns s d = Some v \<Longrightarrow> guard v \<Longrightarrow> staysJammed s (act v)"
    for d guard act
    using that self by (auto simp: onUser_def split: option.split)
  show ?thesis
  proof (cases e)
    case BrokerStep
    then show ?thesis using self j by (simp add: brokerStep_def)
  qed (use j self in \<open>auto intro!: same set send simp: userReader_def userWriter_def split: option.splits readerState.splits writerState.splits list.splits\<close>)
qed

interpretation jams: event_system "chatStep letters digits order" "\<lambda>_. True" jammed
  "\<lambda>s t. br_Handled (ct_Broker t) = br_Handled (ct_Broker s)" for letters digits order
  using jammed_step by unfold_locales (simp_all add: staysJammed_def)

theorem jammed_for_ever:
  "jammed s \<Longrightarrow> br_Handled (ct_Broker (runChat letters digits order es s)) = br_Handled (ct_Broker s)"
  using jams.run_rel by (simp add: runChat_fold list_all_iff)

definition jamEvents :: "chatEvent list" where
  "jamEvents =
     sampleJoin 1 ''bob'' @ [BrokerStep] @ sampleJoin 2 ''alice'' @ [BrokerStep, BrokerStep] @
     concat (replicate 11 [ReaderLine 1 (Some ''hi''), ReaderSend 1]) @
     [WriterTake 2 False, WriterSend 2] @ concat (replicate 11 [BrokerStep, BrokerStep])"

definition jamRun :: chat where
  "jamRun = runChat noRunes noRunes (\<lambda>_. id) jamEvents newChat"

theorem chat_can_jam: "jammed jamRun"
  by (simp add: jamRun_def jamEvents_def run_simps jammed_def numeral_eq_Suc)

end
