(* ===== verification/Mob_Middle.thy ===== *)
theory Mob_Middle
  imports Go_Unicode
begin

text \<open>
  \<open>internal/mobinthemiddle\<close>, files \<open>man_in_middle_attack.go\<close> and \<open>mobinthemiddle.go\<close>: the rewriting of
  addresses in chat lines and the two relays between a client and the chat server.
\<close>

section \<open>Rewriting a line\<close>

definition injectionWallet :: string where
  "injectionWallet = ''7YWHMfk9JZe0LM0g1ZauHuiSxhI''"

definition isValidAddress :: "(nat \<Rightarrow> bool) \<Rightarrow> (nat \<Rightarrow> bool) \<Rightarrow> string \<Rightarrow> bool" where
  "isValidAddress letters digits content =
     (if length content < 26 \<or> length content > 35 then False
      else if content ! 0 \<noteq> CHR ''7'' then False
      else alphanumeric letters digits content)"

definition MotmAttack :: "(nat \<Rightarrow> bool) \<Rightarrow> (nat \<Rightarrow> bool) \<Rightarrow> string \<Rightarrow> string" where
  "MotmAttack letters digits content =
     (let ws = splitOn (CHR '' '') content
      in joinWith (CHR '' '') (map (\<lambda>word. if isValidAddress letters digits word then injectionWallet else word) ws))"

section \<open>The relays\<close>

text \<open>
  A relay ends when it finds the shared context cancelled, when its source cannot be read, or when its
  destination cannot be written; it cancels the context in the last two cases. When it has ended it closes both
  connections, after which neither can be written. A write that fails counts as having sent nothing of its line.
\<close>

datatype side = Victim | Upstream

datatype relayState = Running | Ending | Ended

record proxy =
  px_State :: "side \<Rightarrow> relayState"
  px_Cancelled :: bool
  px_Closed :: bool
  px_Sent :: "side \<Rightarrow> string"

text \<open>
  What can happen to the relay that reads from a side: the check of the context, a line (without its newline) with
  whether the write succeeds, a read error, and the deferred closing.
\<close>

datatype relayEvent = CheckContext side | GotLine side string bool | ReadError side | CloseAll side

definition newlineChar :: char where
  "newlineChar = char_of (10 :: nat)"

definition endRelay :: "side \<Rightarrow> proxy \<Rightarrow> proxy" where
  "endRelay s p = p\<lparr>px_State := (px_State p)(s := Ending)\<rparr>"

fun relayStep :: "(nat \<Rightarrow> bool) \<Rightarrow> (nat \<Rightarrow> bool) \<Rightarrow> relayEvent \<Rightarrow> proxy \<Rightarrow> proxy" where
  "relayStep letters digits (CheckContext s) p =
     (if px_State p s = Running \<and> px_Cancelled p then endRelay s p else p)"
| "relayStep letters digits (GotLine s messageString written) p =
     (if px_State p s \<noteq> Running then p
      else if px_Closed p \<or> \<not> written then (endRelay s p)\<lparr>px_Cancelled := True\<rparr>
      else p\<lparr>px_Sent := (px_Sent p)(s := px_Sent p s @ MotmAttack letters digits messageString @ [newlineChar])\<rparr>)"
| "relayStep letters digits (ReadError s) p =
     (if px_State p s = Running then (endRelay s p)\<lparr>px_Cancelled := True\<rparr> else p)"
| "relayStep letters digits (CloseAll s) p =
     (if px_State p s = Ending then p\<lparr>px_State := (px_State p)(s := Ended), px_Closed := True\<rparr> else p)"

text \<open>The connection once the upstream server is reached.\<close>

definition newProxy :: proxy where
  "newProxy = \<lparr>px_State = (\<lambda>_. Running), px_Cancelled = False, px_Closed = False, px_Sent = (\<lambda>_. '''')\<rparr>"

text \<open>\<open>handleConnection\<close>: without the upstream server the client is hung up on.\<close>

definition startProxy :: "bool \<Rightarrow> proxy option" where
  "startProxy dialled = (if \<not> dialled then None else Some newProxy)"

fun runProxy :: "(nat \<Rightarrow> bool) \<Rightarrow> (nat \<Rightarrow> bool) \<Rightarrow> relayEvent list \<Rightarrow> proxy \<Rightarrow> proxy" where
  "runProxy letters digits [] p = p"
| "runProxy letters digits (e # es) p = runProxy letters digits es (relayStep letters digits e p)"

section \<open>What the rewriting does\<close>

lemma wallet_facts: "CHR '' '' \<notin> set injectionWallet" "injectionWallet ! 0 = CHR ''7''" "length injectionWallet = 27"
  "\<forall>c\<in>set injectionWallet. byte_of c < 128 \<and> (isAsciiLetter (byte_of c) \<or> isDigit c)"
  by code_simp+

lemma wallet_valid: "isValidAddress letters digits injectionWallet"
  using wallet_facts by (simp add: isValidAddress_def alphanumeric_ascii)

lemma attack_words:
  "splitOn (CHR '' '') (MotmAttack letters digits content) =
   map (\<lambda>word. if isValidAddress letters digits word then injectionWallet else word) (splitOn (CHR '' '') content)"
  unfolding MotmAttack_def Let_def
  by (rule split_join) (auto simp: wallet_facts dest: splitOn_parts)

text \<open>The lines a side gets: those read from the other while its relay runs and writes succeed.\<close>

fun linesOf :: "side \<Rightarrow> relayEvent list \<Rightarrow> string list" where
  "linesOf s [] = []"
| "linesOf s (GotLine t line written # es) = (if t = s then line # linesOf s es else linesOf s es)"
| "linesOf s (_ # es) = linesOf s es"

lemma stopped_sends_nothing:
  "px_State p s \<in> {Ending, Ended} \<Longrightarrow>
   px_Sent (runProxy letters digits es p) s = px_Sent p s \<and> px_State (runProxy letters digits es p) s \<in> {Ending, Ended}"
proof (induction es arbitrary: p)
  case (Cons e es)
  have "px_State (relayStep letters digits e p) s \<in> {Ending, Ended} \<and> px_Sent (relayStep letters digits e p) s = px_Sent p s"
    using Cons.prems by (cases e) (auto simp: endRelay_def)
  then show ?case using Cons.IH by simp
qed simp

definition rewritten :: "(nat \<Rightarrow> bool) \<Rightarrow> (nat \<Rightarrow> bool) \<Rightarrow> string list \<Rightarrow> string" where
  "rewritten letters digits ls = concat (map (\<lambda>line. MotmAttack letters digits line @ [newlineChar]) ls)"

lemma relay_lines:
  "\<exists>n. px_Sent (runProxy letters digits es p) s = px_Sent p s @ rewritten letters digits (take n (linesOf s es)) \<and>
     (n = length (linesOf s es) \<or> px_State (runProxy letters digits es p) s \<in> {Ending, Ended})"
proof (induction es arbitrary: p)
  case Nil
  then show ?case by (auto simp: rewritten_def)
next
  case (Cons e es)
  let ?p = "relayStep letters digits e p"
  from Cons.IH[of ?p] obtain n where n: "px_Sent (runProxy letters digits es ?p) s = px_Sent ?p s @ rewritten letters digits (take n (linesOf s es))"
    "n = length (linesOf s es) \<or> px_State (runProxy letters digits es ?p) s \<in> {Ending, Ended}" by blast
  show ?case
  proof (cases "\<exists>line written. e = GotLine s line written")
    case True
    then obtain line written where e: "e = GotLine s line written" by blast
    show ?thesis
    proof (cases "px_State p s = Running \<and> \<not> px_Closed p \<and> written")
      case True
      then have "px_Sent ?p s = px_Sent p s @ MotmAttack letters digits line @ [newlineChar]" using e by simp
      then show ?thesis using n e by (intro exI[of _ "Suc n"]) (simp add: rewritten_def)
    next
      case False
      then have p: "px_State ?p s \<in> {Ending, Ended}" "px_Sent ?p s = px_Sent p s"
        using e by (auto simp: endRelay_def intro: relayState.exhaust[of "px_State p s"])
      show ?thesis using stopped_sends_nothing[OF p(1)] p(2) by (intro exI[of _ 0]) (simp add: rewritten_def)
    qed
  next
    case False
    then have "px_Sent ?p s = px_Sent p s" "linesOf s (e # es) = linesOf s es"
      by (cases e; auto simp: endRelay_def)+
    then show ?thesis using n by (intro exI[of _ n]) simp
  qed
qed

text \<open>C38: Whatever the order in which the two relays run, fail and close, each side receives the lines read from the
  other in order, all of them as long as the relay runs, and with every line changed in one way only: each of its
  words that is a valid address is the injected one, all other words are as they were.\<close>

theorem relays_inject_the_wallet:
  "\<exists>n. px_Sent (runProxy letters digits es newProxy) s = rewritten letters digits (take n (linesOf s es)) \<and>
     (n = length (linesOf s es) \<or> px_State (runProxy letters digits es newProxy) s \<in> {Ending, Ended}) \<and>
     (\<forall>line. splitOn (CHR '' '') (MotmAttack letters digits line) =
        map (\<lambda>w. if isValidAddress letters digits w then injectionWallet else w) (splitOn (CHR '' '') line))"
  using relay_lines[of letters digits es newProxy s] attack_words by (auto simp: newProxy_def)

end
