(* ===== verification/Unusual_Database.thy ===== *)
theory Unusual_Database
  imports Go_Strings
begin

text \<open>
  \<open>internal/unusualdatabase\<close>, files \<open>database.go\<close> and \<open>unusualdatabase.go\<close>: a key-value store over datagrams. Every
  datagram is handled by a goroutine of its own with one operation on the locked map, so a run is the list of
  requests in the order in which they get the lock. Sending a reply succeeds or is only logged.
\<close>

section \<open>The database\<close>

record weirdDatabase =
  wd_Data :: "string \<rightharpoonup> string"

definition insertKey :: "string \<Rightarrow> string \<Rightarrow> weirdDatabase \<Rightarrow> weirdDatabase" where
  "insertKey key value db = db\<lparr>wd_Data := (wd_Data db)(key \<mapsto> value)\<rparr>"

definition retrieve :: "string \<Rightarrow> weirdDatabase \<Rightarrow> bool \<times> string" where
  "retrieve key db = (case wd_Data db key of None \<Rightarrow> (False, '''') | Some value \<Rightarrow> (True, value))"

section \<open>Requests\<close>

record 'a udpMessage =
  um_Message :: string
  um_Sender :: 'a

definition protectedKey :: string where
  "protectedKey = ''version''"

text \<open>\<open>strings.Cut(s, "=")\<close>.\<close>

definition cutEquals :: "string \<Rightarrow> string \<times> string \<times> bool" where
  "cutEquals s =
     (if CHR ''='' \<in> set s
      then (takeWhile (\<lambda>c. c \<noteq> CHR ''='') s, tl (dropWhile (\<lambda>c. c \<noteq> CHR ''='') s), True)
      else (s, '''', False))"

definition handleInsert :: "string \<Rightarrow> string \<Rightarrow> weirdDatabase \<Rightarrow> weirdDatabase" where
  "handleInsert key value db = (if key = protectedKey then db else insertKey key value db)"

definition handleDataRequest :: "string \<Rightarrow> 'a udpMessage \<Rightarrow> weirdDatabase \<Rightarrow> 'a \<times> string" where
  "handleDataRequest key request db =
     (case retrieve key db of
        (exists, value) \<Rightarrow>
          if \<not> exists then (um_Sender request, key @ ''='')
          else (um_Sender request, um_Message request @ ''='' @ value))"

text \<open>The replies to a request, with their receivers, and the database after it.\<close>

definition handleDatagram :: "'a udpMessage \<Rightarrow> weirdDatabase \<Rightarrow> ('a \<times> string) list \<times> weirdDatabase" where
  "handleDatagram request db =
     (case cutEquals (um_Message request) of
        (key, value, isInsert) \<Rightarrow>
          if isInsert then ([], handleInsert key value db) else ([handleDataRequest key request db], db))"

text \<open>A read of the socket cuts a datagram at the size of the buffer.\<close>

definition receiveDatagram :: "string \<Rightarrow> 'a \<Rightarrow> 'a udpMessage" where
  "receiveDatagram payload sender = \<lparr>um_Message = take 999 payload, um_Sender = sender\<rparr>"

definition initialDatabase :: weirdDatabase where
  "initialDatabase = insertKey ''version'' ''madvillains vault of villainy'' \<lparr>wd_Data = (\<lambda>_. None)\<rparr>"

text \<open>Where the server listens; \<open>onFly\<close> is whether the variable \<open>FLY_APP_NAME\<close> is set.\<close>

definition getBindingAddress :: "bool \<Rightarrow> nat \<Rightarrow> string" where
  "getBindingAddress onFly port =
     (if onFly then ''fly-global-services:'' @ itoa (int port) else ''0.0.0.0:'' @ itoa (int port))"

fun runDatagrams :: "(string \<times> 'a) list \<Rightarrow> weirdDatabase \<Rightarrow> ('a \<times> string) list" where
  "runDatagrams [] db = []"
| "runDatagrams ((payload, sender) # ds) db =
     (case handleDatagram (receiveDatagram payload sender) db of
        (replies, db') \<Rightarrow> replies @ runDatagrams ds db')"

section \<open>The specification\<close>

text \<open>The value a key has after some datagrams: that of the last insert for it; inserts for \<open>version\<close> do not count.\<close>

fun insertOf :: "string \<times> 'a \<Rightarrow> (string \<times> string) option" where
  "insertOf (payload, sender) =
     (let s = take 999 payload; key = takeWhile (\<lambda>c. c \<noteq> CHR ''='') s in
      if CHR ''='' \<in> set s \<and> key \<noteq> ''version'' then Some (key, drop (length key + 1) s) else None)"

definition valueAfter :: "(string \<times> 'a) list \<Rightarrow> string \<Rightarrow> string" where
  "valueAfter ds key =
     (if key = ''version'' then ''madvillains vault of villainy''
      else
        (case filter (\<lambda>(k, v). k = key) (List.map_filter insertOf ds) of
           [] \<Rightarrow> ''''
         | ins \<Rightarrow> snd (last ins)))"

definition databaseAnswer :: "(string \<times> 'a) list \<Rightarrow> string \<times> 'a \<Rightarrow> ('a \<times> string) list" where
  "databaseAnswer before d =
     (case d of
        (payload, sender) \<Rightarrow>
          (let s = take 999 payload in
           if CHR ''='' \<in> set s then [] else [(sender, s @ ''='' @ valueAfter before s)]))"

definition database_ok :: "(string \<times> 'a) list \<Rightarrow> weirdDatabase \<Rightarrow> bool" where
  "database_ok ds db \<longleftrightarrow> (\<forall>key. valueAfter ds key = (case wd_Data db key of None \<Rightarrow> '''' | Some v \<Rightarrow> v))"

lemma database_ok_initial: "database_ok [] initialDatabase"
  by (simp add: database_ok_def valueAfter_def initialDatabase_def insertKey_def List.map_filter_simps)

lemma tl_dropWhile: "tl (dropWhile p s) = drop (length (takeWhile p s) + 1) s"
  by (induction s) auto

lemma cutEquals_insert: "insertOf (payload, sender) =
  (case cutEquals (take 999 payload) of (key, val, isInsert) \<Rightarrow> if isInsert \<and> key \<noteq> protectedKey then Some (key, val) else None)"
  by (simp only: insertOf.simps cutEquals_def protectedKey_def Let_def tl_dropWhile split: if_split prod.split) simp

lemma valueAfter_snoc:
  "valueAfter (ds @ [d]) key =
   (case insertOf d of Some (k, v) \<Rightarrow> if k = key then v else valueAfter ds key | None \<Rightarrow> valueAfter ds key)"
proof (cases d)
  case (Pair payload sender)
  have nv: "k \<noteq> ''version''" if "insertOf d = Some (k, v)" for k v using that by (simp add: Pair Let_def split: if_splits)
  have "List.map_filter insertOf (ds @ [d]) = List.map_filter insertOf ds @ (case insertOf d of None \<Rightarrow> [] | Some x \<Rightarrow> [x])"
    by (simp add: List.map_filter_def split: option.split)
  then show ?thesis using nv by (cases "insertOf d") (auto simp: valueAfter_def split: list.split)
qed

lemma handleDatagram_ok:
  assumes "database_ok before db" "handleDatagram (receiveDatagram payload sender) db = (replies, db')"
  shows "replies = databaseAnswer before (payload, sender) \<and> database_ok (before @ [(payload, sender)]) db'"
proof -
  obtain key v isInsert where c: "cutEquals (take 999 payload) = (key, v, isInsert)" by (metis prod_cases3)
  have i: "isInsert \<longleftrightarrow> CHR ''='' \<in> set (take 999 payload)" using c by (auto simp: cutEquals_def split: if_splits)
  show ?thesis
  proof (cases isInsert)
    case True
    then have "replies = []" "db' = handleInsert key v db" using assms(2) c by (simp_all add: handleDatagram_def receiveDatagram_def)
    moreover have "insertOf (payload, sender) = (if key = protectedKey then None else Some (key, v))"
      unfolding cutEquals_insert c using True by simp
    ultimately show ?thesis using assms(1) i True
      by (auto simp: database_ok_def valueAfter_snoc databaseAnswer_def handleInsert_def insertKey_def)
  next
    case False
    then have k: "key = take 999 payload" using c i by (simp add: cutEquals_def)
    have "replies = [handleDataRequest key (receiveDatagram payload sender) db]" "db' = db"
      using False assms(2) c by (auto simp: handleDatagram_def receiveDatagram_def)
    moreover have "insertOf (payload, sender) = None" unfolding cutEquals_insert c using False by simp
    ultimately show ?thesis using assms(1) i False k
      by (auto simp: database_ok_def valueAfter_snoc databaseAnswer_def handleDataRequest_def retrieve_def receiveDatagram_def
          simp del: insertOf.simps split: option.splits)
  qed
qed

lemma runDatagrams_from:
  assumes "database_ok before db"
  shows "runDatagrams ds db = concat (map (\<lambda>i. databaseAnswer (before @ take i ds) (ds ! i)) [0..<length ds])"
  using assms
proof (induction ds arbitrary: before db)
  case (Cons d ds)
  obtain payload sender where d: "d = (payload, sender)" by force
  obtain replies db' where h: "handleDatagram (receiveDatagram payload sender) db = (replies, db')" by force
  note ok = handleDatagram_ok[OF Cons.prems h]
  then show ?case using Cons.IH[of "before @ [d]" db'] h
    by (simp add: d map_upt_Suc del: upt_Suc)
qed simp

text \<open>C39: The database answers every query, whoever sends it, with the value of the last insert for its key before it,
  nothing for a key never inserted, and with the fixed text for \<open>version\<close>, which no insert can change; inserts are
  not answered.\<close>

theorem queries_get_last_value:
  "runDatagrams ds initialDatabase = concat (map (\<lambda>i. databaseAnswer (take i ds) (ds ! i)) [0..<length ds])"
  using runDatagrams_from[OF database_ok_initial] by simp

end
