(* ===== verification/Smoke_Test.thy ===== *)
theory Smoke_Test
  imports Go_Prelude
begin

text \<open>
  \<open>internal/smoketest/smoketest.go\<close>: the echo loop of a connection. A read delivers at most a batch, possibly
  together with an error; a write may fail after some of its bytes.
\<close>

definition maxTotalBytes :: nat where
  "maxTotalBytes = 1024 * 1024"

definition batchSize :: nat where
  "batchSize = 4 * 1024"

datatype readFault = EndOfStream | ReadFailed

type_synonym batch = "bytes \<times> readFault option"

text \<open>
  \<open>writeFault t\<close> is the number of bytes a write still sends when it fails at total \<open>t\<close>. The list of
  reads ends where the client stops sending without closing.
\<close>

fun echoLoop :: "(nat \<Rightarrow> nat option) \<Rightarrow> nat \<Rightarrow> batch list \<Rightarrow> bytes" where
  "echoLoop writeFault totalBytes [] = []"
| "echoLoop writeFault totalBytes ((buffer, err) # reads) =
     (let n = length buffer; totalBytes' = totalBytes + n in
      case (if n > 0 then writeFault totalBytes' else None) of
        Some sent \<Rightarrow> take sent buffer
      | None \<Rightarrow>
          buffer @
          (if totalBytes' \<ge> maxTotalBytes then []
           else if err \<noteq> None then []
           else echoLoop writeFault totalBytes' reads))"

text \<open>All that \<open>handleConnection\<close> writes.\<close>

definition echoConnection :: "(nat \<Rightarrow> nat option) \<Rightarrow> batch list \<Rightarrow> bytes" where
  "echoConnection writeFault reads = echoLoop writeFault 0 reads"

text \<open>What the connection delivers: reading stops with the first read that reports an error.\<close>

fun received :: "batch list \<Rightarrow> bytes" where
  "received [] = []"
| "received ((buffer, err) # reads) = buffer @ (if err = None then received reads else [])"

definition faultless :: "(nat \<Rightarrow> nat option) \<Rightarrow> bool" where
  "faultless writeFault \<longleftrightarrow> (\<forall>t. writeFault t = None)"

lemma echoLoop_bounds:
  assumes "\<forall>(buffer, err)\<in>set reads. length buffer \<le> batchSize" "t < maxTotalBytes"
  shows "\<exists>rest. received reads = echoLoop writeFault t reads @ rest \<and>
    t + length (echoLoop writeFault t reads) < maxTotalBytes + batchSize \<and>
    (faultless writeFault \<longrightarrow>
      (if t + length (received reads) < maxTotalBytes then rest = [] else maxTotalBytes \<le> t + length (echoLoop writeFault t reads)))"
  using assms
proof (induction reads arbitrary: t)
  case Nil
  then show ?case by (simp add: batchSize_def)
next
  case (Cons r reads)
  obtain buffer err where r: "r = (buffer, err)" by force
  have b: "length buffer \<le> batchSize" using Cons.prems(1) r by auto
  let ?t = "t + length buffer"
  show ?case
  proof (cases "if length buffer > 0 then writeFault ?t else None")
    case (Some sent)
    then have "\<not> faultless writeFault" by (auto simp: faultless_def split: if_splits)
    moreover have "take sent buffer @ (drop sent buffer @ (if err = None then received reads else [])) = received (r # reads)"
      by (simp add: r flip: append_assoc)
    moreover have "t + length (take sent buffer) < maxTotalBytes + batchSize" using b Cons.prems(2) by simp
    ultimately show ?thesis using Some by (intro exI[of _ "drop sent buffer @ (if err = None then received reads else [])"]) (simp add: r)
  next
    case ok: None
    show ?thesis
    proof (cases "maxTotalBytes \<le> ?t \<or> err \<noteq> None")
      case True
      then show ?thesis using ok b Cons.prems(2) by (auto simp: r Let_def batchSize_def)
    next
      case False
      then obtain rest where "received reads = echoLoop writeFault ?t reads @ rest"
        "?t + length (echoLoop writeFault ?t reads) < maxTotalBytes + batchSize"
        "faultless writeFault \<longrightarrow>
          (if ?t + length (received reads) < maxTotalBytes then rest = [] else maxTotalBytes \<le> ?t + length (echoLoop writeFault ?t reads))"
        using Cons.IH[of ?t] Cons.prems(1) by auto
      then show ?thesis using ok False by (intro exI[of _ rest]) (auto simp: r Let_def add.assoc)
    qed
  qed
qed

text \<open>C40: The server echoes exactly what it receives, in any connection: a prefix that passes the megabyte by less than one batch,
  and, as long as no write fails, all of it when it is less than a megabyte, and otherwise at least a megabyte.\<close>

theorem echo_is_exact_prefix:
  assumes "\<forall>(buffer, err)\<in>set reads. length buffer \<le> batchSize"
  shows "\<exists>rest. received reads = echoConnection writeFault reads @ rest \<and>
    length (echoConnection writeFault reads) < maxTotalBytes + batchSize \<and>
    (faultless writeFault \<longrightarrow>
      (if length (received reads) < maxTotalBytes then rest = [] else maxTotalBytes \<le> length (echoConnection writeFault reads)))"
proof -
  have "0 < maxTotalBytes" by (simp add: maxTotalBytes_def)
  from echoLoop_bounds[OF assms this] show ?thesis by (simp only: echoConnection_def add_0)
qed

theorem echo_is_exact_prefix_witness: "echoConnection (\<lambda>_. None) [([1, 2], None), ([], None), ([3], Some EndOfStream)] = [1, 2, 3]"
proof -
  have "\<forall>(buffer, err)\<in>set [([1, 2 :: byte], None), ([], None), ([3], Some EndOfStream)]. length buffer \<le> batchSize"
    by (simp add: batchSize_def)
  from echo_is_exact_prefix[OF this, of "\<lambda>_. None"] show ?thesis by (auto simp: faultless_def maxTotalBytes_def split: if_splits)
qed

end
