(* ===== verification/Spec2Isabelle.thy ===== *)
theory Spec2Isabelle
  imports Job_Center LR_Routing ISL_Layer Speed_Daemon VCS_Session
    Prime_Time Means_To_End Budget_Chat Mob_Middle Unusual_Database Smoke_Test
begin

text \<open>
  Firewatch is a Go program that runs a set of independent network servers, one package per server under
  \<open>src/internal\<close>, started by \<open>src/cmd/firewatch/main.go\<close>. This development models the servers as
  Isabelle functions and transition systems translated from the source, and proves what makes each of them
  correct. Network sockets are byte lists (what was read, what was written); the goroutines of a server are
  interleaved by explicit lists of events or by step relations, and what is proved holds for all of them.

  \<^bold>\<open>Shared theories.\<close> \<open>Go_Prelude\<close>: results that may panic, slices and indices. \<open>Go_Strings\<close>: conversion and
  trimming of strings. \<open>Go_Json\<close>: JSON values as \<open>encoding/json\<close> hands them to structs. \<open>Go_Framing\<close>: taking complete
  messages off a buffer; the locale \<open>framer\<close> shows that the division of a stream into reads does not matter, and
  is interpreted on lines and on the binary messages of the speed daemon. \<open>Go_Float\<close>: \<open>float64\<close> as rounded rationals,
  with bounds on accumulated rounding errors. \<open>Go_Sqrt\<close>: \<open>math.Sqrt\<close> as the rounded root, with bounds for the root
  of a converted integer. \<open>Go_Bytes\<close>: big-endian integers. \<open>Go_Unicode\<close>: the runes of a string, letters and digits.
  \<open>Go_Events\<close>: runs of events over a shared state; its locales lift what one step keeps to whole runs, and are interpreted on
  the steps of the speed daemon, the chat and the code storage.

  \<^bold>\<open>jobcenter\<close> (\<open>Max_Heap\<close>, \<open>Queue_Manager\<close>, \<open>Job_Center\<close>). The generic heap of \<open>maxheap.go\<close> as a list with the
  loops \<open>siftUp\<close> and \<open>siftDown\<close>, shown to implement a priority queue of a multiset; the queue manager with its map
  of heaps and of job locations; requests, the handlers of \<open>jobcenter.go\<close>, and the interleaving of clients as the
  relation \<open>jc_step\<close>. Shown: no job is lost or in two places in any interleaving, a get returns a job of highest
  priority, no handler panics.

  \<^bold>\<open>linereversal\<close> (\<open>LR_Message\<close>, \<open>LR_Session\<close>, \<open>LR_Contract\<close>, \<open>LR_Manager\<close>, \<open>LR_Routing\<close>). The message syntax of
  \<open>linereversal_message.go\<close>; the session of \<open>session.go\<close>, with acknowledgements, retransmission and line reversal; the session
  table and monitor of \<open>sessionmanager.go\<close> and the dispatch of datagrams, interleaved between test and effect.
  \<open>LR_Contract\<close> specifies the exchange of a session with its client, datagram by datagram and without buffers, and shows
  that the session refines it: it sends exactly these datagrams, and a peer that acknowledges is sent every byte of the reversed
  stream. \<open>LR_Routing\<close> compares the datagrams that arrive with what each session receives: an open session in the table gets
  exactly the messages that carry its id. \<open>LR_Manager\<close> shows that the server panics in no other way than by a send to a session
  whose channel the monitor has closed since the test, which it can; also that the dispatcher can get stuck.

  \<^bold>\<open>insecuresocketslayer\<close> (\<open>ISL_Codec\<close>, \<open>ISL_App\<close>, \<open>ISL_Layer\<close>). The cipher of \<open>codec.go\<close>, including the parallel
  decoder under every schedule of its workers; the toy requests of \<open>application.go\<close>; and a whole connection of
  \<open>insecuresocketlayer.go\<close>. Shown: decoding inverts encoding, parallel and sequential decoding agree, and a connection
  answers the lines of the decoded stream, in order, however it is cut into reads, all of them unless a write fails.

  \<^bold>\<open>speeddaemon\<close> (\<open>Speed_Codec\<close>, \<open>Speed_Dispatcher\<close>, \<open>Speed_Daemon\<close>). The binary messages; the central dispatcher
  with its records, tickets and floating-point speeds; and the connections, listeners and heartbeats as events. Shown:
  one ticket per car and day, every ticket justified by two plates received from cameras of its road; once a dispatcher
  is known, two consecutive records above the limit, as the code computes it in 16 bits, have led to a ticket for one of
  their days; and the printed speed is the exact one rounded down.

  \<^bold>\<open>voraciouscodestorage\<close> (\<open>Go_Files\<close>, \<open>VCS_Store\<close>, \<open>VCS_Refine\<close>, \<open>VCS_Server\<close>, \<open>VCS_Restart\<close>,
  \<open>VCS_Session\<close>). \<open>Go_Files\<close> models what the
  server uses of \<open>path/filepath\<close> and \<open>os\<close>, on a map from paths to nodes. \<open>VCS_Store\<close> has the text files of \<open>file.go\<close>,
  the revisions of \<open>versionedFile.go\<close>, the folder tree of \<open>folder.go\<close> and the file manager of \<open>filemanager.go\<close>;
  \<open>VCS_Refine\<close> the abstract store, a list of revisions for each path, and the invariant that ties the tree to the
  disk; \<open>VCS_Server\<close> the commands and the connection of \<open>vcs.go\<close>. Shown: a PUT appends its data as a revision of its
  path and changes nothing else, and reading the directory back at start-up
  (\<open>VCS_Restart\<close>) recovers the same revisions. \<open>VCS_Session\<close> composes the commands of all connections: the
  invariant holds in every state the server reaches from an empty data directory while no PUT names a folder \<open>.\<close> or \<open>..\<close>,
  and in these states GET returns the revision asked for, an acknowledged revision can be read from then on, and LIST shows the
  folder as it is. A PUT through a folder \<open>..\<close> breaks the invariant and can overwrite a revision (\<open>dotted_put_overwrites\<close>).

  \<^bold>\<open>primetime\<close> (\<open>Prime_Time\<close>). The prime test of \<open>primetime.go\<close> on 64-bit integers, its loop a partial function, and
  the requests. Shown: the test returns and is right for every \<open>int\<close>, although its bound is a root computed in
  floating point from a rounded number, and a connection answers its requests accordingly, up to the first bad one.

  \<^bold>\<open>meanstoanend\<close> (\<open>Means_To_End\<close>). The nine-byte messages and the price history. Shown: queries get the exact mean of
  the prices inserted before them; no sum overflows, whatever the order of the map.

  \<^bold>\<open>budgetchat\<close> (\<open>Budget_Chat\<close>). The broker of \<open>broker.go\<close> and the readers and writers of \<open>budgetchat.go\<close>, as events over
  bounded channels. Shown: every member of the room is sent exactly its transcript; and two defects, names taken over
  and a broker that waits for ever.

  \<^bold>\<open>mobinthemiddle\<close> (\<open>Mob_Middle\<close>), \<^bold>\<open>unusualdatabase\<close> (\<open>Unusual_Database\<close>), \<^bold>\<open>smoketest\<close> (\<open>Smoke_Test\<close>). The rewriting
  proxy with its two relays, the key-value store over datagrams, the echo server. Shown: relayed lines change in
  nothing but their addresses, queries get the last value, and the echo is exact up to its limit.

  \<^bold>\<open>Bounds and fuel.\<close> No definition uses fuel: loops are structural or come with a measure, and the loop of the prime
  test is an \<open>option\<close> whose \<open>Some\<close> is proved. Machine integers are
  words where the source fixes a width (bytes, \<open>U16\<close>, \<open>U32\<close>); \<open>int\<close> of the source is Isabelle's \<open>int\<close> where it counts
  bytes of a stream or jobs, which stay far below \<open>2 ^ 63\<close>.

  \<^bold>\<open>Not modelled.\<close> Opening sockets, accepting connections beyond the event itself, logging, and the profiler of
  \<open>main.go\<close>: they have no effect on what the servers compute. What Go leaves open (map order, unstable sorting, random
  draws, scheduling) is an argument of the definitions.
\<close>

end
